(* ===== verification/Prelude.thy ===== *)
theory Prelude
  imports Main "HOL-Library.Word" "HOL-Library.Monad_Syntax"
begin

text \<open>
  What the components share: the machine types of the i386 kernel, the model of a
  kernel panic, and generic facts about lists and partial results.

  A fallible kernel function returns an \<open>option\<close>: \<open>None\<close> stands for a
  panic (a failed \<open>ASSERT\<close>, \<open>PANIC\<close> or \<open>NOT_REACHED\<close> in
  \<open>src/lib/debug.h\<close>) and, for a loop defined with a partial function, also for
  a loop that never ends; a value \<open>Some x\<close> is a return.  Error codes the code
  returns (null pointers, \<open>false\<close>, \<open>BITMAP_ERROR\<close>, \<open>-1\<close>)
  are ordinary values of the model.
\<close>

unbundle bit_operations_syntax

section \<open>Machine types\<close>

type_synonym u8 = "8 word"
type_synonym u16 = "16 word"
type_synonym u32 = "32 word"
type_synonym u64 = "64 word"

text \<open>Addresses of kernel objects; the null pointer is \<open>0\<close>.\<close>

type_synonym ptr = nat

abbreviation NULL :: ptr where
  "NULL \<equiv> 0"

section \<open>Assertions\<close>

definition kassert :: "bool \<Rightarrow> unit option" where
  "kassert b = (if b then Some () else None)"

named_theorems ret_simps \<open>when does a composed operation return\<close>

lemma kassert_True [simp]: "kassert True = Some ()"
  by (simp add: kassert_def)

lemma kassert_False [simp]: "kassert False = None"
  by (simp add: kassert_def)

lemma kassert_eq_Some [simp]: "kassert b = Some u \<longleftrightarrow> b"
  by (simp add: kassert_def)

lemma kassert_eq_None [simp]: "kassert b = None \<longleftrightarrow> \<not> b"
  by (simp add: kassert_def)

lemma bind_kassert_eq_Some [ret_simps]:
  "Option.bind (kassert b) f = Some x \<longleftrightarrow> b \<and> f () = Some x"
  by (simp add: kassert_def)

lemma bind_ret [ret_simps]:
  "Option.bind m f = Some x \<longleftrightarrow> (\<exists>y. m = Some y \<and> f y = Some x)"
  by (rule bind_eq_Some_conv)

section \<open>Orderings given by a comparison function\<close>

text \<open>
  What a \<open>list_less_func\<close> or \<open>hash_less_func\<close> has to be on the elements it is
  used on: a strict weak order.
\<close>

definition strict_weak :: "('a \<Rightarrow> 'a \<Rightarrow> bool) \<Rightarrow> 'a set \<Rightarrow> bool" where
  "strict_weak lt S \<longleftrightarrow> (\<forall>x\<in>S. \<forall>y\<in>S. lt x y \<longrightarrow> \<not> lt y x)
     \<and> (\<forall>x\<in>S. \<forall>y\<in>S. \<forall>z\<in>S. lt x z \<longrightarrow> lt x y \<or> lt y z)"

definition equiv_by :: "('a \<Rightarrow> 'a \<Rightarrow> bool) \<Rightarrow> 'a \<Rightarrow> 'a \<Rightarrow> bool" where
  "equiv_by lt x y \<longleftrightarrow> \<not> lt x y \<and> \<not> lt y x"

definition sorted_by :: "('a \<Rightarrow> 'a \<Rightarrow> bool) \<Rightarrow> 'a list \<Rightarrow> bool" where
  "sorted_by lt xs \<longleftrightarrow> sorted_wrt (\<lambda>x y. \<not> lt y x) xs"

lemma strict_weak_subset: "strict_weak lt S \<Longrightarrow> T \<subseteq> S \<Longrightarrow> strict_weak lt T"
  unfolding strict_weak_def by (meson subsetD)

lemma strict_weak_asym: "strict_weak lt S \<Longrightarrow> x \<in> S \<Longrightarrow> y \<in> S \<Longrightarrow> lt x y \<Longrightarrow> \<not> lt y x"
  by (auto simp: strict_weak_def)

lemma strict_weak_irrefl: "strict_weak lt S \<Longrightarrow> x \<in> S \<Longrightarrow> \<not> lt x x"
  by (auto simp: strict_weak_def)

lemma strict_weak_negtrans:
  "strict_weak lt S \<Longrightarrow> x \<in> S \<Longrightarrow> y \<in> S \<Longrightarrow> z \<in> S \<Longrightarrow> \<not> lt x y \<Longrightarrow> \<not> lt y z \<Longrightarrow> \<not> lt x z"
  unfolding strict_weak_def by blast

lemma strict_weak_trans:
  "strict_weak lt S \<Longrightarrow> x \<in> S \<Longrightarrow> y \<in> S \<Longrightarrow> z \<in> S \<Longrightarrow> lt x y \<Longrightarrow> lt y z \<Longrightarrow> lt x z"
  unfolding strict_weak_def by blast

lemma sorted_by_simps [simp]:
  "sorted_by lt []" "sorted_by lt [x]"
  "sorted_by lt (x # xs) \<longleftrightarrow> (\<forall>y\<in>set xs. \<not> lt y x) \<and> sorted_by lt xs"
  "sorted_by lt (xs @ ys) \<longleftrightarrow> sorted_by lt xs \<and> sorted_by lt ys \<and> (\<forall>x\<in>set xs. \<forall>y\<in>set ys. \<not> lt y x)"
  by (auto simp: sorted_by_def sorted_wrt_append)

lemma sorted_by_adjacent:
  assumes "strict_weak lt (set xs)" "\<And>i. Suc i < length xs \<Longrightarrow> \<not> lt (xs ! Suc i) (xs ! i)"
  shows "sorted_by lt xs"
  using assms
proof (induction xs rule: induct_list012)
  case (3 x y zs)
  have s: "sorted_by lt (y # zs)"
    using "3.prems"(2) by (intro "3.IH"(2) strict_weak_subset [OF "3.prems"(1)]) fastforce+
  have xy: "\<not> lt y x" using "3.prems"(2) [of 0] by simp
  have "\<not> lt z x" if "z \<in> set zs" for z
    using that s xy strict_weak_negtrans [OF "3.prems"(1), of z y x] by auto
  with s xy show ?case by auto
qed auto

lemma unat_lt2p: "unat (x::'a::len word) < 2 ^ LENGTH('a)"
  by (rule unsigned_less)

lemma unat_inc: "(x::'a::len word) < y \<Longrightarrow> unat (x + 1) = Suc (unat x)"
proof -
  assume "x < y"
  then have "unat x < unat y" by (simp add: word_less_nat_alt)
  then have "Suc (unat x) < 2 ^ LENGTH('a)" using unat_lt2p [of y] by linarith
  then have "unat x + unat (1::'a word) < 2 ^ LENGTH('a)" by simp
  then show ?thesis by (simp add: unat_add_lem [THEN iffD1])
qed

end
