(* ===== verification/Klist.thy ===== *)
theory Klist
  imports Prelude "HOL-Library.Multiset"
begin

text \<open>
  The kernel's doubly linked lists, \<open>src/lib/kernel/list.c\<close> and
  \<open>list.h\<close>: every function of the file over an explicit heap of
  \<open>struct list_elem\<close> cells.  A \<open>struct list\<close> at address \<open>l\<close> holds its
  head element at offset 0 and its tail element at offset 8 (two pointers of four bytes).
  Pointers are never followed without the assertion the code makes first.  Loops over the
  list are partial functions: a corrupted list may make them run forever.
\<close>

section \<open>Model\<close>

subsection \<open>Elements, lists and the heap\<close>

record list_elem =
  elem_prev :: ptr
  elem_next :: ptr

type_synonym lheap = "ptr \<Rightarrow> list_elem"

type_synonym list_less_func = "ptr \<Rightarrow> ptr \<Rightarrow> bool"

definition list_head_addr :: "ptr \<Rightarrow> ptr" where
  "list_head_addr l = l"

definition list_tail_addr :: "ptr \<Rightarrow> ptr" where
  "list_tail_addr l = l + 8"

definition set_prev :: "lheap \<Rightarrow> ptr \<Rightarrow> ptr \<Rightarrow> lheap" where
  "set_prev h e p = h(e := (h e)\<lparr>elem_prev := p\<rparr>)"

definition set_next :: "lheap \<Rightarrow> ptr \<Rightarrow> ptr \<Rightarrow> lheap" where
  "set_next h e n = h(e := (h e)\<lparr>elem_next := n\<rparr>)"

definition is_head :: "lheap \<Rightarrow> ptr \<Rightarrow> bool" where
  "is_head h e \<longleftrightarrow> e \<noteq> NULL \<and> elem_prev (h e) = NULL \<and> elem_next (h e) \<noteq> NULL"

definition is_interior :: "lheap \<Rightarrow> ptr \<Rightarrow> bool" where
  "is_interior h e \<longleftrightarrow> e \<noteq> NULL \<and> elem_prev (h e) \<noteq> NULL \<and> elem_next (h e) \<noteq> NULL"

definition is_tail :: "lheap \<Rightarrow> ptr \<Rightarrow> bool" where
  "is_tail h e \<longleftrightarrow> e \<noteq> NULL \<and> elem_prev (h e) \<noteq> NULL \<and> elem_next (h e) = NULL"

subsection \<open>Initialisation and traversal\<close>

definition list_init :: "lheap \<Rightarrow> ptr \<Rightarrow> lheap option" where
  "list_init h l = do {
     kassert (l \<noteq> NULL);
     let h = set_prev h (list_head_addr l) NULL;
     let h = set_next h (list_head_addr l) (list_tail_addr l);
     let h = set_prev h (list_tail_addr l) (list_head_addr l);
     let h = set_next h (list_tail_addr l) NULL;
     Some h }"

definition list_begin :: "lheap \<Rightarrow> ptr \<Rightarrow> ptr option" where
  "list_begin h l = do { kassert (l \<noteq> NULL); Some (elem_next (h (list_head_addr l))) }"

definition list_next :: "lheap \<Rightarrow> ptr \<Rightarrow> ptr option" where
  "list_next h e = do { kassert (is_head h e \<or> is_interior h e); Some (elem_next (h e)) }"

definition list_end :: "ptr \<Rightarrow> ptr option" where
  "list_end l = do { kassert (l \<noteq> NULL); Some (list_tail_addr l) }"

definition list_rbegin :: "lheap \<Rightarrow> ptr \<Rightarrow> ptr option" where
  "list_rbegin h l = do { kassert (l \<noteq> NULL); Some (elem_prev (h (list_tail_addr l))) }"

definition list_prev :: "lheap \<Rightarrow> ptr \<Rightarrow> ptr option" where
  "list_prev h e = do { kassert (is_interior h e \<or> is_tail h e); Some (elem_prev (h e)) }"

definition list_rend :: "ptr \<Rightarrow> ptr option" where
  "list_rend l = do { kassert (l \<noteq> NULL); Some (list_head_addr l) }"

definition list_head :: "ptr \<Rightarrow> ptr option" where
  "list_head l = do { kassert (l \<noteq> NULL); Some (list_head_addr l) }"

definition list_tail :: "ptr \<Rightarrow> ptr option" where
  "list_tail l = do { kassert (l \<noteq> NULL); Some (list_tail_addr l) }"

subsection \<open>Insertion and removal\<close>

definition list_insert :: "lheap \<Rightarrow> ptr \<Rightarrow> ptr \<Rightarrow> lheap option" where
  "list_insert h before e = do {
     kassert (is_interior h before \<or> is_tail h before);
     kassert (e \<noteq> NULL);
     let h = set_prev h e (elem_prev (h before));
     let h = set_next h e before;
     let h = set_next h (elem_prev (h before)) e;
     let h = set_prev h before e;
     Some h }"

definition list_splice :: "lheap \<Rightarrow> ptr \<Rightarrow> ptr \<Rightarrow> ptr \<Rightarrow> lheap option" where
  "list_splice h before first last0 = do {
     kassert (is_interior h before \<or> is_tail h before);
     if first = last0 then Some h else do {
       last1 \<leftarrow> list_prev h last0;
       kassert (is_interior h first);
       kassert (is_interior h last1);
       let h = set_next h (elem_prev (h first)) (elem_next (h last1));
       let h = set_prev h (elem_next (h last1)) (elem_prev (h first));
       let h = set_prev h first (elem_prev (h before));
       let h = set_next h last1 before;
       let h = set_next h (elem_prev (h before)) first;
       let h = set_prev h before last1;
       Some h } }"

definition list_push_front :: "lheap \<Rightarrow> ptr \<Rightarrow> ptr \<Rightarrow> lheap option" where
  "list_push_front h l e = do { b \<leftarrow> list_begin h l; list_insert h b e }"

definition list_push_back :: "lheap \<Rightarrow> ptr \<Rightarrow> ptr \<Rightarrow> lheap option" where
  "list_push_back h l e = do { b \<leftarrow> list_end l; list_insert h b e }"

definition list_remove :: "lheap \<Rightarrow> ptr \<Rightarrow> (ptr \<times> lheap) option" where
  "list_remove h e = do {
     kassert (is_interior h e);
     let h = set_next h (elem_prev (h e)) (elem_next (h e));
     let h = set_prev h (elem_next (h e)) (elem_prev (h e));
     Some (elem_next (h e), h) }"

definition list_empty :: "lheap \<Rightarrow> ptr \<Rightarrow> bool option" where
  "list_empty h l = do { b \<leftarrow> list_begin h l; e \<leftarrow> list_end l; Some (b = e) }"

definition list_front :: "lheap \<Rightarrow> ptr \<Rightarrow> ptr option" where
  "list_front h l = do {
     em \<leftarrow> list_empty h l; kassert (\<not> em);
     Some (elem_next (h (list_head_addr l))) }"

definition list_back :: "lheap \<Rightarrow> ptr \<Rightarrow> ptr option" where
  "list_back h l = do {
     em \<leftarrow> list_empty h l; kassert (\<not> em);
     Some (elem_prev (h (list_tail_addr l))) }"

definition list_pop_front :: "lheap \<Rightarrow> ptr \<Rightarrow> (ptr \<times> lheap) option" where
  "list_pop_front h l = do {
     front \<leftarrow> list_front h l;
     (_, h) \<leftarrow> list_remove h front;
     Some (front, h) }"

definition list_pop_back :: "lheap \<Rightarrow> ptr \<Rightarrow> (ptr \<times> lheap) option" where
  "list_pop_back h l = do {
     back \<leftarrow> list_back h l;
     (_, h) \<leftarrow> list_remove h back;
     Some (back, h) }"

subsection \<open>Size and reversal\<close>

partial_function (option) list_size_loop :: "lheap \<Rightarrow> ptr \<Rightarrow> ptr \<Rightarrow> u32 \<Rightarrow> u32 option" where
  "list_size_loop h e end cnt =
     (if e = end then Some cnt
      else do { e' \<leftarrow> list_next h e; list_size_loop h e' end (cnt + 1) })"

definition list_size :: "lheap \<Rightarrow> ptr \<Rightarrow> u32 option" where
  "list_size h l = do {
     e \<leftarrow> list_begin h l; end \<leftarrow> list_end l; list_size_loop h e end 0 }"

definition swap_links :: "lheap \<Rightarrow> ptr \<Rightarrow> lheap" where
  "swap_links h e = (let t = elem_prev (h e) in
     set_next (set_prev h e (elem_next (h e))) e t)"

partial_function (option) list_reverse_loop :: "lheap \<Rightarrow> ptr \<Rightarrow> ptr \<Rightarrow> lheap option" where
  "list_reverse_loop h e end =
     (if e = end then Some h
      else let h' = swap_links h e in list_reverse_loop h' (elem_prev (h' e)) end)"

definition list_reverse :: "lheap \<Rightarrow> ptr \<Rightarrow> lheap option" where
  "list_reverse h l = do {
     em \<leftarrow> list_empty h l;
     if em then Some h else do {
       e \<leftarrow> list_begin h l; end \<leftarrow> list_end l;
       h \<leftarrow> list_reverse_loop h e end;
       let t = elem_next (h (list_head_addr l));
       let h = set_next h (list_head_addr l) (elem_prev (h (list_tail_addr l)));
       let h = set_prev h (list_tail_addr l) t;
       let a = elem_next (h (list_head_addr l));
       let b = elem_prev (h (list_tail_addr l));
       let t = elem_prev (h a);
       let h = set_prev h a (elem_next (h b));
       let h = set_next h b t;
       Some h } }"

subsection \<open>Sorting\<close>

text \<open>The loop of \<open>is_sorted\<close>; its caller has tested \<open>a \<noteq> b\<close>.\<close>

partial_function (option) is_sorted_loop ::
    "list_less_func \<Rightarrow> lheap \<Rightarrow> ptr \<Rightarrow> ptr \<Rightarrow> bool option" where
  "is_sorted_loop lt h a b = do {
     a' \<leftarrow> list_next h a;
     if a' = b then Some True
     else do {
       p \<leftarrow> list_prev h a';
       if lt a' p then Some False else is_sorted_loop lt h a' b } }"

definition is_sorted :: "list_less_func \<Rightarrow> lheap \<Rightarrow> ptr \<Rightarrow> ptr \<Rightarrow> bool option" where
  "is_sorted lt h a b = (if a \<noteq> b then is_sorted_loop lt h a b else Some True)"

partial_function (option) find_end_of_run_loop ::
    "list_less_func \<Rightarrow> lheap \<Rightarrow> ptr \<Rightarrow> ptr \<Rightarrow> ptr option" where
  "find_end_of_run_loop lt h a b = do {
     a' \<leftarrow> list_next h a;
     if a' = b then Some a'
     else do {
       p \<leftarrow> list_prev h a';
       if \<not> lt a' p then find_end_of_run_loop lt h a' b else Some a' } }"

definition find_end_of_run :: "list_less_func \<Rightarrow> lheap \<Rightarrow> ptr \<Rightarrow> ptr \<Rightarrow> ptr option" where
  "find_end_of_run lt h a b = do {
     kassert (a \<noteq> NULL);
     kassert (b \<noteq> NULL);
     kassert (a \<noteq> b);
     find_end_of_run_loop lt h a b }"

partial_function (option) inplace_merge_loop ::
    "list_less_func \<Rightarrow> lheap \<Rightarrow> ptr \<Rightarrow> ptr \<Rightarrow> ptr \<Rightarrow> lheap option" where
  "inplace_merge_loop lt h a0 a1b0 b1 =
     (if a0 \<noteq> a1b0 \<and> a1b0 \<noteq> b1 then
        if \<not> lt a1b0 a0 then do {
          a0' \<leftarrow> list_next h a0;
          inplace_merge_loop lt h a0' a1b0 b1 }
        else do {
          a1b0' \<leftarrow> list_next h a1b0;
          p \<leftarrow> list_prev h a1b0';
          h' \<leftarrow> list_splice h a0 p a1b0';
          inplace_merge_loop lt h' a0 a1b0' b1 }
      else Some h)"

definition inplace_merge ::
    "list_less_func \<Rightarrow> lheap \<Rightarrow> ptr \<Rightarrow> ptr \<Rightarrow> ptr \<Rightarrow> lheap option" where
  "inplace_merge lt h a0 a1b0 b1 = do {
     kassert (a0 \<noteq> NULL);
     kassert (a1b0 \<noteq> NULL);
     kassert (b1 \<noteq> NULL);
     s1 \<leftarrow> is_sorted lt h a0 a1b0; kassert s1;
     s2 \<leftarrow> is_sorted lt h a1b0 b1; kassert s2;
     inplace_merge_loop lt h a0 a1b0 b1 }"

text \<open>The \<open>for\<close> loop of one pass: it returns the heap and the number of output runs.\<close>

partial_function (option) list_sort_pass ::
    "list_less_func \<Rightarrow> lheap \<Rightarrow> ptr \<Rightarrow> ptr \<Rightarrow> u32 \<Rightarrow> (lheap \<times> u32) option" where
  "list_sort_pass lt h a0 end cnt =
     (if a0 = end then Some (h, cnt)
      else do {
        a1b0 \<leftarrow> find_end_of_run lt h a0 end;
        if a1b0 = end then Some (h, cnt + 1)
        else do {
          b1 \<leftarrow> find_end_of_run lt h a1b0 end;
          h' \<leftarrow> inplace_merge lt h a0 a1b0 b1;
          list_sort_pass lt h' b1 end (cnt + 1) } })"

partial_function (option) list_sort_loop ::
    "list_less_func \<Rightarrow> lheap \<Rightarrow> ptr \<Rightarrow> lheap option" where
  "list_sort_loop lt h l = do {
     a0 \<leftarrow> list_begin h l;
     end \<leftarrow> list_end l;
     (h', output_run_cnt) \<leftarrow> list_sort_pass lt h a0 end 0;
     if output_run_cnt > 1 then list_sort_loop lt h' l else Some h' }"

definition list_sort :: "list_less_func \<Rightarrow> lheap \<Rightarrow> ptr \<Rightarrow> lheap option" where
  "list_sort lt h l = do {
     kassert (l \<noteq> NULL);
     h \<leftarrow> list_sort_loop lt h l;
     b \<leftarrow> list_begin h l;
     e \<leftarrow> list_end l;
     s \<leftarrow> is_sorted lt h b e;
     kassert s;
     Some h }"

subsection \<open>Ordered insertion, duplicates, maximum and minimum\<close>

partial_function (option) list_insert_ordered_loop ::
    "list_less_func \<Rightarrow> lheap \<Rightarrow> ptr \<Rightarrow> ptr \<Rightarrow> ptr \<Rightarrow> ptr option" where
  "list_insert_ordered_loop lt h elem e end =
     (if e = end then Some e
      else if lt elem e then Some e
      else do { e' \<leftarrow> list_next h e; list_insert_ordered_loop lt h elem e' end })"

definition list_insert_ordered :: "list_less_func \<Rightarrow> lheap \<Rightarrow> ptr \<Rightarrow> ptr \<Rightarrow> lheap option" where
  "list_insert_ordered lt h l elem = do {
     kassert (l \<noteq> NULL);
     kassert (elem \<noteq> NULL);
     b \<leftarrow> list_begin h l;
     end \<leftarrow> list_end l;
     e \<leftarrow> list_insert_ordered_loop lt h elem b end;
     list_insert h e elem }"

partial_function (option) list_unique_loop ::
    "list_less_func \<Rightarrow> lheap \<Rightarrow> ptr \<Rightarrow> ptr \<Rightarrow> ptr \<Rightarrow> lheap option" where
  "list_unique_loop lt h l duplicates elem = do {
     nx \<leftarrow> list_next h elem;
     end \<leftarrow> list_end l;
     if nx = end then Some h
     else if \<not> lt elem nx \<and> \<not> lt nx elem then do {
       (_, h) \<leftarrow> list_remove h nx;
       h \<leftarrow> (if duplicates \<noteq> NULL then list_push_back h duplicates nx else Some h);
       list_unique_loop lt h l duplicates elem }
     else list_unique_loop lt h l duplicates nx }"

definition list_unique :: "list_less_func \<Rightarrow> lheap \<Rightarrow> ptr \<Rightarrow> ptr \<Rightarrow> lheap option" where
  "list_unique lt h l duplicates = do {
     kassert (l \<noteq> NULL);
     em \<leftarrow> list_empty h l;
     if em then Some h
     else do { e \<leftarrow> list_begin h l; list_unique_loop lt h l duplicates e } }"

partial_function (option) list_max_loop ::
    "list_less_func \<Rightarrow> lheap \<Rightarrow> ptr \<Rightarrow> ptr \<Rightarrow> ptr \<Rightarrow> ptr option" where
  "list_max_loop lt h mx e end =
     (if e = end then Some mx
      else do {
        e' \<leftarrow> list_next h e;
        list_max_loop lt h (if lt mx e then e else mx) e' end })"

definition list_max :: "list_less_func \<Rightarrow> lheap \<Rightarrow> ptr \<Rightarrow> ptr option" where
  "list_max lt h l = do {
     mx \<leftarrow> list_begin h l;
     end \<leftarrow> list_end l;
     if mx \<noteq> end then do {
       e \<leftarrow> list_next h mx;
       list_max_loop lt h mx e end }
     else Some mx }"

partial_function (option) list_min_loop ::
    "list_less_func \<Rightarrow> lheap \<Rightarrow> ptr \<Rightarrow> ptr \<Rightarrow> ptr \<Rightarrow> ptr option" where
  "list_min_loop lt h mn e end =
     (if e = end then Some mn
      else do {
        e' \<leftarrow> list_next h e;
        list_min_loop lt h (if lt e mn then e else mn) e' end })"

definition list_min :: "list_less_func \<Rightarrow> lheap \<Rightarrow> ptr \<Rightarrow> ptr option" where
  "list_min lt h l = do {
     mn \<leftarrow> list_begin h l;
     end \<leftarrow> list_end l;
     if mn \<noteq> end then do {
       e \<leftarrow> list_next h mn;
       list_min_loop lt h mn e end }
     else Some mn }"

end
