(* ===== verification/Klist_Repr.thy ===== *)
theory Klist_Repr
  imports Klist
begin

text \<open>
  The representation relation of the kernel lists and the correctness of the operations of
  \<open>list.c\<close> that do not order their elements.  \<open>list_repr h l xs\<close> says that the heap
  \<open>h\<close> holds at \<open>l\<close> a well-formed list with the elements \<open>xs\<close>; every
  operation is characterised by the HOL list it leaves and by a frame condition (cells outside
  the list are untouched), so that other lists of the heap keep their contents.
\<close>

named_theorems klist_simps \<open>reads of updated cells, membership of chain nodes\<close>

section \<open>Chains of cells\<close>

fun linked :: "lheap \<Rightarrow> ptr list \<Rightarrow> bool" where
  "linked h (x # y # zs) \<longleftrightarrow> elem_next (h x) = y \<and> elem_prev (h y) = x \<and> linked h (y # zs)"
| "linked h _ \<longleftrightarrow> True"

definition chain :: "lheap \<Rightarrow> ptr list \<Rightarrow> bool" where
  "chain h ns \<longleftrightarrow> 2 \<le> length ns \<and> distinct ns \<and> NULL \<notin> set ns \<and> linked h ns
     \<and> elem_prev (h (hd ns)) = NULL \<and> elem_next (h (last ns)) = NULL"

definition list_nodes :: "ptr \<Rightarrow> ptr list \<Rightarrow> ptr list" where
  "list_nodes l xs = list_head_addr l # xs @ [list_tail_addr l]"

definition list_repr :: "lheap \<Rightarrow> ptr \<Rightarrow> ptr list \<Rightarrow> bool" where
  "list_repr h l xs \<longleftrightarrow> chain h (list_nodes l xs)"

lemmas upd_defs = set_prev_def set_next_def

lemma set_prev_read [simp, klist_simps]:
  "elem_prev (set_prev h a v b) = (if b = a then v else elem_prev (h b))"
  "elem_next (set_prev h a v b) = elem_next (h b)"
  by (simp_all add: set_prev_def)

lemma set_next_read [simp, klist_simps]:
  "elem_next (set_next h a v b) = (if b = a then v else elem_next (h b))"
  "elem_prev (set_next h a v b) = elem_prev (h b)"
  by (simp_all add: set_next_def)

lemma upd_other [simp]:
  "b \<noteq> a \<Longrightarrow> set_prev h a v b = h b" "b \<noteq> a \<Longrightarrow> set_next h a v b = h b"
  by (simp_all add: upd_defs)

lemma linked_split:
  "linked h (as @ x # bs) \<longleftrightarrow> linked h (as @ [x]) \<and> linked h (x # bs)"
  by (induction as rule: induct_list012) auto

lemma linked_Cons2 [simp]: "linked h (as @ x # y # bs) \<longleftrightarrow>
    linked h (as @ [x]) \<and> elem_next (h x) = y \<and> elem_prev (h y) = x \<and> linked h (y # bs)"
  by (subst linked_split) simp

lemma linked_cong:
  assumes "\<And>x. x \<in> set (butlast ns) \<Longrightarrow> elem_next (h' x) = elem_next (h x)"
    and "\<And>x. x \<in> set (tl ns) \<Longrightarrow> elem_prev (h' x) = elem_prev (h x)"
  shows "linked h' ns = linked h ns"
  using assms
proof (induction h ns rule: linked.induct)
  case (1 h x y zs)
  then show ?case
    by (metis (no_types, lifting) butlast.simps(2) in_set_butlast_appendI linked.simps(1)
        list.distinct(1) list.sel(3) list.set_intros(1) list.set_intros(2))
qed auto

lemma linked_frame:
  assumes "\<And>x. x \<in> set ns \<Longrightarrow> h' x = h x"
  shows "linked h' ns = linked h ns"
  by (rule linked_cong; cases ns) (auto simp: assms dest: in_set_butlastD split: if_splits)

lemma linked_upd_other [simp]:
  "e \<notin> set ns \<Longrightarrow> linked (set_prev h e v) ns = linked h ns"
  "e \<notin> set ns \<Longrightarrow> linked (set_next h e v) ns = linked h ns"
  by (rule linked_frame, metis upd_other(1)) (rule linked_frame, metis upd_other(2))

lemma linked_set_next_last [simp]:
  "p \<notin> set as \<Longrightarrow> linked (set_next h p v) (as @ [p]) = linked h (as @ [p])"
  by (rule linked_cong) auto

lemma linked_set_prev_hd [simp]:
  "b \<notin> set bs \<Longrightarrow> linked (set_prev h b v) (b # bs) = linked h (b # bs)"
  by (rule linked_cong) auto

lemma chainI:
  assumes "distinct (as @ p # b # bs)" "NULL \<notin> set (as @ p # b # bs)"
    "linked h (as @ p # b # bs)" "elem_prev (h (hd (as @ [p]))) = NULL"
    "elem_next (h (last (b # bs))) = NULL"
  shows "chain h (as @ p # b # bs)"
  using assms by (auto simp: chain_def hd_append)

lemma chainD:
  assumes "chain h (as @ p # b # bs)"
  shows "distinct (as @ p # b # bs)" "NULL \<notin> set (as @ p # b # bs)"
    "linked h (as @ p # b # bs)" "elem_prev (h (hd (as @ [p]))) = NULL"
    "elem_next (h (last (b # bs))) = NULL"
    "elem_next (h p) = b" "elem_prev (h b) = p" "p \<noteq> NULL" "b \<noteq> NULL"
  using assms by (auto simp: chain_def hd_append split: if_splits)

lemma chain_before:
  assumes "chain h (as @ p # b # bs)"
  shows "is_interior h b \<or> is_tail h b" "is_head h p \<or> is_interior h p"
  using chainD [OF assms] by (auto simp: is_interior_def is_tail_def is_head_def)

lemma chain_interior:
  assumes "chain h (as @ p # x # n # bs)"
  shows "is_interior h x" "elem_prev (h x) = p" "elem_next (h x) = n"
  using chainD [OF assms] by (auto simp: is_interior_def)

lemma chain_not_interior_hd:
  assumes "chain h ns" shows "\<not> is_interior h (hd ns)" "\<not> is_interior h (last ns)"
  using assms by (auto simp: chain_def is_interior_def)

lemma chain_frame:
  assumes "chain h ns" "\<And>x. x \<in> set ns \<Longrightarrow> h' x = h x"
  shows "chain h' ns"
proof -
  from assms(1) have ne: "ns \<noteq> []" by (auto simp: chain_def)
  with assms(2) have "h' (hd ns) = h (hd ns)" "h' (last ns) = h (last ns)"
    by simp_all
  with assms linked_frame [of ns h' h] show ?thesis by (simp add: chain_def)
qed

section \<open>Insertion, removal and splicing on chains\<close>

lemma chain_list_insert:
  assumes ch: "chain h (as @ p # b # bs)" and e: "e \<noteq> NULL" "e \<notin> set (as @ p # b # bs)"
  shows "\<exists>h'. list_insert h b e = Some h' \<and> chain h' (as @ p # e # b # bs)
     \<and> (\<forall>y. y \<notin> {p, e, b} \<longrightarrow> h' y = h y)"
proof -
  note D = chainD [OF ch]
  let ?h = "set_prev (set_next (set_next (set_prev h e p) e b) p e) b e"
  have neq: "e \<noteq> p" "e \<noteq> b" "p \<noteq> b" using e D(1) by auto
  have ret: "list_insert h b e = Some ?h"
    using e neq chain_before(1) [OF ch] D(7)
    by (simp add: list_insert_def Let_def upd_defs)
  have hd: "elem_prev (?h (hd (as @ [p]))) = NULL"
    using D(1,4) e by (cases as) auto
  have last: "elem_next (?h (last (b # bs))) = NULL"
    using D(1,5) e by (auto split: if_splits)
  have "chain ?h (as @ p # e # b # bs)"
  proof (rule chainI)
    show "linked ?h (as @ p # e # b # bs)"
      using D(1,3) e by auto
  qed (use D e hd last in auto)
  moreover have "\<forall>y. y \<notin> {p, e, b} \<longrightarrow> ?h y = h y"
    by (simp add: upd_defs)
  ultimately show ?thesis using ret by blast
qed

lemma chain_list_remove:
  assumes ch: "chain h (as @ p # e # n # bs)"
  shows "\<exists>h'. list_remove h e = Some (n, h') \<and> chain h' (as @ p # n # bs)
     \<and> (\<forall>y. y \<notin> {p, n} \<longrightarrow> h' y = h y)"
proof -
  note D = chainD [OF ch]
  let ?h = "set_prev (set_next h p n) n p"
  have neq: "e \<noteq> p" "e \<noteq> n" "p \<noteq> n" using D(1) by auto
  have ret: "list_remove h e = Some (n, ?h)"
    using neq chain_interior [OF ch] by (simp add: list_remove_def Let_def)
  have hd: "elem_prev (?h (hd (as @ [p]))) = NULL"
    using D(1,4) by (cases as) auto
  have last: "elem_next (?h (last (n # bs))) = NULL"
    using D(1,5) by (auto split: if_splits)
  have "chain ?h (as @ p # n # bs)"
  proof (rule chainI)
    show "linked ?h (as @ p # n # bs)"
      using D(1,3) by auto
  qed (use D hd last in auto)
  with ret show ?thesis by auto
qed

lemma linked_append:
  "linked h (xs @ ys) \<longleftrightarrow> linked h xs \<and> linked h ys
     \<and> (xs \<noteq> [] \<and> ys \<noteq> [] \<longrightarrow> elem_next (h (last xs)) = hd ys \<and> elem_prev (h (hd ys)) = last xs)"
proof (cases xs rule: rev_cases)
  case (snoc xs' x)
  then show ?thesis by (cases ys) auto
qed simp

lemma linked_ends:
  assumes "linked h ns" "distinct ns"
    "\<And>x. x \<in> set ns \<Longrightarrow> x \<noteq> last ns \<Longrightarrow> elem_next (h' x) = elem_next (h x)"
    "\<And>x. x \<in> set ns \<Longrightarrow> x \<noteq> hd ns \<Longrightarrow> elem_prev (h' x) = elem_prev (h x)"
  shows "linked h' ns"
proof -
  have "linked h' ns = linked h ns"
  proof (rule linked_cong)
    show "elem_next (h' x) = elem_next (h x)" if "x \<in> set (butlast ns)" for x
      using that assms(2,3) by (cases ns rule: rev_cases) auto
    show "elem_prev (h' x) = elem_prev (h x)" if "x \<in> set (tl ns)" for x
      using that assms(2,4) by (cases ns) auto
  qed
  with assms(1) show ?thesis by simp
qed

definition spliced :: "lheap \<Rightarrow> ptr \<Rightarrow> ptr \<Rightarrow> ptr \<Rightarrow> ptr \<Rightarrow> ptr \<Rightarrow> ptr \<Rightarrow> lheap" where
  "spliced h p b q f t n =
     set_prev (set_next (set_next (set_prev (set_prev (set_next h q n) n q) f p) t b) p f) b t"

lemma spliced_other: "y \<notin> {p, b, q, f, t, n} \<Longrightarrow> spliced h p b q f t n y = h y"
  by (simp add: spliced_def)

lemma list_splice_eq:
  assumes "is_interior h b \<or> is_tail h b" "is_interior h n \<or> is_tail h n"
    "is_interior h f" "is_interior h t"
    "elem_prev (h b) = p" "elem_prev (h n) = t" "elem_prev (h f) = q" "elem_next (h t) = n"
    "f \<noteq> n" "q \<noteq> t" "b \<noteq> n" "b \<noteq> f"
  shows "list_splice h b f n = Some (spliced h p b q f t n)"
  using assms by (auto simp: list_splice_def list_prev_def spliced_def Let_def kassert_def)

lemma chain_list_splice:
  assumes ch: "chain h (as @ p # M @ S @ n # cs)" and ne: "M \<noteq> []" "S \<noteq> []"
  shows "\<exists>h'. list_splice h (hd M) (hd S) n = Some h' \<and> chain h' (as @ p # S @ M @ n # cs)
     \<and> (\<forall>y. y \<notin> set (as @ p # M @ S @ n # cs) \<longrightarrow> h' y = h y)"
proof -
  define b q f t where "b = hd M" and "q = last M" and "f = hd S" and "t = last S"
  with ne have ends: "hd M = b" "last M = q" "hd S = f" "last S = t"
    "b \<in> set M" "q \<in> set M" "f \<in> set S" "t \<in> set S"
    by auto
  let ?h = "spliced h p b q f t n"
  have d: "distinct (as @ p # M @ S @ n # cs)" and z: "NULL \<notin> set (as @ p # M @ S @ n # cs)"
    and lk: "linked h (as @ p # M @ S @ n # cs)"
    and hd0: "elem_prev (h (hd (as @ p # M @ S @ n # cs))) = NULL"
    and last0: "elem_next (h (last (as @ p # M @ S @ n # cs))) = NULL"
    using ch by (auto simp: chain_def)
  have parts: "linked h (as @ [p])" "linked h M" "linked h S" "linked h (n # cs)"
    "elem_next (h p) = b" "elem_prev (h b) = p" "elem_next (h q) = f" "elem_prev (h f) = q"
    "elem_next (h t) = n" "elem_prev (h n) = t"
    using lk ne ends linked_append [of h "as @ [p]" "M @ S @ n # cs"]
      linked_append [of h M "S @ n # cs"] linked_append [of h S "n # cs"] by auto
  have dp: "distinct (as @ [p])" "distinct M" "distinct S" "distinct (n # cs)"
    "p \<notin> set M" "p \<notin> set S" "p \<notin> set (n # cs)" "n \<notin> set M" "n \<notin> set S" "n \<notin> set as" "p \<noteq> n"
    "set M \<inter> set S = {}" "set M \<inter> set as = {}" "set S \<inter> set as = {}" "set M \<inter> set cs = {}" "set S \<inter> set cs = {}"
    using d by auto
  have neq: "p \<noteq> b" "p \<noteq> q" "p \<noteq> f" "p \<noteq> t" "n \<noteq> b" "n \<noteq> q" "n \<noteq> f" "n \<noteq> t"
     "b \<noteq> f" "b \<noteq> t" "q \<noteq> f" "q \<noteq> t"
    using dp ends by auto
  have nz: "p \<noteq> NULL" "b \<noteq> NULL" "q \<noteq> NULL" "f \<noteq> NULL" "t \<noteq> NULL" "n \<noteq> NULL"
    using z ends by (auto intro: ccontr)
  have nxt: "elem_next (h f) \<noteq> NULL" "elem_prev (h t) \<noteq> NULL"
  proof -
    have "elem_next (h f) \<in> set (S @ [n])"
      using parts(3,9) ne(2) ends(3,4) by (cases S rule: remdups_adj.cases) auto
    then show "elem_next (h f) \<noteq> NULL" using z by (auto intro!: gr0I)
    have "elem_prev (h t) \<in> set (M @ S)"
    proof (cases "butlast S" rule: rev_cases)
      case Nil
      with ne(2) have "S = [t]" using ends(4) by (metis append_butlast_last_id append_Nil)
      then show ?thesis using parts(8) ends by auto
    next
      case (snoc ys y)
      with ne(2) have "S = ys @ [y, t]" using ends(4) by (metis append_butlast_last_id append.assoc append_Cons append_Nil)
      then show ?thesis using parts(3) by auto
    qed
    then show "elem_prev (h t) \<noteq> NULL" using z by (auto intro!: gr0I)
  qed
  have ret: "list_splice h b f n = Some ?h"
    using parts nz neq nxt
    by (intro list_splice_eq) (auto simp: is_interior_def is_tail_def)
  have rd: "elem_next (?h x) = (if x = p then f else if x = t then b else if x = q then n else elem_next (h x))"
    "elem_prev (?h x) = (if x = b then t else if x = f then p else if x = n then q else elem_prev (h x))" for x
    by (auto simp: spliced_def)
  have l1: "linked ?h (as @ [p])"
    by (rule linked_ends [OF parts(1) dp(1)]) (use dp ends neq in \<open>auto simp: rd\<close>)
  have l2: "linked ?h M"
    by (rule linked_ends [OF parts(2) dp(2)]) (use dp ends neq in \<open>auto simp: rd\<close>)
  have l3: "linked ?h S"
    by (rule linked_ends [OF parts(3) dp(3)]) (use dp ends neq in \<open>auto simp: rd\<close>)
  have l4: "linked ?h (n # cs)"
    by (rule linked_ends [OF parts(4) dp(4)]) (use dp ends neq in \<open>auto simp: rd\<close>)
  from l1 l2 l3 l4 have "linked ?h (as @ p # S @ M @ n # cs)"
    using ne ends neq linked_append [of ?h "as @ [p]" "S @ M @ n # cs"]
      linked_append [of ?h S "M @ n # cs"] linked_append [of ?h M "n # cs"] by (auto simp: rd)
  moreover have "elem_prev (?h (hd (as @ p # S @ M @ n # cs))) = NULL"
    using hd0 dp ends neq by (cases as) (auto simp: rd)
  moreover have "elem_next (?h (last (as @ p # S @ M @ n # cs))) = NULL"
    using last0 dp ends neq by (cases cs rule: rev_cases) (auto simp: rd)
  moreover have "\<forall>y. y \<notin> set (as @ p # M @ S @ n # cs) \<longrightarrow> ?h y = h y"
    using ends(5-8) by (intro allI impI spliced_other) auto
  ultimately show ?thesis using ret d z ends by (auto simp: chain_def)
qed

section \<open>Operations on represented lists\<close>

lemma chain_list_next: "chain h (as @ x # y # bs) \<Longrightarrow> list_next h x = Some y"
  using chain_before(2) [of h as x y bs] chainD(6) [of h as x y bs] by (simp add: list_next_def)

lemma chain_list_prev: "chain h (as @ x # y # bs) \<Longrightarrow> list_prev h y = Some x"
  using chain_before(1) [of h as x y bs] chainD(7) [of h as x y bs] by (simp add: list_prev_def)

lemma list_repr_nonnull: "list_repr h l xs \<Longrightarrow> 0 < l"
  by (auto simp: list_repr_def chain_def list_nodes_def list_head_addr_def)

lemma list_repr_frame:
  "list_repr h l xs \<Longrightarrow> (\<And>y. y \<in> set (list_nodes l xs) \<Longrightarrow> h' y = h y) \<Longrightarrow> list_repr h' l xs"
  unfolding list_repr_def by (rule chain_frame)

lemma list_repr_distinct: "list_repr h l xs \<Longrightarrow> distinct (list_nodes l xs) \<and> NULL \<notin> set (list_nodes l xs)"
  by (simp add: list_repr_def chain_def)

lemma list_init_repr:
  assumes "l \<noteq> NULL"
  shows "\<exists>h'. list_init h l = Some h' \<and> list_repr h' l [] \<and> (\<forall>y. y \<notin> set (list_nodes l []) \<longrightarrow> h' y = h y)"
  using assms
  by (auto simp: list_init_def list_repr_def chain_def list_nodes_def list_head_addr_def
      list_tail_addr_def Let_def upd_defs)

lemma list_end_eq [simp]: "0 < l \<Longrightarrow> list_end l = Some (list_tail_addr l)"
  by (simp add: list_end_def)

lemma list_begin_repr: "list_repr h l xs \<Longrightarrow> list_begin h l = Some (hd (xs @ [list_tail_addr l]))"
  using list_repr_nonnull [of h l xs]
  by (cases xs) (simp_all add: list_begin_def list_repr_def list_nodes_def chain_def)

lemma list_rbegin_repr: "list_repr h l xs \<Longrightarrow> list_rbegin h l = Some (last (list_head_addr l # xs))"
  using list_repr_nonnull [of h l xs] chainD(7) [of h "[]" "list_head_addr l" "list_tail_addr l" "[]"]
    chainD(7) [of h "list_head_addr l # butlast xs" "last xs" "list_tail_addr l" "[]"]
  by (cases xs rule: rev_cases) (simp_all add: list_rbegin_def list_repr_def list_nodes_def)

lemma list_empty_repr:
  assumes "list_repr h l xs" shows "list_empty h l = Some (xs = [])"
proof -
  have "hd (xs @ [list_tail_addr l]) = list_tail_addr l \<longleftrightarrow> xs = []"
    using list_repr_distinct [OF assms] by (cases xs) (auto simp: list_nodes_def)
  then show ?thesis
    using list_begin_repr [OF assms] list_repr_nonnull [OF assms] by (simp add: list_empty_def)
qed

lemma list_nodes_split:
  obtains as p b bs where "ys @ [list_tail_addr l] = b # bs"
    "list_nodes l (xs @ ys) = as @ p # b # bs"
    "list_nodes l (xs @ e # ys) = as @ p # e # b # bs"
proof -
  let ?H = "list_head_addr l" and ?T = "list_tail_addr l"
  obtain as p where ap: "?H # xs = as @ [p]" by (metis rev_exhaust list.distinct(1))
  obtain b bs where bb: "ys @ [?T] = b # bs" by (metis Nil_is_append_conv neq_Nil_conv)
  have "list_nodes l (xs @ ys) = (?H # xs) @ (ys @ [?T])"
    "list_nodes l (xs @ e # ys) = (?H # xs) @ e # (ys @ [?T])"
    by (simp_all add: list_nodes_def)
  then show thesis using that [of b bs as p] bb unfolding ap bb by simp
qed

lemma list_insert_repr:
  assumes r: "list_repr h l (xs @ ys)" and e: "e \<noteq> NULL" "e \<notin> set (list_nodes l (xs @ ys))"
  shows "\<exists>h'. list_insert h (hd (ys @ [list_tail_addr l])) e = Some h' \<and> list_repr h' l (xs @ e # ys)
     \<and> (\<forall>y. y \<notin> set (list_nodes l (xs @ e # ys)) \<longrightarrow> h' y = h y)"
proof -
  obtain as p b bs where bb: "ys @ [list_tail_addr l] = b # bs"
    and n: "list_nodes l (xs @ ys) = as @ p # b # bs"
      "list_nodes l (xs @ e # ys) = as @ p # e # b # bs"
    by (rule list_nodes_split)
  from chain_list_insert [of h as p b bs e] r e
  obtain h' where "list_insert h b e = Some h'" "chain h' (as @ p # e # b # bs)"
    "\<forall>y. y \<notin> {p, e, b} \<longrightarrow> h' y = h y"
    unfolding list_repr_def n by blast
  then show ?thesis unfolding list_repr_def n bb by auto
qed

lemma list_push_front_repr:
  assumes "list_repr h l xs" "e \<noteq> NULL" "e \<notin> set (list_nodes l xs)"
  shows "\<exists>h'. list_push_front h l e = Some h' \<and> list_repr h' l (e # xs)
     \<and> (\<forall>y. y \<notin> set (list_nodes l (e # xs)) \<longrightarrow> h' y = h y)"
  using list_insert_repr [of h l "[]" xs e] assms
  by (simp add: list_push_front_def list_begin_repr)

lemma list_push_back_repr:
  assumes "list_repr h l xs" "e \<noteq> NULL" "e \<notin> set (list_nodes l xs)"
  shows "\<exists>h'. list_push_back h l e = Some h' \<and> list_repr h' l (xs @ [e])
     \<and> (\<forall>y. y \<notin> set (list_nodes l (xs @ [e])) \<longrightarrow> h' y = h y)"
  using list_insert_repr [of h l xs "[]" e] assms list_repr_nonnull [OF assms(1)]
  by (simp add: list_push_back_def)

lemma list_remove_repr:
  assumes r: "list_repr h l (xs @ e # ys)"
  shows "\<exists>h'. list_remove h e = Some (hd (ys @ [list_tail_addr l]), h') \<and> list_repr h' l (xs @ ys)
     \<and> (\<forall>y. y \<notin> set (list_nodes l (xs @ ys)) \<longrightarrow> h' y = h y)"
proof -
  obtain as p b bs where bb: "ys @ [list_tail_addr l] = b # bs"
    and n: "list_nodes l (xs @ ys) = as @ p # b # bs"
      "list_nodes l (xs @ e # ys) = as @ p # e # b # bs"
    by (rule list_nodes_split)
  from chain_list_remove [of h as p e b bs] r
  obtain h' where "list_remove h e = Some (b, h')" "chain h' (as @ p # b # bs)"
    "\<forall>y. y \<notin> {p, b} \<longrightarrow> h' y = h y"
    unfolding list_repr_def n by blast
  then show ?thesis unfolding list_repr_def n bb by auto
qed

lemma list_front_repr: "list_repr h l (x # xs) \<Longrightarrow> list_front h l = Some x"
  using list_begin_repr [of h l "x # xs"] list_repr_nonnull [of h l "x # xs"]
  by (simp add: list_front_def list_empty_repr list_begin_def)

lemma list_back_repr: "list_repr h l (xs @ [x]) \<Longrightarrow> list_back h l = Some x"
  using list_rbegin_repr [of h l "xs @ [x]"] list_repr_nonnull [of h l "xs @ [x]"]
  by (simp add: list_back_def list_empty_repr list_rbegin_def)

lemma list_pop_front_repr:
  assumes "list_repr h l (x # xs)"
  shows "\<exists>h'. list_pop_front h l = Some (x, h') \<and> list_repr h' l xs
     \<and> (\<forall>y. y \<notin> set (list_nodes l xs) \<longrightarrow> h' y = h y)"
  using list_remove_repr [of h l "[]" x xs] assms
  by (auto simp: list_pop_front_def list_front_repr)

lemma list_pop_back_repr:
  assumes "list_repr h l (xs @ [x])"
  shows "\<exists>h'. list_pop_back h l = Some (x, h') \<and> list_repr h' l xs
     \<and> (\<forall>y. y \<notin> set (list_nodes l xs) \<longrightarrow> h' y = h y)"
  using list_remove_repr [of h l xs x "[]"] assms
  by (auto simp: list_pop_back_def list_back_repr)

lemma list_front_empty: "list_repr h l [] \<Longrightarrow> list_front h l = None \<and> list_back h l = None"
  by (simp add: list_front_def list_back_def list_empty_repr)

subsection \<open>Size\<close>

lemma list_size_loop_chain:
  "chain h (as @ es @ [t]) \<Longrightarrow> as \<noteq> [] \<Longrightarrow>
     list_size_loop h (hd (es @ [t])) t cnt = Some (cnt + of_nat (length es))"
proof (induction es arbitrary: as cnt)
  case Nil
  then show ?case by (simp add: list_size_loop.simps)
next
  case (Cons e es)
  have ne: "e \<noteq> t" using Cons.prems(1) by (simp add: chain_def)
  obtain b bs where bb: "es @ [t] = b # bs" by (metis Nil_is_append_conv neq_Nil_conv)
  then have "list_next h e = Some b"
    using Cons.prems(1) chain_list_next [of h as e b bs] by simp
  moreover have "list_size_loop h b t (cnt + 1) = Some (cnt + 1 + of_nat (length es))"
    using Cons.IH [of "as @ [e]" "cnt + 1"] Cons.prems(1) bb by simp
  ultimately show ?case using ne
    by (subst list_size_loop.simps) (simp add: add.assoc)
qed

lemma list_size_repr:
  assumes "list_repr h l xs" shows "list_size h l = Some (of_nat (length xs))"
  using list_size_loop_chain [of h "[list_head_addr l]" xs "list_tail_addr l" 0]
    list_begin_repr [OF assms] list_repr_nonnull [OF assms] assms
  by (simp add: list_size_def list_repr_def list_nodes_def)

end
