(* ===== verification/Klist_Order.thy ===== *)
theory Klist_Order
  imports Klist_Repr
begin

text \<open>
  Correctness of the remaining operations of \<open>list.c\<close> apart from sorting: reversal, ordered
  insertion, removal of adjacent duplicates, maximum and minimum.
\<close>

section \<open>Reversal\<close>

definition flip_links :: "list_elem \<Rightarrow> list_elem" where
  "flip_links c = \<lparr>elem_prev = elem_next c, elem_next = elem_prev c\<rparr>"

lemma flip_links_sel [simp]:
  "elem_prev (flip_links c) = elem_next c" "elem_next (flip_links c) = elem_prev c"
  by (simp_all add: flip_links_def)

lemma swap_links_eq: "swap_links h e = h(e := flip_links (h e))"
  by (cases "h e") (simp add: swap_links_def upd_defs flip_links_def Let_def)

lemma linked_flip_rev: "linked (flip_links \<circ> h) (rev ns) = linked h ns"
  by (induction h ns rule: linked.induct) (auto simp: linked_append)

lemma list_reverse_loop_eq:
  "linked h (es @ [t]) \<Longrightarrow> distinct (es @ [t]) \<Longrightarrow>
     list_reverse_loop h (hd (es @ [t])) t = Some (\<lambda>x. if x \<in> set es then flip_links (h x) else h x)"
proof (induction es arbitrary: h)
  case Nil
  then show ?case by (simp add: list_reverse_loop.simps)
next
  case (Cons e es)
  have nx: "elem_next (h e) = hd (es @ [t])" and lk: "linked h (es @ [t])"
    using Cons.prems(1) linked_append [of h "[e]" "es @ [t]"] by auto
  let ?h = "swap_links h e"
  have "linked ?h (es @ [t])"
    using lk Cons.prems(2) by (subst linked_frame) (auto simp: swap_links_eq)
  then have "list_reverse_loop ?h (hd (es @ [t])) t
      = Some (\<lambda>x. if x \<in> set es then flip_links (?h x) else ?h x)"
    using Cons.IH Cons.prems(2) by simp
  moreover have "(\<lambda>x. if x \<in> set es then flip_links (?h x) else ?h x)
      = (\<lambda>x. if x \<in> set (e # es) then flip_links (h x) else h x)"
    using Cons.prems(2) by (auto simp: swap_links_eq fun_eq_iff)
  ultimately show ?case
    using Cons.prems(2) nx by (subst list_reverse_loop.simps) (simp add: Let_def swap_links_eq)
qed

lemma list_reverse_repr:
  assumes r: "list_repr h l xs"
  shows "\<exists>h'. list_reverse h l = Some h' \<and> list_repr h' l (rev xs)
     \<and> (\<forall>y. y \<notin> set (list_nodes l xs) \<longrightarrow> h' y = h y)"
proof (cases "xs = []")
  case True
  with r show ?thesis by (simp add: list_reverse_def list_empty_repr)
next
  case False
  let ?H = "list_head_addr l" and ?T = "list_tail_addr l"
  define a b where "a = hd xs" and "b = last xs"
  have ab: "a \<in> set xs" "b \<in> set xs" "hd xs = a" "last xs = b" using False by (auto simp: a_def b_def)
  have d: "distinct (?H # xs @ [?T])" "NULL \<notin> set (?H # xs @ [?T])" and lk: "linked h (?H # xs @ [?T])"
    and e0: "elem_prev (h ?H) = NULL" "elem_next (h ?T) = NULL"
    using r by (auto simp: list_repr_def chain_def list_nodes_def)
  have lx: "linked h (xs @ [?T])" "linked h xs"
    "elem_next (h ?H) = a" "elem_prev (h ?T) = b" "elem_prev (h a) = ?H" "elem_next (h b) = ?T"
    using lk False ab linked_append [of h "[?H]" "xs @ [?T]"] linked_append [of h xs "[?T]"] by auto
  let ?g = "\<lambda>x. if x \<in> set xs then flip_links (h x) else h x"
  let ?h = "set_next (set_prev (set_prev (set_next ?g ?H b) ?T a) b ?H) a ?T"
  have neq: "?H \<noteq> ?T" "a \<noteq> ?H" "a \<noteq> ?T" "b \<noteq> ?H" "b \<noteq> ?T" "?H \<notin> set xs" "?T \<notin> set xs"
    using d(1) ab by auto
  have "list_reverse_loop h a ?T = Some ?g"
    using list_reverse_loop_eq [OF lx(1)] d(1) False ab(3) by simp
  then have ret: "list_reverse h l = Some ?h"
    using list_empty_repr [OF r] list_begin_repr [OF r] list_repr_nonnull [OF r] False ab neq lx
    by (simp add: list_reverse_def Let_def)
  have "linked (flip_links \<circ> h) (rev xs)" using lx(2) by (simp add: linked_flip_rev)
  then have lr: "linked ?h (rev xs)"
    by (rule linked_ends) (use d(1) ab False neq in \<open>auto simp: last_rev hd_rev\<close>)
  have "linked ?h ([?H] @ rev xs @ [?T])"
    using lr False ab neq linked_append [of ?h "[?H]" "rev xs @ [?T]"] linked_append [of ?h "rev xs" "[?T]"]
    by (simp add: last_rev hd_rev)
  then have "list_repr ?h l (rev xs)"
    using d e0 neq by (simp add: list_repr_def chain_def list_nodes_def)
  moreover have "?h y = h y" if "y \<notin> set (list_nodes l xs)" for y
  proof -
    from that ab(1,2) have "y \<noteq> ?H" "y \<noteq> ?T" "y \<notin> set xs" "y \<noteq> a" "y \<noteq> b"
      by (auto simp: list_nodes_def)
    then show ?thesis by simp
  qed
  ultimately show ?thesis using ret by blast
qed

section \<open>Traversals\<close>

lemma chain_next_hd: "chain h (as @ e # es @ [t]) \<Longrightarrow> list_next h e = Some (hd (es @ [t]))"
  using chain_list_next [of h as e "hd (es @ [t])" "tl (es @ [t])"] by (cases es) auto

lemma chain_end_fresh: "chain h (as @ e # es @ [t]) \<Longrightarrow> e \<noteq> t"
  by (auto simp: chain_def)

lemma list_repr_chain:
  "list_repr h l xs \<Longrightarrow> chain h ([list_head_addr l] @ xs @ [list_tail_addr l])"
  by (simp add: list_repr_def list_nodes_def)

lemma list_insert_ordered_loop_chain:
  "chain h (as @ es @ [t]) \<Longrightarrow> list_insert_ordered_loop lt h e (hd (es @ [t])) t
     = Some (hd (dropWhile (\<lambda>x. \<not> lt e x) es @ [t]))"
proof (induction es arbitrary: as)
  case Nil
  then show ?case by (simp add: list_insert_ordered_loop.simps)
next
  case (Cons x es)
  then show ?case
    using chain_next_hd [of h as x es t] chain_end_fresh [of h as x es t] Cons.IH [of "as @ [x]"]
    by (subst list_insert_ordered_loop.simps) simp
qed

definition insert_by :: "('a \<Rightarrow> 'a \<Rightarrow> bool) \<Rightarrow> 'a \<Rightarrow> 'a list \<Rightarrow> 'a list" where
  "insert_by lt e xs = takeWhile (\<lambda>x. \<not> lt e x) xs @ e # dropWhile (\<lambda>x. \<not> lt e x) xs"

lemma list_insert_ordered_repr:
  assumes r: "list_repr h l xs" and e: "e \<noteq> NULL" "e \<notin> set (list_nodes l xs)"
  shows "\<exists>h'. list_insert_ordered lt h l e = Some h' \<and> list_repr h' l (insert_by lt e xs)
     \<and> (\<forall>y. y \<notin> set (list_nodes l (e # xs)) \<longrightarrow> h' y = h y)"
proof -
  let ?P = "\<lambda>x. \<not> lt e x"
  have "list_insert_ordered_loop lt h e (hd (xs @ [list_tail_addr l])) (list_tail_addr l)
      = Some (hd (dropWhile ?P xs @ [list_tail_addr l]))"
    by (rule list_insert_ordered_loop_chain [OF list_repr_chain [OF r]])
  then have "list_insert_ordered lt h l e = list_insert h (hd (dropWhile ?P xs @ [list_tail_addr l])) e"
    using list_repr_nonnull [OF r] e(1) by (simp add: list_insert_ordered_def list_begin_repr [OF r])
  moreover have "set (list_nodes l (takeWhile ?P xs @ e # dropWhile ?P xs)) = set (list_nodes l (e # xs))"
    using arg_cong [OF takeWhile_dropWhile_id [of ?P xs], of set]
    by (auto simp: list_nodes_def simp del: takeWhile_dropWhile_id)
  ultimately show ?thesis
    using list_insert_repr [of h l "takeWhile ?P xs" "dropWhile ?P xs" e] r e by (simp add: insert_by_def)
qed

lemma sorted_insert_by:
  assumes "strict_weak lt (insert e (set xs))" "sorted_by lt xs"
  shows "sorted_by lt (insert_by lt e xs)"
proof -
  let ?P = "\<lambda>x. \<not> lt e x"
  have "sorted_by lt (takeWhile ?P xs @ dropWhile ?P xs)" using assms(2) by simp
  then have s: "sorted_by lt (takeWhile ?P xs)" "sorted_by lt (dropWhile ?P xs)"
    "\<forall>x\<in>set (takeWhile ?P xs). \<forall>y\<in>set (dropWhile ?P xs). \<not> lt y x"
    by (simp_all del: takeWhile_dropWhile_id)
  have "\<not> lt y e" if "y \<in> set (dropWhile ?P xs)" for y
  proof (cases "dropWhile ?P xs")
    case Nil
    with that show ?thesis by (metis empty_iff list.set(1))
  next
    case (Cons b bs)
    then have b: "lt e b" "b \<in> set xs"
      using set_dropWhileD [of b ?P xs] by (auto dest: dropWhile_eq_Cons_conv [THEN iffD1])
    have "\<not> lt y b" using that s(2) Cons assms(1) strict_weak_irrefl [OF assms(1), of b] b by auto
    with b that assms(1) show ?thesis
      using strict_weak_trans [OF assms(1), of y e b] set_dropWhileD [of y ?P xs] by auto
  qed
  with s show ?thesis by (auto simp: insert_by_def dest: set_takeWhileD)
qed

lemma mset_insert_by: "mset (insert_by lt e xs) = add_mset e (mset xs)"
  using arg_cong [OF takeWhile_dropWhile_id [of "\<lambda>x. \<not> lt e x" xs], of mset]
  by (simp add: insert_by_def del: takeWhile_dropWhile_id)

section \<open>Maximum and minimum\<close>

text \<open>\<open>best_by gt\<close> keeps the first of the elements no later one beats.\<close>

definition best_by :: "('a \<Rightarrow> 'a \<Rightarrow> bool) \<Rightarrow> 'a \<Rightarrow> 'a list \<Rightarrow> 'a" where
  "best_by beats x xs = fold (\<lambda>e m. if beats e m then e else m) xs x"

lemma best_by_first:
  assumes "strict_weak lt (insert x (set xs))"
  shows "\<exists>as bs. x # xs = as @ best_by lt x xs # bs \<and> (\<forall>a\<in>set as. lt (best_by lt x xs) a)
     \<and> (\<forall>b\<in>set bs. \<not> lt b (best_by lt x xs))"
  using assms
proof (induction xs rule: rev_induct)
  case Nil
  then show ?case by (intro exI [of _ "[]"]) (simp add: best_by_def)
next
  case (snoc y ys)
  let ?m = "best_by lt x ys"
  obtain as bs where IH: "x # ys = as @ ?m # bs" "\<forall>a\<in>set as. lt ?m a" "\<forall>b\<in>set bs. \<not> lt b ?m"
    using snoc.IH strict_weak_subset [OF snoc.prems, of "insert x (set ys)"] by auto
  have m: "?m \<in> insert x (set (ys @ [y]))" and bs: "set bs \<subseteq> insert x (set (ys @ [y]))"
    and as: "set as \<subseteq> insert x (set (ys @ [y]))" and y: "y \<in> insert x (set (ys @ [y]))"
    using arg_cong [OF IH(1), of set] by auto
  show ?case
  proof (cases "lt y ?m")
    case True
    have "lt y a" if "a \<in> set as" for a
      using strict_weak_trans [OF snoc.prems, of y ?m a] IH(2) that m y as True by blast
    moreover have "lt y b" if "b \<in> set bs" for b
      using strict_weak_negtrans [OF snoc.prems, of y b ?m] that bs m y IH(3) True by blast
    ultimately show ?thesis
      using IH(1) True by (intro exI [of _ "x # ys"] exI [of _ "[]"]) (auto simp: best_by_def)
  next
    case False
    then show ?thesis
      using IH by (intro exI [of _ as] exI [of _ "bs @ [y]"]) (auto simp: best_by_def)
  qed
qed

lemma list_max_loop_chain:
  "chain h (as @ es @ [t]) \<Longrightarrow>
     list_max_loop lt h mx (hd (es @ [t])) t = Some (best_by (\<lambda>a b. lt b a) mx es)"
proof (induction es arbitrary: as mx)
  case Nil
  then show ?case by (simp add: list_max_loop.simps best_by_def)
next
  case (Cons x es)
  then show ?case
    using chain_next_hd [of h as x es t] chain_end_fresh [of h as x es t] Cons.IH [of "as @ [x]"]
    by (subst list_max_loop.simps) (simp add: best_by_def)
qed

lemma list_min_loop_chain:
  "chain h (as @ es @ [t]) \<Longrightarrow>
     list_min_loop lt h mn (hd (es @ [t])) t = Some (best_by lt mn es)"
proof (induction es arbitrary: as mn)
  case Nil
  then show ?case by (simp add: list_min_loop.simps best_by_def)
next
  case (Cons x es)
  then show ?case
    using chain_next_hd [of h as x es t] chain_end_fresh [of h as x es t] Cons.IH [of "as @ [x]"]
    by (subst list_min_loop.simps) (simp add: best_by_def)
qed

lemma list_max_min_empty:
  assumes "list_repr h l []"
  shows "list_max lt h l = Some (list_tail_addr l)" "list_min lt h l = Some (list_tail_addr l)"
  using list_repr_nonnull [OF assms] by (simp_all add: list_max_def list_min_def list_begin_repr [OF assms])

lemma list_max_min_repr:
  assumes r: "list_repr h l (x # xs)"
  shows "list_max lt h l = Some (best_by (\<lambda>a b. lt b a) x xs)" "list_min lt h l = Some (best_by lt x xs)"
proof -
  let ?H = "list_head_addr l" and ?T = "list_tail_addr l"
  have ch: "chain h (([?H, x]) @ xs @ [?T])" "chain h ([?H] @ x # xs @ [?T])"
    using list_repr_chain [OF r] by simp_all
  show "list_max lt h l = Some (best_by (\<lambda>a b. lt b a) x xs)" "list_min lt h l = Some (best_by lt x xs)"
    using list_repr_nonnull [OF r] list_begin_repr [OF r] list_max_loop_chain [OF ch(1)]
      list_min_loop_chain [OF ch(1)] chain_next_hd [OF ch(2)] chain_end_fresh [OF ch(2)]
    by (simp_all add: list_max_def list_min_def)
qed

section \<open>Removal of adjacent duplicates\<close>

fun unique_by :: "('a \<Rightarrow> 'a \<Rightarrow> bool) \<Rightarrow> 'a list \<Rightarrow> 'a list \<times> 'a list" where
  "unique_by lt (x # y # ys) =
     (if equiv_by lt x y then (let (us, ds) = unique_by lt (x # ys) in (us, y # ds))
      else (let (us, ds) = unique_by lt (y # ys) in (x # us, ds)))"
| "unique_by lt xs = (xs, [])"

text \<open>The duplicates list, when one is given, is another list of the same heap.\<close>

definition dup_repr :: "lheap \<Rightarrow> ptr \<Rightarrow> ptr list \<Rightarrow> ptr \<Rightarrow> ptr list \<Rightarrow> bool" where
  "dup_repr h l xs d ds \<longleftrightarrow> (if d = NULL then ds = []
     else list_repr h d ds \<and> set (list_nodes l xs) \<inter> set (list_nodes d ds) = {})"

lemma unique_step:
  assumes r: "list_repr h l (ps @ x # y # ys)" and dr: "dup_repr h l (ps @ x # y # ys) d ds"
  obtains h1 h2 where "list_remove h y = Some (hd (ys @ [list_tail_addr l]), h1)"
    "(if d \<noteq> NULL then list_push_back h1 d y else Some h1) = Some h2"
    "list_repr h2 l (ps @ x # ys)"
    "dup_repr h2 l (ps @ x # ys) d (if d = NULL then [] else ds @ [y])"
proof -
  from list_remove_repr [of h l "ps @ [x]" y ys] r
  obtain h1 where h1: "list_remove h y = Some (hd (ys @ [list_tail_addr l]), h1)"
    "list_repr h1 l (ps @ x # ys)" "\<forall>z. z \<notin> set (list_nodes l (ps @ x # ys)) \<longrightarrow> h1 z = h z"
    by auto
  show thesis
  proof (cases "d = NULL")
    case True
    with h1 dr show thesis using that [of h1 h1] by (simp add: dup_repr_def)
  next
    case False
    with dr have d: "list_repr h d ds" "set (list_nodes l (ps @ x # y # ys)) \<inter> set (list_nodes d ds) = {}"
      by (auto simp: dup_repr_def)
    have y: "y \<noteq> NULL" "y \<notin> set (list_nodes d ds)" "y \<notin> set (list_nodes l (ps @ x # ys))"
      using d(2) list_repr_distinct [OF r] by (auto simp: list_nodes_def)
    have "set (list_nodes l (ps @ x # ys)) \<subseteq> set (list_nodes l (ps @ x # y # ys))"
      by (auto simp: list_nodes_def)
    with d(2) h1(3) have "list_repr h1 d ds"
      by (intro list_repr_frame [OF d(1)]) blast
    from list_push_back_repr [OF this y(1,2)] obtain h2 where h2: "list_push_back h1 d y = Some h2"
      "list_repr h2 d (ds @ [y])" "\<forall>z. z \<notin> set (list_nodes d (ds @ [y])) \<longrightarrow> h2 z = h1 z" by auto
    have dis: "set (list_nodes l (ps @ x # ys)) \<inter> set (list_nodes d (ds @ [y])) = {}"
      using d(2) y(3) by (auto simp: list_nodes_def)
    then have "list_repr h2 l (ps @ x # ys)"
      using h2(3) by (intro list_repr_frame [OF h1(2)]) blast
    with h1(1) h2 dis False show thesis using that [of h1 h2] by (simp add: dup_repr_def)
  qed
qed

lemma list_unique_loop_repr:
  assumes "list_repr h l (ps @ x # xs)" "dup_repr h l (ps @ x # xs) d ds"
  shows "\<exists>h'. list_unique_loop lt h l d x = Some h' \<and> list_repr h' l (ps @ fst (unique_by lt (x # xs)))
     \<and> (d \<noteq> NULL \<longrightarrow> list_repr h' d (ds @ snd (unique_by lt (x # xs))))"
  using assms
proof (induction xs arbitrary: x ps h ds)
  case Nil
  then have "list_next h x = Some (list_tail_addr l)" "list_end l = Some (list_tail_addr l)"
    using chain_next_hd [of h "list_head_addr l # ps" x "[]" "list_tail_addr l"] list_repr_nonnull [of h l "ps @ [x]"]
    by (auto simp: list_repr_def list_nodes_def)
  with Nil show ?case by (subst list_unique_loop.simps) (auto simp: dup_repr_def)
next
  case (Cons y ys)
  have e: "list_next h x = Some y" "list_end l = Some (list_tail_addr l)" "y \<noteq> list_tail_addr l"
    using chain_next_hd [of h "list_head_addr l # ps" x "y # ys" "list_tail_addr l"]
      list_repr_nonnull [OF Cons.prems(1)] list_repr_distinct [OF Cons.prems(1)] Cons.prems(1)
    by (auto simp: list_repr_def list_nodes_def)
  show ?case
  proof (cases "equiv_by lt x y")
    case True
    obtain h1 h2 where st: "list_remove h y = Some (hd (ys @ [list_tail_addr l]), h1)"
      "(if d \<noteq> NULL then list_push_back h1 d y else Some h1) = Some h2"
      "list_repr h2 l (ps @ x # ys)" "dup_repr h2 l (ps @ x # ys) d (if d = NULL then [] else ds @ [y])"
      using unique_step [OF Cons.prems] by blast
    show ?thesis
      using Cons.IH [OF st(3,4)] e st(1,2) True
      by (subst list_unique_loop.simps) (auto simp: equiv_by_def split: prod.splits)
  next
    case False
    have "list_repr h l ((ps @ [x]) @ y # ys)" "dup_repr h l ((ps @ [x]) @ y # ys) d ds"
      using Cons.prems by simp_all
    from Cons.IH [OF this] e False show ?thesis
      by (subst list_unique_loop.simps) (auto simp: equiv_by_def split: prod.splits)
  qed
qed

lemma list_unique_repr:
  assumes r: "list_repr h l xs" and d: "dup_repr h l xs d ds"
  shows "\<exists>h'. list_unique lt h l d = Some h' \<and> list_repr h' l (fst (unique_by lt xs))
     \<and> (d \<noteq> NULL \<longrightarrow> list_repr h' d (ds @ snd (unique_by lt xs)))"
proof (cases xs)
  case Nil
  with r d list_repr_nonnull [OF r] show ?thesis
    by (auto simp: list_unique_def list_empty_repr [OF r] dup_repr_def)
next
  case (Cons y ys)
  with r d list_repr_nonnull [OF r] list_unique_loop_repr [of h l "[]" y ys d ds lt] show ?thesis
    by (simp add: list_unique_def list_empty_repr [OF r] list_begin_repr [OF r])
qed

text \<open>No two neighbours of the result are equivalent, and nothing is lost.\<close>

lemma unique_by_hd: "fst (unique_by lt (x # xs)) = x # tl (fst (unique_by lt (x # xs)))"
  by (induction xs arbitrary: x) (auto split: prod.splits, metis fst_conv)

lemma unique_by_adjacent:
  "Suc i < length (fst (unique_by lt xs)) \<Longrightarrow>
     \<not> equiv_by lt (fst (unique_by lt xs) ! i) (fst (unique_by lt xs) ! Suc i)"
proof (induction lt xs arbitrary: i rule: unique_by.induct)
  case (1 lt x y ys)
  show ?case
  proof (cases "equiv_by lt x y")
    case True
    with 1 show ?thesis by (auto split: prod.splits)
  next
    case False
    with "1.IH"(2) [of "i - 1"] "1.prems" unique_by_hd [of lt y ys] show ?thesis
      by (cases i) (auto split: prod.splits dest: arg_cong [of _ _ "\<lambda>zs. zs ! 0"])
  qed
qed auto

lemma mset_unique_by: "mset (fst (unique_by lt xs)) + mset (snd (unique_by lt xs)) = mset xs"
  by (induction lt xs rule: unique_by.induct) (auto split: prod.splits)

end
