(* ===== verification/Klist_Sort.thy ===== *)
theory Klist_Sort
  imports Klist_Order
begin

text \<open>
  Correctness of \<open>list_sort\<close>, the natural merge sort of \<open>list.c\<close> that works in place
  on the links.  The functions on HOL lists below describe what each helper does to the
  sequence of elements; the pointer-level loops are shown to follow them, none of the
  assertions on the way fails, and the loop over passes ends because the number of ascending
  runs at least halves.
\<close>

section \<open>Runs, merges and passes on sequences\<close>

abbreviation ascending :: "('a \<Rightarrow> 'a \<Rightarrow> bool) \<Rightarrow> 'a list \<Rightarrow> bool" where
  "ascending lt \<equiv> successively (\<lambda>x y. \<not> lt y x)"

fun first_run :: "('a \<Rightarrow> 'a \<Rightarrow> bool) \<Rightarrow> 'a list \<Rightarrow> 'a list \<times> 'a list" where
  "first_run lt (x # y # ys) =
     (if \<not> lt y x then (let (r, s) = first_run lt (y # ys) in (x # r, s)) else ([x], y # ys))"
| "first_run lt xs = (xs, [])"

fun merge_by :: "('a \<Rightarrow> 'a \<Rightarrow> bool) \<Rightarrow> 'a list \<Rightarrow> 'a list \<Rightarrow> 'a list" where
  "merge_by lt (a # as) (b # bs) =
     (if \<not> lt b a then a # merge_by lt as (b # bs) else b # merge_by lt (a # as) bs)"
| "merge_by lt [] bs = bs"
| "merge_by lt as [] = as"

fun descents :: "('a \<Rightarrow> 'a \<Rightarrow> bool) \<Rightarrow> 'a list \<Rightarrow> nat" where
  "descents lt (x # y # ys) = (if lt y x then 1 else 0) + descents lt (y # ys)"
| "descents lt xs = 0"

definition num_runs :: "('a \<Rightarrow> 'a \<Rightarrow> bool) \<Rightarrow> 'a list \<Rightarrow> nat" where
  "num_runs lt xs = (if xs = [] then 0 else Suc (descents lt xs))"

lemma first_run_append: "fst (first_run lt xs) @ snd (first_run lt xs) = xs"
  by (induction lt xs rule: first_run.induct) (auto split: prod.splits)

lemma first_run_nonempty: "xs \<noteq> [] \<Longrightarrow> fst (first_run lt xs) \<noteq> []"
  by (induction lt xs rule: first_run.induct) (auto split: prod.splits)

lemma length_first_run: "xs \<noteq> [] \<Longrightarrow> length (snd (first_run lt xs)) < length xs"
  using first_run_nonempty [of xs lt] arg_cong [OF first_run_append [of lt xs], of length]
  by (cases "fst (first_run lt xs)") auto

lemma hd_first_run: "hd (fst (first_run lt (x # xs))) = x"
  by (cases xs) (auto split: prod.splits)

lemma first_run_ascending: "ascending lt (fst (first_run lt xs))"
proof (induction lt xs rule: first_run.induct)
  case (1 lt x y ys)
  then show ?case
    using hd_first_run [of lt y ys] first_run_nonempty [of "y # ys" lt]
    by (cases "fst (first_run lt (y # ys))") (auto split: prod.splits)
qed auto

lemma num_runs_first_run: "xs \<noteq> [] \<Longrightarrow> num_runs lt xs = Suc (num_runs lt (snd (first_run lt xs)))"
  by (induction lt xs rule: first_run.induct) (auto simp: num_runs_def split: prod.splits)

lemma descents_ascending: "descents lt xs = 0 \<longleftrightarrow> ascending lt xs"
  by (induction lt xs rule: descents.induct) auto

lemma descents_append: "descents lt (xs @ ys) \<le> descents lt xs + Suc (descents lt ys)"
  by (induction lt xs rule: descents.induct) (cases ys; auto)+

lemma num_runs_append_ascending: "ascending lt xs \<Longrightarrow> num_runs lt (xs @ ys) \<le> Suc (num_runs lt ys)"
  using descents_append [of lt xs ys] descents_ascending [of lt xs] by (auto simp: num_runs_def)

lemma sorted_by_ascending: "sorted_by lt xs \<Longrightarrow> ascending lt xs"
  by (induction xs rule: induct_list012) auto

lemma ascending_sorted_by:
  "strict_weak lt (set xs) \<Longrightarrow> ascending lt xs \<Longrightarrow> sorted_by lt xs"
  by (rule sorted_by_adjacent) (simp_all add: successively_conv_nth)

lemma set_merge_by: "set (merge_by lt as bs) = set as \<union> set bs"
  by (induction lt as bs rule: merge_by.induct) auto

lemma mset_merge_by: "mset (merge_by lt as bs) = mset as + mset bs"
  by (induction lt as bs rule: merge_by.induct) auto

lemma sorted_merge_by:
  "strict_weak lt (set as \<union> set bs) \<Longrightarrow> sorted_by lt as \<Longrightarrow> sorted_by lt bs \<Longrightarrow> sorted_by lt (merge_by lt as bs)"
proof (induction lt as bs rule: merge_by.induct)
  case (1 lt a as b bs)
  have sw: "strict_weak lt (set as \<union> set (b # bs))" "strict_weak lt (set (a # as) \<union> set bs)"
    by (rule strict_weak_subset [OF "1.prems"(1)]; force)+
  have ab: "a \<in> set (a # as) \<union> set (b # bs)" "b \<in> set (a # as) \<union> set (b # bs)" by auto
  have gt: "\<not> lt y a" if "\<not> lt b a" "y \<in> set bs" for y
    using that "1.prems"(3) strict_weak_negtrans [OF "1.prems"(1), of y b a] ab by auto
  have gt': "\<not> lt y b" if "lt b a" "y \<in> insert a (set as)" for y
  proof -
    have "\<not> lt a b" using strict_weak_asym [OF "1.prems"(1)] ab that(1) by blast
    moreover have "\<not> lt y a" using that(2) "1.prems"(2) strict_weak_irrefl [OF "1.prems"(1), of a] ab by auto
    ultimately show ?thesis using strict_weak_negtrans [OF "1.prems"(1), of y a b] ab that(2) by auto
  qed
  show ?case
    using "1.IH" sw "1.prems"(2,3) gt gt' by (auto simp: set_merge_by)
qed auto

lemma filter_merge_by:
  "strict_weak lt (insert z (set as \<union> set bs)) \<Longrightarrow> sorted_by lt as \<Longrightarrow>
     filter (equiv_by lt z) (merge_by lt as bs) = filter (equiv_by lt z) as @ filter (equiv_by lt z) bs"
proof (induction lt as bs rule: merge_by.induct)
  case (1 lt a as b bs)
  let ?S = "insert z (set (a # as) \<union> set (b # bs))"
  have sw: "strict_weak lt (insert z (set as \<union> set (b # bs)))" "strict_weak lt (insert z (set (a # as) \<union> set bs))"
    by (rule strict_weak_subset [OF "1.prems"(1)]; force)+
  have none: "filter (equiv_by lt z) (a # as) = []" if "lt b a" "equiv_by lt z b"
  proof -
    have "\<not> equiv_by lt z y" if y: "y \<in> set (a # as)" for y
    proof
      assume "equiv_by lt z y"
      then have "\<not> lt b y"
        using \<open>equiv_by lt z b\<close> strict_weak_negtrans [OF "1.prems"(1), of b z y] y by (auto simp: equiv_by_def)
      moreover have "\<not> lt y a" using y "1.prems"(2) strict_weak_irrefl [OF "1.prems"(1), of a] by auto
      ultimately have "\<not> lt b a" using strict_weak_negtrans [OF "1.prems"(1), of b y a] y by auto
      with \<open>lt b a\<close> show False by simp
    qed
    then show ?thesis by (meson filter_False)
  qed
  show ?case
    using "1.IH" sw "1.prems"(2) none by (auto split: if_splits)
qed auto

function pass_by :: "('a \<Rightarrow> 'a \<Rightarrow> bool) \<Rightarrow> 'a list \<Rightarrow> 'a list \<times> nat" where
  "pass_by lt xs =
     (if xs = [] then ([], 0)
      else let (A, r) = first_run lt xs in
        if r = [] then (A, 1)
        else let (B, r') = first_run lt r; (ys, n) = pass_by lt r'
             in (merge_by lt A B @ ys, Suc n))"
  by pat_completeness auto
termination
proof (relation "measure (length \<circ> snd)")
  fix lt :: "'a \<Rightarrow> 'a \<Rightarrow> bool" and xs A r B r' and p q :: "'a list \<times> 'a list"
  assume "xs \<noteq> []" "p = first_run lt xs" "(A, r) = p" "r \<noteq> []" "q = first_run lt r" "(B, r') = q"
  then show "((lt, r'), lt, xs) \<in> measure (length \<circ> snd)"
    using length_first_run [of xs lt] length_first_run [of r lt] by (metis (no_types, lifting)
        comp_apply in_measure order.strict_trans snd_conv)
qed simp

declare pass_by.simps [simp del]

lemma pass_by_Nil [simp]: "pass_by lt [] = ([], 0)"
  by (simp add: pass_by.simps)

text \<open>The two shapes of a pass: a last run alone, or two runs merged and the rest.\<close>

lemma pass_by_cases:
  assumes "xs \<noteq> []"
  obtains (one) "first_run lt xs = (xs, [])" "pass_by lt xs = (xs, 1)"
  | (two) A B r ys n where "A \<noteq> []" "B \<noteq> []" "xs = A @ B @ r"
      "first_run lt xs = (A, B @ r)" "first_run lt (B @ r) = (B, r)"
      "pass_by lt r = (ys, n)" "pass_by lt xs = (merge_by lt A B @ ys, Suc n)"
proof (cases "snd (first_run lt xs) = []")
  case True
  then have "first_run lt xs = (xs, [])" using first_run_append [of lt xs] by (cases "first_run lt xs") simp
  then show thesis using assms one by (simp add: pass_by.simps [of lt xs])
next
  case False
  obtain A R B r ys n where e: "first_run lt xs = (A, R)" "first_run lt R = (B, r)" "pass_by lt r = (ys, n)"
    by (metis surj_pair)
  with False have "R \<noteq> []" by simp
  moreover have "R = B @ r" "xs = A @ R" "A \<noteq> []" "B \<noteq> []"
    using e first_run_append [of lt R] first_run_append [of lt xs] first_run_nonempty [of xs lt]
      first_run_nonempty [of R lt] assms \<open>R \<noteq> []\<close> by auto
  ultimately show thesis using two [of A B r ys n] e assms by (simp add: pass_by.simps [of lt "A @ B @ r"])
qed

lemma pass_by_facts:
  assumes "strict_weak lt (set xs)"
  shows "mset (fst (pass_by lt xs)) = mset xs"
    and "num_runs lt (fst (pass_by lt xs)) \<le> snd (pass_by lt xs)"
    and "snd (pass_by lt xs) = Suc (num_runs lt xs) div 2"
    and "\<And>z. z \<in> S \<Longrightarrow> strict_weak lt S \<Longrightarrow> set xs \<subseteq> S \<Longrightarrow>
      filter (equiv_by lt z) (fst (pass_by lt xs)) = filter (equiv_by lt z) xs"
proof -
  have "mset (fst (pass_by lt xs)) = mset xs \<and> num_runs lt (fst (pass_by lt xs)) \<le> snd (pass_by lt xs)
     \<and> snd (pass_by lt xs) = Suc (num_runs lt xs) div 2
     \<and> (\<forall>z\<in>S. strict_weak lt S \<longrightarrow> set xs \<subseteq> S \<longrightarrow>
        filter (equiv_by lt z) (fst (pass_by lt xs)) = filter (equiv_by lt z) xs)"
    using assms
  proof (induction xs rule: length_induct)
    case (1 xs)
    show ?case
    proof (cases "xs = []")
      case True
      then show ?thesis by (simp add: num_runs_def)
    next
      case False
      then show ?thesis
      proof (cases rule: pass_by_cases [of xs lt])
        case one
        then have "num_runs lt xs = 1"
          using num_runs_first_run [OF False, of lt] by (simp add: num_runs_def)
        with one show ?thesis by simp
      next
        case (two A B r ys n)
        have "strict_weak lt (set r)" "length r < length xs"
          using two strict_weak_subset [OF "1.prems", of "set r"] by auto
        with "1.IH" two(6) have IH: "mset ys = mset r" "num_runs lt ys \<le> n" "n = Suc (num_runs lt r) div 2"
          "\<forall>z\<in>S. strict_weak lt S \<longrightarrow> set r \<subseteq> S \<longrightarrow> filter (equiv_by lt z) ys = filter (equiv_by lt z) r"
          by fastforce+
        have sw: "strict_weak lt (set A \<union> set B)" "strict_weak lt (set A)" "strict_weak lt (set B)"
          using two(3) by (auto intro: strict_weak_subset [OF "1.prems"])
        have srt: "sorted_by lt A" "sorted_by lt B"
          using first_run_ascending [of lt xs] first_run_ascending [of lt "B @ r"] two(4,5) sw
          by (auto intro: ascending_sorted_by)
        have "num_runs lt (merge_by lt A B @ ys) \<le> Suc n"
          using num_runs_append_ascending [OF sorted_by_ascending [OF sorted_merge_by [OF sw(1) srt]], of ys] IH(2)
          by simp
        moreover have "num_runs lt xs = Suc (Suc (num_runs lt r))"
          using num_runs_first_run [OF False, of lt] num_runs_first_run [of "B @ r" lt] two by simp
        moreover have "\<forall>z\<in>S. strict_weak lt S \<longrightarrow> set xs \<subseteq> S \<longrightarrow>
            filter (equiv_by lt z) (merge_by lt A B @ ys) = filter (equiv_by lt z) xs"
          using two(3) IH(4) srt(1) by (auto simp: filter_merge_by strict_weak_subset)
        ultimately show ?thesis using two(3,7) IH(1,3) by (simp add: mset_merge_by)
      qed
    qed
  qed
  then show "mset (fst (pass_by lt xs)) = mset xs" "num_runs lt (fst (pass_by lt xs)) \<le> snd (pass_by lt xs)"
    "snd (pass_by lt xs) = Suc (num_runs lt xs) div 2"
    "\<And>z. z \<in> S \<Longrightarrow> strict_weak lt S \<Longrightarrow> set xs \<subseteq> S \<Longrightarrow>
      filter (equiv_by lt z) (fst (pass_by lt xs)) = filter (equiv_by lt z) xs"
    by auto
qed

section \<open>The pointer-level loops\<close>

lemma chain_seg_next: "chain h (as @ e # es @ t # bs) \<Longrightarrow> list_next h e = Some (hd (es @ [t]))"
  using chain_list_next [of h as e "hd (es @ [t])" "tl (es @ [t]) @ bs"] by (cases es) auto

lemma chain_seg_fresh: "chain h (as @ e # es @ t # bs) \<Longrightarrow> e \<noteq> t"
  by (auto simp: chain_def)

lemma is_sorted_loop_chain:
  "chain h (as @ e # es @ t # bs) \<Longrightarrow> is_sorted_loop lt h e t = Some (ascending lt (e # es))"
proof (induction es arbitrary: as e)
  case Nil
  then show ?case
    using chain_seg_next [of h as e "[]" t bs] by (subst is_sorted_loop.simps) simp
next
  case (Cons x es)
  have "list_next h e = Some x" "x \<noteq> t" "list_prev h x = Some e"
    using Cons.prems chain_seg_next [of h as e "x # es" t bs] chain_seg_fresh [of h "as @ [e]" x es t bs]
      chain_list_prev [of h as e x "es @ t # bs"] by simp_all
  then show ?case
    using Cons.IH [of "as @ [e]" x] Cons.prems by (subst is_sorted_loop.simps) simp
qed

lemma is_sorted_chain:
  "chain h (as @ es @ t # bs) \<Longrightarrow> is_sorted lt h (hd (es @ [t])) t = Some (ascending lt es)"
  using is_sorted_loop_chain [of h as "hd es" "tl es" t bs lt] chain_seg_fresh [of h as "hd es" "tl es" t bs]
  by (cases es) (simp_all add: is_sorted_def)

lemma find_end_of_run_loop_chain:
  "chain h (as @ e # es @ t # bs) \<Longrightarrow>
     find_end_of_run_loop lt h e t = Some (hd (snd (first_run lt (e # es)) @ [t]))"
proof (induction es arbitrary: as e)
  case Nil
  then show ?case
    using chain_seg_next [of h as e "[]" t bs] by (subst find_end_of_run_loop.simps) simp
next
  case (Cons x es)
  have "list_next h e = Some x" "x \<noteq> t" "list_prev h x = Some e"
    using Cons.prems chain_seg_next [of h as e "x # es" t bs] chain_seg_fresh [of h "as @ [e]" x es t bs]
      chain_list_prev [of h as e x "es @ t # bs"] by simp_all
  then show ?case
    using Cons.IH [of "as @ [e]" x] Cons.prems
    by (subst find_end_of_run_loop.simps) (auto split: prod.splits)
qed

lemma find_end_of_run_chain:
  assumes "chain h (as @ es @ t # bs)" "es \<noteq> []"
  shows "find_end_of_run lt h (hd es) t = Some (hd (snd (first_run lt es) @ [t]))"
  using find_end_of_run_loop_chain [of h as "hd es" "tl es" t bs lt] chain_seg_fresh [of h as "hd es" "tl es" t bs] assms
  by (cases es) (auto simp: find_end_of_run_def chain_def kassert_def)

lemma inplace_merge_loop_chain:
  "chain h (as @ p # A @ B @ t # bs) \<Longrightarrow>
     \<exists>h'. inplace_merge_loop lt h (hd (A @ B @ [t])) (hd (B @ [t])) t = Some h'
       \<and> chain h' (as @ p # merge_by lt A B @ t # bs)
       \<and> (\<forall>y. y \<notin> set (as @ p # A @ B @ t # bs) \<longrightarrow> h' y = h y)"
proof (induction lt A B arbitrary: h as p rule: merge_by.induct)
  case (1 lt a A b B)
  have ne: "a \<noteq> b" "b \<noteq> t" using "1.prems" by (auto simp: chain_def)
  show ?case
  proof (cases "lt b a")
    case False
    have nx: "list_next h a = Some (hd (A @ b # B @ [t]))"
      using chain_seg_next [of h "as @ [p]" a "A" b "B @ t # bs"] "1.prems" by (cases A) auto
    from "1.IH"(1) [of h "as @ [p]" a] False "1.prems"
    show ?thesis
      using nx ne False by (subst inplace_merge_loop.simps) auto
  next
    case True
    let ?n = "hd (B @ [t])"
    obtain cs where cs: "B @ t # bs = ?n # cs" by (cases B) auto
    have nx: "list_next h b = Some ?n"
      using chain_seg_next [of h "as @ p # a # A" b B t bs] "1.prems" by simp
    have pv: "list_prev h ?n = Some b"
      using chain_list_prev [of h "as @ p # a # A" b ?n cs] "1.prems" cs by simp
    from chain_list_splice [of h as p "a # A" "[b]" ?n cs] "1.prems" cs
    obtain h1 where h1: "list_splice h a b ?n = Some h1" "chain h1 (as @ p # b # a # A @ B @ t # bs)"
      "\<forall>y. y \<notin> set (as @ p # (a # A) @ (b # B) @ t # bs) \<longrightarrow> h1 y = h y" by auto
    from "1.IH"(2) [of h1 "as @ [p]" b] True h1(2)
    obtain h2 where "inplace_merge_loop lt h1 a ?n t = Some h2"
      "chain h2 (as @ p # b # merge_by lt (a # A) B @ t # bs)"
      "\<forall>y. y \<notin> set (as @ p # (a # A) @ (b # B) @ t # bs) \<longrightarrow> h2 y = h1 y" by auto
    with nx pv h1 True ne show ?thesis by (subst inplace_merge_loop.simps) auto
  qed
next
  case (2 lt B)
  then show ?case by (subst inplace_merge_loop.simps) simp
next
  case (3 lt a A)
  then show ?case by (subst inplace_merge_loop.simps) simp
qed

lemma inplace_merge_chain:
  assumes ch: "chain h (as @ p # A @ B @ t # bs)" and ne: "A \<noteq> []" "B \<noteq> []"
    and asc: "ascending lt A" "ascending lt B"
  shows "\<exists>h'. inplace_merge lt h (hd A) (hd B) t = Some h'
       \<and> chain h' (as @ p # merge_by lt A B @ t # bs)
       \<and> (\<forall>y. y \<notin> set (as @ p # A @ B @ t # bs) \<longrightarrow> h' y = h y)"
proof -
  have "is_sorted lt h (hd A) (hd B) = Some True"
    using is_sorted_chain [of h "as @ [p]" A "hd B" "tl B @ t # bs" lt] ch ne asc by (cases B) simp_all
  moreover have "is_sorted lt h (hd B) t = Some True"
    using is_sorted_chain [of h "as @ p # A" B t bs lt] ch ne asc by simp
  moreover have "hd A \<noteq> NULL" "hd B \<noteq> NULL" "t \<noteq> NULL"
    using ch hd_in_set [OF ne(1)] hd_in_set [OF ne(2)] by (auto simp: chain_def intro!: gr0I)
  ultimately show ?thesis
    using inplace_merge_loop_chain [OF ch, of lt] ne by (simp add: inplace_merge_def)
qed

lemma list_sort_pass_chain:
  "chain h (as @ p # xs @ [t]) \<Longrightarrow>
     \<exists>h'. list_sort_pass lt h (hd (xs @ [t])) t cnt = Some (h', cnt + of_nat (snd (pass_by lt xs)))
       \<and> chain h' (as @ p # fst (pass_by lt xs) @ [t])
       \<and> (\<forall>y. y \<notin> set (as @ p # xs @ [t]) \<longrightarrow> h' y = h y)"
proof (induction xs arbitrary: h as p cnt rule: length_induct)
  case (1 xs)
  show ?case
  proof (cases "xs = []")
    case True
    with "1.prems" show ?thesis by (subst list_sort_pass.simps) simp
  next
    case False
    have ne: "hd xs \<noteq> t" using False "1.prems" hd_in_set [OF False] by (auto simp: chain_def)
    from False show ?thesis
    proof (cases rule: pass_by_cases [of xs lt])
      case one
      then show ?thesis
        using find_end_of_run_chain [of h "as @ [p]" xs t "[]" lt] "1.prems" False ne
        by (subst list_sort_pass.simps) simp
    next
      case (two A B r ys n)
      let ?t = "hd (r @ [t])"
      obtain cs where cs: "r @ [t] = ?t # cs" by (cases r) auto
      have ch: "chain h (as @ p # A @ B @ ?t # cs)" using "1.prems" two(3) cs by simp
      have e1: "find_end_of_run lt h (hd xs) t = Some (hd B)" "hd B \<noteq> t"
        using find_end_of_run_chain [of h "as @ [p]" xs t "[]" lt] "1.prems" False two(2-4) hd_in_set [OF two(2)]
        by (auto simp: chain_def)
      have e2: "find_end_of_run lt h (hd B) t = Some ?t"
        using find_end_of_run_chain [of h "as @ p # A" "B @ r" t "[]" lt] "1.prems" two(2,3,5) by simp
      obtain h1 where h1: "inplace_merge lt h (hd A) (hd B) ?t = Some h1"
        "chain h1 (as @ p # merge_by lt A B @ ?t # cs)"
        "\<forall>y. y \<notin> set (as @ p # A @ B @ ?t # cs) \<longrightarrow> h1 y = h y"
        using inplace_merge_chain [OF ch two(1,2), of lt] two(4,5)
          first_run_ascending [of lt xs] first_run_ascending [of lt "B @ r"] by auto
      obtain as' p' where ap: "as @ p # merge_by lt A B = as' @ [p']"
        by (metis append_is_Nil_conv list.distinct(1) rev_exhaust)
      then have ch1: "chain h1 (as' @ p' # r @ [t])"
        using h1(2) cs by (metis append.assoc append_Cons append_Nil)
      have "length r < length xs" using two by simp
      with "1.IH" ch1 obtain h2 where h2:
        "list_sort_pass lt h1 ?t t (cnt + 1) = Some (h2, cnt + 1 + of_nat (snd (pass_by lt r)))"
        "chain h2 (as' @ p' # fst (pass_by lt r) @ [t])"
        "\<forall>y. y \<notin> set (as' @ p' # r @ [t]) \<longrightarrow> h2 y = h1 y" by blast
      have "chain h2 (as @ p # fst (pass_by lt xs) @ [t])"
        using h2(2) ap two(6,7) by (metis append.assoc append_Cons append_Nil fst_conv)
      moreover have "h2 y = h y" if "y \<notin> set (as @ p # xs @ [t])" for y
      proof -
        have "set (as' @ p' # r @ [t]) \<subseteq> set (as @ p # xs @ [t])"
          using arg_cong [OF ap, of set] two(3) by (auto simp: set_merge_by)
        moreover have "set (as @ p # A @ B @ ?t # cs) = set (as @ p # xs @ [t])"
          using two(3) arg_cong [OF cs, of set] by auto
        ultimately show ?thesis using that h2(3) h1(3) by (metis subsetD)
      qed
      moreover have "hd xs = hd A" using two(1,3) by simp
      ultimately show ?thesis
        using e1 e2 h1(1) h2(1) two(6,7) False ne
        by (subst list_sort_pass.simps) (simp add: add.assoc)
    qed
  qed
qed

section \<open>The whole sort\<close>

lemma list_sort_loop_repr:
  assumes "list_repr h l xs" "strict_weak lt (set xs)" "length xs < 2 ^ 32"
  shows "\<exists>h' ys. list_sort_loop lt h l = Some h' \<and> list_repr h' l ys \<and> sorted_by lt ys \<and> mset ys = mset xs
     \<and> (\<forall>z\<in>set xs. filter (equiv_by lt z) ys = filter (equiv_by lt z) xs)
     \<and> (\<forall>y. y \<notin> set (list_nodes l xs) \<longrightarrow> h' y = h y)"
  using assms
proof (induction "num_runs lt xs" arbitrary: h xs rule: less_induct)
  case less
  let ?n = "snd (pass_by lt xs)" and ?ys = "fst (pass_by lt xs)"
  note P = pass_by_facts [OF less.prems(2)]
  have st: "filter (equiv_by lt z) ?ys = filter (equiv_by lt z) xs" if "z \<in> set xs" for z
    using P(4) [of z "set xs"] that less.prems(2) by simp
  obtain h1 where h1: "list_sort_pass lt h (hd (xs @ [list_tail_addr l])) (list_tail_addr l) 0 = Some (h1, of_nat ?n)"
    "list_repr h1 l ?ys" "\<forall>y. y \<notin> set (list_nodes l xs) \<longrightarrow> h1 y = h y"
    using list_sort_pass_chain [of h "[]" "list_head_addr l" xs "list_tail_addr l" lt 0] less.prems(1)
    by (auto simp: list_repr_def list_nodes_def)
  have runs: "num_runs lt xs \<le> length xs"
    by (induction lt xs rule: descents.induct) (auto simp: num_runs_def)
  have set_ys: "set ?ys = set xs" and len: "length ?ys = length xs"
    using P(1) by (metis set_mset_mset) (metis P(1) size_mset)
  have "?n < 2 ^ 32" using P(3) runs less.prems(3) by simp
  then have cnt: "(of_nat ?n :: u32) > 1 \<longleftrightarrow> ?n > 1"
    by (simp add: word_less_nat_alt unat_of_nat)
  have ret: "list_sort_loop lt h l = (if ?n > 1 then list_sort_loop lt h1 l else Some h1)"
    using list_begin_repr [OF less.prems(1)] list_repr_nonnull [OF less.prems(1)] h1(1) cnt
    by (subst list_sort_loop.simps) simp
  show ?case
  proof (cases "?n > 1")
    case True
    have "num_runs lt ?ys < num_runs lt xs" using True P(2,3) by linarith
    from less.hyps [OF this h1(2)] obtain h' ys where "list_sort_loop lt h1 l = Some h'" "list_repr h' l ys"
      "sorted_by lt ys" "mset ys = mset ?ys" "\<forall>z\<in>set xs. filter (equiv_by lt z) ys = filter (equiv_by lt z) ?ys"
      "\<forall>y. y \<notin> set (list_nodes l ?ys) \<longrightarrow> h' y = h1 y"
      using less.prems(2,3) set_ys len by auto
    moreover have "set (list_nodes l ?ys) = set (list_nodes l xs)" using set_ys by (auto simp: list_nodes_def)
    ultimately show ?thesis using ret True P(1) st h1(3) by auto
  next
    case False
    then have "num_runs lt ?ys \<le> 1" using P(2) by simp
    then have "descents lt ?ys = 0" by (auto simp: num_runs_def split: if_splits)
    then have "ascending lt ?ys" by (simp add: descents_ascending)
    then have "sorted_by lt ?ys" using less.prems(2) set_ys by (intro ascending_sorted_by) simp_all
    with ret False h1 P(1) st show ?thesis by auto
  qed
qed

lemma list_sort_repr:
  assumes "list_repr h l xs" "strict_weak lt (set xs)" "length xs < 2 ^ 32"
  shows "\<exists>h' ys. list_sort lt h l = Some h' \<and> list_repr h' l ys \<and> sorted_by lt ys \<and> mset ys = mset xs
     \<and> (\<forall>z\<in>set xs. filter (equiv_by lt z) ys = filter (equiv_by lt z) xs)
     \<and> (\<forall>y. y \<notin> set (list_nodes l xs) \<longrightarrow> h' y = h y)"
proof -
  obtain h' ys where s: "list_sort_loop lt h l = Some h'" "list_repr h' l ys" "sorted_by lt ys" "mset ys = mset xs"
    "\<forall>z\<in>set xs. filter (equiv_by lt z) ys = filter (equiv_by lt z) xs"
    "\<forall>y. y \<notin> set (list_nodes l xs) \<longrightarrow> h' y = h y"
    using list_sort_loop_repr [OF assms] by blast
  have "is_sorted lt h' (hd (ys @ [list_tail_addr l])) (list_tail_addr l) = Some True"
    using is_sorted_chain [of h' "[list_head_addr l]" ys "list_tail_addr l" "[]" lt] s(2,3)
    by (simp add: list_repr_def list_nodes_def sorted_by_ascending)
  with s list_begin_repr [OF s(2)] list_repr_nonnull [OF s(2)] show ?thesis
    by (auto simp: list_sort_def)
qed

end
