(* ===== verification/Klist_Interface.thy ===== *)
theory Klist_Interface
  imports Klist_Sort
begin

text \<open>
  What the rest of the kernel relies on when it keeps its objects on a \<open>struct list\<close>: the
  list behaves as a sequence whose cells are its own.  The contract is a locale, the lists of
  \<open>lib/kernel/list.c\<close> fulfil it, and the queueing behaviour the scheduler and the semaphores
  need is derived once from it.  The properties of \<open>list.c\<close> close the theory.
\<close>

section \<open>Queues on a list\<close>

text \<open>Pushing a sequence of elements in order, and popping a number of them.\<close>

fun push_all :: "('h \<Rightarrow> 'l \<Rightarrow> 'e \<Rightarrow> 'h option) \<Rightarrow> 'h \<Rightarrow> 'l \<Rightarrow> 'e list \<Rightarrow> 'h option" where
  "push_all push h l [] = Some h"
| "push_all push h l (e # es) = do { h \<leftarrow> push h l e; push_all push h l es }"

fun pop_many :: "('h \<Rightarrow> 'l \<Rightarrow> ('e \<times> 'h) option) \<Rightarrow> 'h \<Rightarrow> 'l \<Rightarrow> nat \<Rightarrow> ('e list \<times> 'h) option" where
  "pop_many pop h l 0 = Some ([], h)"
| "pop_many pop h l (Suc n) = do { (e, h) \<leftarrow> pop h l; (es, h) \<leftarrow> pop_many pop h l n; Some (e # es, h) }"

text \<open>One turn of a round robin: the front element goes to the back.\<close>

definition rotate_queue :: "('h \<Rightarrow> 'l \<Rightarrow> 'e \<Rightarrow> 'h option) \<Rightarrow> ('h \<Rightarrow> 'l \<Rightarrow> ('e \<times> 'h) option)
    \<Rightarrow> 'h \<Rightarrow> 'l \<Rightarrow> 'h option" where
  "rotate_queue push pop h l = do { (e, h) \<leftarrow> pop h l; push h l e }"

locale kernel_list =
  fixes repr :: "'h \<Rightarrow> 'l \<Rightarrow> 'e list \<Rightarrow> bool"
    and fresh :: "'h \<Rightarrow> 'l \<Rightarrow> 'e list \<Rightarrow> 'e \<Rightarrow> bool"
    and push_back :: "'h \<Rightarrow> 'l \<Rightarrow> 'e \<Rightarrow> 'h option"
    and pop_front :: "'h \<Rightarrow> 'l \<Rightarrow> ('e \<times> 'h) option"
    and remove :: "'h \<Rightarrow> 'e \<Rightarrow> ('e \<times> 'h) option"
  assumes push_law: "repr h l xs \<Longrightarrow> fresh h l xs e \<Longrightarrow> \<exists>h'. push_back h l e = Some h' \<and> repr h' l (xs @ [e])
      \<and> (\<forall>e'. e' \<noteq> e \<longrightarrow> fresh h l xs e' \<longrightarrow> fresh h' l (xs @ [e]) e')"
    and pop_law: "repr h l (x # xs) \<Longrightarrow> \<exists>h'. pop_front h l = Some (x, h') \<and> repr h' l xs \<and> fresh h' l xs x"
    and remove_law: "repr h l (xs @ e # ys) \<Longrightarrow> \<exists>e' h'. remove h e = Some (e', h') \<and> repr h' l (xs @ ys)
      \<and> fresh h' l (xs @ ys) e"
    and distinct_law: "repr h l xs \<Longrightarrow> distinct xs"
begin

lemma push_all_law:
  assumes "repr h l xs" "distinct es" "\<forall>e\<in>set es. fresh h l xs e"
  shows "\<exists>h'. push_all push_back h l es = Some h' \<and> repr h' l (xs @ es)"
  using assms
proof (induction es arbitrary: h xs)
  case (Cons e es)
  obtain h1 where h1: "push_back h l e = Some h1" "repr h1 l (xs @ [e])"
    "\<forall>e'. e' \<noteq> e \<longrightarrow> fresh h l xs e' \<longrightarrow> fresh h1 l (xs @ [e]) e'"
    using push_law [OF Cons.prems(1), of e] Cons.prems(3) by auto
  have "\<forall>e'\<in>set es. fresh h1 l (xs @ [e]) e'" using h1(3) Cons.prems(2,3) by auto
  then show ?case using Cons.IH [OF h1(2)] Cons.prems(2) h1(1) by auto
qed simp

lemma pop_many_law:
  "repr h l (xs @ ys) \<Longrightarrow> \<exists>h'. pop_many pop_front h l (length xs) = Some (xs, h') \<and> repr h' l ys"
proof (induction xs arbitrary: h)
  case (Cons x xs)
  then show ?case using pop_law [of h l x "xs @ ys"] by fastforce
qed simp

lemma fifo:
  assumes "repr h l []" "distinct es" "\<forall>e\<in>set es. fresh h l [] e"
  shows "\<exists>h1 h2. push_all push_back h l es = Some h1 \<and> pop_many pop_front h1 l (length es) = Some (es, h2)
    \<and> repr h2 l []"
  using push_all_law [OF assms] pop_many_law [of _ l es "[]"] by fastforce

lemma rotate_law:
  assumes "repr h l (x # xs)"
  shows "\<exists>h'. rotate_queue push_back pop_front h l = Some h' \<and> repr h' l (xs @ [x])"
  using pop_law [OF assms] push_law by (fastforce simp: rotate_queue_def)

lemma remove_push:
  assumes "repr h l (xs @ e # ys)"
  shows "\<exists>n h1 h2. remove h e = Some (n, h1) \<and> push_back h1 l e = Some h2 \<and> repr h2 l (xs @ ys @ [e])"
  using remove_law [OF assms] push_law [of _ l "xs @ ys" e] by fastforce

end

definition list_fresh :: "lheap \<Rightarrow> ptr \<Rightarrow> ptr list \<Rightarrow> ptr \<Rightarrow> bool" where
  "list_fresh h l xs e \<longleftrightarrow> e \<noteq> NULL \<and> e \<notin> set (list_nodes l xs)"

lemma list_repr_cells:
  assumes "list_repr h l (xs @ e # ys)"
  shows "e \<noteq> NULL" "e \<notin> set (list_nodes l (xs @ ys))" "distinct (xs @ e # ys)"
  using assms by (auto simp: list_repr_def chain_def list_nodes_def)

interpretation kl: kernel_list list_repr list_fresh list_push_back list_pop_front list_remove
proof unfold_locales
  show "\<exists>h'. list_push_back h l e = Some h' \<and> list_repr h' l (xs @ [e])
      \<and> (\<forall>e'. e' \<noteq> e \<longrightarrow> list_fresh h l xs e' \<longrightarrow> list_fresh h' l (xs @ [e]) e')"
    if "list_repr h l xs" "list_fresh h l xs e" for h l xs e
    using list_push_back_repr [OF that(1), of e] that(2) by (auto simp: list_fresh_def list_nodes_def)
  show "\<exists>h'. list_pop_front h l = Some (x, h') \<and> list_repr h' l xs \<and> list_fresh h' l xs x"
    if "list_repr h l (x # xs)" for h l x xs
    using list_pop_front_repr [OF that] list_repr_cells [of h l "[]" x xs] that by (auto simp: list_fresh_def)
  show "\<exists>e' h'. list_remove h e = Some (e', h') \<and> list_repr h' l (xs @ ys) \<and> list_fresh h' l (xs @ ys) e"
    if "list_repr h l (xs @ e # ys)" for h l xs e ys
    using list_remove_repr [OF that] list_repr_cells [OF that] by (auto simp: list_fresh_def)
  show "distinct xs" if "list_repr h l xs" for h l xs
    using that by (auto simp: list_repr_def chain_def list_nodes_def)
qed

section \<open>Properties of list.c\<close>

text \<open>A concrete heap for the examples: the given cells linked in this order.\<close>

fun heap_of :: "ptr list \<Rightarrow> lheap" where
  "heap_of (x # y # zs) = set_prev (set_next (heap_of (y # zs)) x y) y x"
| "heap_of _ = (\<lambda>_. \<lparr>elem_prev = NULL, elem_next = NULL\<rparr>)"

lemmas sample_defs = list_repr_def chain_def list_nodes_def list_head_addr_def list_tail_addr_def

lemma sample_list: "list_repr (heap_of [8, 300, 100, 200, 16]) 8 [300, 100, 200]"
  by (simp add: sample_defs set_prev_def set_next_def)

lemma strict_weak_nat: "strict_weak ((<) :: nat \<Rightarrow> nat \<Rightarrow> bool) S"
  by (auto simp: strict_weak_def)

text \<open>
  C10: \<open>list_sort\<close> sorts.  On every well-formed list and for every strict weak order the call
  returns; afterwards the list is sorted, has the same elements, equivalent elements keep their
  order (the sort is stable), and no cell outside the list has changed.
\<close>

theorem list_sort_correct:
  assumes "list_repr h l xs" "strict_weak lt (set xs)" "length xs < 2 ^ 32"
  shows "\<exists>h' ys. list_sort lt h l = Some h' \<and> list_repr h' l ys \<and> sorted_by lt ys \<and> mset ys = mset xs
     \<and> (\<forall>z\<in>set xs. filter (equiv_by lt z) ys = filter (equiv_by lt z) xs)
     \<and> (\<forall>y. y \<notin> set (list_nodes l xs) \<longrightarrow> h' y = h y)"
  by (rule list_sort_repr [OF assms])

theorem list_sort_correct_witness:
  "\<exists>h' ys. list_sort (<) (heap_of [8, 300, 100, 200, 16]) 8 = Some h' \<and> list_repr h' 8 ys \<and> sorted_by (<) ys
     \<and> mset ys = mset [300, 100, 200]
     \<and> (\<forall>z\<in>set [300, 100, 200]. filter (equiv_by (<) z) ys = filter (equiv_by (<) z) [300, 100, 200])
     \<and> (\<forall>y. y \<notin> set (list_nodes 8 [300, 100, 200]) \<longrightarrow> h' y = heap_of [8, 300, 100, 200, 16] y)"
  by (rule list_sort_correct [OF sample_list strict_weak_nat]) simp

text \<open>
  C30: \<open>list_insert_ordered\<close> keeps a sorted list sorted and places the new element after every
  element it is not less than, so that equal elements stay in arrival order; nothing outside the
  list and the new element changes.
\<close>

theorem list_insert_ordered_correct:
  assumes "list_repr h l xs" "sorted_by lt xs" "strict_weak lt (insert e (set xs))"
    and "e \<noteq> NULL" "e \<notin> set (list_nodes l xs)"
  shows "\<exists>h' as bs. list_insert_ordered lt h l e = Some h' \<and> xs = as @ bs \<and> list_repr h' l (as @ e # bs)
     \<and> sorted_by lt (as @ e # bs) \<and> (\<forall>a\<in>set as. \<not> lt e a) \<and> (\<forall>b\<in>set bs. lt e b)
     \<and> (\<forall>y. y \<notin> set (list_nodes l (e # xs)) \<longrightarrow> h' y = h y)"
proof -
  let ?as = "takeWhile (\<lambda>x. \<not> lt e x) xs" and ?bs = "dropWhile (\<lambda>x. \<not> lt e x) xs"
  have s: "sorted_by lt (?as @ e # ?bs)"
    using sorted_insert_by [OF assms(3,2)] by (simp only: insert_by_def)
  have "lt e b" if "b \<in> set ?bs" for b
  proof -
    have "?bs \<noteq> []" using that by (metis empty_iff empty_set)
    then obtain c cs where bs: "?bs = c # cs" by (metis neq_Nil_conv)
    then have c: "?bs = c # cs" "lt e c"
      using hd_dropWhile [of "\<lambda>x. \<not> lt e x" xs] by (metis list.sel(1) list.distinct(1))+
    have in_xs: "b \<in> set xs" "c \<in> set xs"
      using that c(1) set_dropWhileD by (metis list.set_intros(1))+
    have "sorted_by lt (as @ e # c # cs) \<Longrightarrow> sorted_by lt (c # cs)" for as by auto
    then have "sorted_by lt (c # cs)" using s unfolding c(1) by blast
    moreover have "b \<in> set (c # cs)" using that unfolding c(1) .
    ultimately have "b = c \<or> \<not> lt b c" by auto
    then show ?thesis
      using c(2) strict_weak_negtrans [OF assms(3), of e b c] in_xs by blast
  qed
  moreover have "\<not> lt e a" if "a \<in> set ?as" for a
    using that by (auto dest: set_takeWhileD)
  moreover obtain h' where "list_insert_ordered lt h l e = Some h'" "list_repr h' l (?as @ e # ?bs)"
    "\<forall>y. y \<notin> set (list_nodes l (e # xs)) \<longrightarrow> h' y = h y"
    using list_insert_ordered_repr [OF assms(1,4,5), of lt] by (auto simp: insert_by_def)
  moreover have "xs = ?as @ ?bs" by simp
  ultimately show ?thesis using s by blast
qed

theorem list_insert_ordered_correct_witness:
  "\<exists>h' as bs. list_insert_ordered (<) (heap_of [8, 100, 300, 16]) 8 200 = Some h' \<and> [100, 300] = as @ bs
     \<and> list_repr h' 8 (as @ 200 # bs) \<and> sorted_by (<) (as @ 200 # bs) \<and> (\<forall>a\<in>set as. \<not> 200 < a)
     \<and> (\<forall>b\<in>set bs. 200 < b)
     \<and> (\<forall>y. y \<notin> set (list_nodes 8 [200, 100, 300]) \<longrightarrow> h' y = heap_of [8, 100, 300, 16] y)"
  by (rule list_insert_ordered_correct [OF _ _ strict_weak_nat])
    (simp_all add: sample_defs set_prev_def set_next_def)

text \<open>
  C40: \<open>list_unique\<close> returns for every list and comparator.  Of every run of elements that are
  equivalent to the run's first element it keeps the first, in order, and appends the others in order to the
  duplicates list: the two lists are those that the functional program \<open>unique_by\<close> computes.  No two
  adjacent elements of the result are equivalent, and together the two hold what the list held before.
\<close>

theorem list_unique_correct:
  assumes "list_repr h l xs" "list_repr h d ds" "set (list_nodes l xs) \<inter> set (list_nodes d ds) = {}"
  shows "\<exists>h' us rs. list_unique lt h l d = Some h' \<and> list_repr h' l us \<and> list_repr h' d (ds @ rs) \<and> unique_by lt xs = (us, rs)
     \<and> mset us + mset rs = mset xs
     \<and> (\<forall>i. Suc i < length us \<longrightarrow> \<not> equiv_by lt (us ! i) (us ! Suc i))"
proof -
  have d: "d \<noteq> NULL" using list_repr_nonnull [OF assms(2)] by simp
  have "dup_repr h l xs d ds" using assms d by (simp add: dup_repr_def)
  then show ?thesis
    using list_unique_repr [OF assms(1), of d ds lt] d mset_unique_by [of lt xs] unique_by_adjacent [of _ lt xs]
    by (cases "unique_by lt xs") auto
qed

theorem list_unique_correct_witness:
  "\<exists>h'. list_unique (\<lambda>a b. a div 100 < b div 100)
        (\<lambda>p. if p < 64 then heap_of [8, 16] p else heap_of [64, 100, 120, 300, 72] p) 64 8 = Some h'
     \<and> list_repr h' 64 [100, 300] \<and> list_repr h' 8 [120]"
proof -
  have u: "unique_by (\<lambda>a b. a div 100 < b div (100 :: nat)) [100, 120, 300] = ([100, 300], [120])" by (simp add: equiv_by_def)
  have "\<exists>h' us rs. list_unique (\<lambda>a b. a div 100 < b div 100)
        (\<lambda>p. if p < 64 then heap_of [8, 16] p else heap_of [64, 100, 120, 300, 72] p) 64 8 = Some h'
     \<and> list_repr h' 64 us \<and> list_repr h' 8 ([] @ rs) \<and> unique_by (\<lambda>a b. a div 100 < b div 100) [100, 120, 300] = (us, rs)
     \<and> mset us + mset rs = mset [100, 120, 300]
     \<and> (\<forall>i. Suc i < length us \<longrightarrow> \<not> equiv_by (\<lambda>a b. a div 100 < b div 100) (us ! i) (us ! Suc i))"
    by (rule list_unique_correct) (simp_all add: sample_defs set_prev_def set_next_def)
  then show ?thesis unfolding u by auto
qed

text \<open>
  Note: \<open>list_reverse\<close> reverses the list in place, terminates on every well-formed list and
  leaves everything outside the list alone.
\<close>

theorem list_reverse_correct:
  assumes "list_repr h l xs"
  shows "\<exists>h'. list_reverse h l = Some h' \<and> list_repr h' l (rev xs)
     \<and> (\<forall>y. y \<notin> set (list_nodes l xs) \<longrightarrow> h' y = h y)"
  by (rule list_reverse_repr [OF assms])

theorem list_reverse_correct_witness:
  "\<exists>h'. list_reverse (heap_of [8, 300, 100, 200, 16]) 8 = Some h' \<and> list_repr h' 8 (rev [300, 100, 200])
     \<and> (\<forall>y. y \<notin> set (list_nodes 8 [300, 100, 200]) \<longrightarrow> h' y = heap_of [8, 300, 100, 200, 16] y)"
  by (rule list_reverse_correct [OF sample_list])

text \<open>
  C32: a kernel list used with \<open>list_push_back\<close> and \<open>list_pop_front\<close> is a FIFO queue: pushing
  distinct new cells on an initialised list and popping as many gives them back in order,
  without panicking, and leaves the list empty.
\<close>

theorem list_fifo:
  assumes "l \<noteq> NULL" "distinct es" "\<forall>e\<in>set es. e \<noteq> NULL \<and> e \<notin> {list_head_addr l, list_tail_addr l}"
  shows "\<exists>h0 h1 h2. list_init h l = Some h0 \<and> push_all list_push_back h0 l es = Some h1
     \<and> pop_many list_pop_front h1 l (length es) = Some (es, h2) \<and> list_repr h2 l []"
proof -
  obtain h0 where h0: "list_init h l = Some h0" "list_repr h0 l []" using list_init_repr [OF assms(1)] by blast
  have "\<forall>e\<in>set es. list_fresh h0 l [] e" using assms(3) by (auto simp: list_fresh_def list_nodes_def)
  then show ?thesis using kl.fifo [OF h0(2) assms(2)] h0(1) by blast
qed

theorem list_fifo_witness:
  "\<exists>h0 h1 h2. list_init (heap_of []) 8 = Some h0 \<and> push_all list_push_back h0 8 [500, 400] = Some h1
     \<and> pop_many list_pop_front h1 8 (length [500, 400::ptr]) = Some ([500, 400], h2) \<and> list_repr h2 8 []"
  by (rule list_fifo) (simp_all add: list_head_addr_def list_tail_addr_def)

end
