(* ===== verification/Bitmap.thy ===== *)
theory Bitmap
  imports Prelude
begin

text \<open>
  The kernel's bitmaps, \<open>src/lib/kernel/bitmap.c\<close>, on 32-bit words (\<open>unsigned long\<close> and
  \<open>size_t\<close> of the i386 target).  The element array is a list; an access outside it is
  undefined behaviour in C and \<open>None\<close> in the model.  \<open>malloc\<close> is represented by its
  outcome: whether the two requests succeed and the unspecified contents of the new array.
  \<open>bitmap_dump\<close> (console output) is not modelled; \<open>bitmap_read\<close> and \<open>bitmap_write\<close> are in
  the file system part, which provides the file they use.
\<close>

section \<open>Model\<close>

record bitmap =
  bit_cnt :: u32
  bits :: "u32 list"

definition ELEM_BITS :: u32 where
  "ELEM_BITS = 32"

definition BITMAP_ERROR :: u32 where
  "BITMAP_ERROR = -1"

definition elem_idx :: "u32 \<Rightarrow> u32" where
  "elem_idx bit_idx = bit_idx div ELEM_BITS"

definition bit_mask :: "u32 \<Rightarrow> u32" where
  "bit_mask bit_idx = push_bit (unat (bit_idx mod ELEM_BITS)) 1"

definition elem_cnt :: "u32 \<Rightarrow> u32" where
  "elem_cnt n = (n + ELEM_BITS - 1) div ELEM_BITS"

definition byte_cnt :: "u32 \<Rightarrow> u32" where
  "byte_cnt n = 4 * elem_cnt n"

definition last_mask :: "bitmap \<Rightarrow> u32" where
  "last_mask b = (let last_bits = bit_cnt b mod ELEM_BITS in
     if last_bits \<noteq> 0 then push_bit (unat last_bits) 1 - 1 else -1)"

definition bitmap_size :: "bitmap \<Rightarrow> u32" where
  "bitmap_size b = bit_cnt b"

text \<open>Access to \<open>b->bits[idx]\<close>.\<close>

definition upd_elem :: "bitmap \<Rightarrow> u32 \<Rightarrow> (u32 \<Rightarrow> u32) \<Rightarrow> bitmap option" where
  "upd_elem b idx f = (if unat idx < length (bits b)
     then Some (b\<lparr>bits := (bits b)[unat idx := f (bits b ! unat idx)]\<rparr>) else None)"

definition bitmap_mark :: "bitmap \<Rightarrow> u32 \<Rightarrow> bitmap option" where
  "bitmap_mark b bit_idx = upd_elem b (elem_idx bit_idx) (\<lambda>e. e OR bit_mask bit_idx)"

definition bitmap_reset :: "bitmap \<Rightarrow> u32 \<Rightarrow> bitmap option" where
  "bitmap_reset b bit_idx = upd_elem b (elem_idx bit_idx) (\<lambda>e. e AND NOT (bit_mask bit_idx))"

definition bitmap_flip :: "bitmap \<Rightarrow> u32 \<Rightarrow> bitmap option" where
  "bitmap_flip b bit_idx = upd_elem b (elem_idx bit_idx) (\<lambda>e. e XOR bit_mask bit_idx)"

definition bitmap_set :: "bitmap \<Rightarrow> u32 \<Rightarrow> bool \<Rightarrow> bitmap option" where
  "bitmap_set b idx v = do {
     kassert (idx < bit_cnt b);
     if v then bitmap_mark b idx else bitmap_reset b idx }"

definition bitmap_test :: "bitmap \<Rightarrow> u32 \<Rightarrow> bool option" where
  "bitmap_test b idx = do {
     kassert (idx < bit_cnt b);
     if unat (elem_idx idx) < length (bits b)
     then Some (bits b ! unat (elem_idx idx) AND bit_mask idx \<noteq> 0) else None }"

text \<open>
  The counting loops \<open>for (i = 0; i < cnt; i++)\<close>: the first argument is the number of
  iterations left, \<open>cnt - i\<close>.
\<close>

primrec bitmap_set_loop :: "nat \<Rightarrow> bitmap \<Rightarrow> u32 \<Rightarrow> u32 \<Rightarrow> bool \<Rightarrow> bitmap option" where
  "bitmap_set_loop 0 b start i v = Some b"
| "bitmap_set_loop (Suc n) b start i v = do {
     b \<leftarrow> bitmap_set b (start + i) v;
     bitmap_set_loop n b start (i + 1) v }"

definition bitmap_set_multiple :: "bitmap \<Rightarrow> u32 \<Rightarrow> u32 \<Rightarrow> bool \<Rightarrow> bitmap option" where
  "bitmap_set_multiple b start cnt v = do {
     kassert (start \<le> bit_cnt b);
     kassert (start + cnt \<le> bit_cnt b);
     bitmap_set_loop (unat cnt) b start 0 v }"

definition bitmap_set_all :: "bitmap \<Rightarrow> bool \<Rightarrow> bitmap option" where
  "bitmap_set_all b v = bitmap_set_multiple b 0 (bitmap_size b) v"

primrec bitmap_count_loop :: "nat \<Rightarrow> bitmap \<Rightarrow> u32 \<Rightarrow> u32 \<Rightarrow> bool \<Rightarrow> u32 \<Rightarrow> u32 option" where
  "bitmap_count_loop 0 b start i v value_cnt = Some value_cnt"
| "bitmap_count_loop (Suc n) b start i v value_cnt = do {
     t \<leftarrow> bitmap_test b (start + i);
     bitmap_count_loop n b start (i + 1) v (if t = v then value_cnt + 1 else value_cnt) }"

definition bitmap_count :: "bitmap \<Rightarrow> u32 \<Rightarrow> u32 \<Rightarrow> bool \<Rightarrow> u32 option" where
  "bitmap_count b start cnt v = do {
     kassert (start \<le> bit_cnt b);
     kassert (start + cnt \<le> bit_cnt b);
     bitmap_count_loop (unat cnt) b start 0 v 0 }"

primrec bitmap_contains_loop :: "nat \<Rightarrow> bitmap \<Rightarrow> u32 \<Rightarrow> u32 \<Rightarrow> bool \<Rightarrow> bool option" where
  "bitmap_contains_loop 0 b start i v = Some False"
| "bitmap_contains_loop (Suc n) b start i v = do {
     t \<leftarrow> bitmap_test b (start + i);
     if t = v then Some True else bitmap_contains_loop n b start (i + 1) v }"

definition bitmap_contains :: "bitmap \<Rightarrow> u32 \<Rightarrow> u32 \<Rightarrow> bool \<Rightarrow> bool option" where
  "bitmap_contains b start cnt v = do {
     kassert (start \<le> bit_cnt b);
     kassert (start + cnt \<le> bit_cnt b);
     bitmap_contains_loop (unat cnt) b start 0 v }"

definition bitmap_any :: "bitmap \<Rightarrow> u32 \<Rightarrow> u32 \<Rightarrow> bool option" where
  "bitmap_any b start cnt = bitmap_contains b start cnt True"

definition bitmap_none :: "bitmap \<Rightarrow> u32 \<Rightarrow> u32 \<Rightarrow> bool option" where
  "bitmap_none b start cnt = map_option Not (bitmap_contains b start cnt True)"

definition bitmap_all :: "bitmap \<Rightarrow> u32 \<Rightarrow> u32 \<Rightarrow> bool option" where
  "bitmap_all b start cnt = map_option Not (bitmap_contains b start cnt False)"

text \<open>
  \<open>for (i = start; i <= last; i++)\<close> would not end for \<open>last = SIZE_MAX\<close> unless a
  group is found, so the loop is a partial function.
\<close>

partial_function (option) bitmap_scan_loop :: "bitmap \<Rightarrow> u32 \<Rightarrow> u32 \<Rightarrow> u32 \<Rightarrow> bool \<Rightarrow> u32 option" where
  "bitmap_scan_loop b i lst cnt v =
     (if i \<le> lst then do {
        c \<leftarrow> bitmap_contains b i cnt (\<not> v);
        if \<not> c then Some i else bitmap_scan_loop b (i + 1) lst cnt v }
      else Some BITMAP_ERROR)"

definition bitmap_scan :: "bitmap \<Rightarrow> u32 \<Rightarrow> u32 \<Rightarrow> bool \<Rightarrow> u32 option" where
  "bitmap_scan b start cnt v = do {
     kassert (start \<le> bit_cnt b);
     if cnt \<le> bit_cnt b
     then bitmap_scan_loop b start (bit_cnt b - cnt) cnt v
     else Some BITMAP_ERROR }"

definition bitmap_scan_and_flip :: "bitmap \<Rightarrow> u32 \<Rightarrow> u32 \<Rightarrow> bool \<Rightarrow> (u32 \<times> bitmap) option" where
  "bitmap_scan_and_flip b start cnt v = do {
     idx \<leftarrow> bitmap_scan b start cnt v;
     b \<leftarrow> (if idx \<noteq> BITMAP_ERROR then bitmap_set_multiple b idx cnt (\<not> v) else Some b);
     Some (idx, b) }"

text \<open>
  \<open>bitmap_create\<close>: \<open>got_b\<close> and \<open>got_bits\<close> say whether the two \<open>malloc\<close> calls return a
  block, and \<open>junk\<close> is what the second block holds.  The inner \<open>None\<close> is the null pointer.
\<close>

definition bitmap_create :: "bool \<Rightarrow> bool \<Rightarrow> u32 list \<Rightarrow> u32 \<Rightarrow> bitmap option option" where
  "bitmap_create got_b got_bits junk n =
     (if got_b then
        if got_bits \<or> n = 0
        then map_option Some (bitmap_set_all \<lparr>bit_cnt = n, bits = (if got_bits then junk else [])\<rparr> False)
        else Some None
      else Some None)"

definition bitmap_buf_size :: "u32 \<Rightarrow> u32" where
  "bitmap_buf_size n = 8 + byte_cnt n"

definition bitmap_create_in_buf :: "u32 \<Rightarrow> u32 list \<Rightarrow> u32 \<Rightarrow> bitmap option" where
  "bitmap_create_in_buf n junk block_size = do {
     kassert (block_size \<ge> bitmap_buf_size n);
     bitmap_set_all \<lparr>bit_cnt = n, bits = junk\<rparr> False }"

definition bitmap_file_size :: "bitmap \<Rightarrow> u32" where
  "bitmap_file_size b = byte_cnt (bit_cnt b)"

section \<open>Abstraction to a sequence of bits\<close>

definition bit_at :: "bitmap \<Rightarrow> nat \<Rightarrow> bool" where
  "bit_at b i = bit (bits b ! (i div 32)) (i mod 32)"

definition bits_of :: "bitmap \<Rightarrow> bool list" where
  "bits_of b = map (bit_at b) [0..<unat (bit_cnt b)]"

definition wf_bitmap :: "bitmap \<Rightarrow> bool" where
  "wf_bitmap b \<longleftrightarrow> unat (bit_cnt b) \<le> 32 * length (bits b)"

lemma length_bits_of [simp]: "length (bits_of b) = unat (bit_cnt b)"
  by (simp add: bits_of_def)

lemma nth_bits_of [simp]: "i < unat (bit_cnt b) \<Longrightarrow> bits_of b ! i = bit_at b i"
  by (simp add: bits_of_def)

lemma unat_elem_idx [simp]: "unat (elem_idx i) = unat i div 32"
  by (simp add: elem_idx_def ELEM_BITS_def unat_div_distrib)

lemma bit_bit_mask: "bit (bit_mask i) n \<longleftrightarrow> n = unat i mod 32"
  by (auto simp: bit_mask_def ELEM_BITS_def unat_mod_distrib bit_exp_iff)

lemma and_bit_mask: "(w AND bit_mask i \<noteq> 0) = bit w (unat i mod 32)"
proof
  assume "w AND bit_mask i \<noteq> 0"
  then obtain n where "bit (w AND bit_mask i) n"
    by (metis bit_eqI bit_0_eq bot_apply bot_bool_def)
  then show "bit w (unat i mod 32)" by (auto simp: bit_and_iff bit_bit_mask)
next
  assume "bit w (unat i mod 32)"
  then have "bit (w AND bit_mask i) (unat i mod 32)" by (simp add: bit_and_iff bit_bit_mask)
  then show "w AND bit_mask i \<noteq> 0" by auto
qed

lemma wf_bitmap_idx: "wf_bitmap b \<Longrightarrow> i < unat (bit_cnt b) \<Longrightarrow> i div 32 < length (bits b)"
  by (auto simp: wf_bitmap_def div_less_iff_less_mult)

lemma div_mod_32_eq: "(i::nat) div 32 = j div 32 \<Longrightarrow> i mod 32 = j mod 32 \<Longrightarrow> i = j"
  by (metis div_mult_mod_eq)

lemma upd_elem_bit:
  assumes "wf_bitmap b" "idx < bit_cnt b"
    and f: "\<And>e n. n < 32 \<Longrightarrow> bit (f e) n = (if n = unat idx mod 32 then g (bit e n) else bit e n)"
  shows "\<exists>b'. upd_elem b (elem_idx idx) f = Some b' \<and> wf_bitmap b' \<and> bit_cnt b' = bit_cnt b
    \<and> bits_of b' = (bits_of b)[unat idx := g (bits_of b ! unat idx)]"
proof -
  have i: "unat idx < unat (bit_cnt b)" using assms(2) by (simp add: word_less_nat_alt)
  have k: "unat idx div 32 < length (bits b)" using wf_bitmap_idx assms(1) i by blast
  have eq: "bit_at (b\<lparr>bits := (bits b)[unat idx div 32 := f (bits b ! (unat idx div 32))]\<rparr>) j
      = (if j = unat idx then g (bit_at b j) else bit_at b j)" for j
    using k div_mod_32_eq [of j "unat idx"] by (auto simp: bit_at_def nth_list_update f)
  show ?thesis
    using k assms(1) i by (auto simp: upd_elem_def wf_bitmap_def eq intro!: nth_equalityI simp: nth_list_update)
qed

lemma bitmap_mark_bits:
  assumes "wf_bitmap b" "idx < bit_cnt b"
  shows "\<exists>b'. bitmap_mark b idx = Some b' \<and> wf_bitmap b' \<and> bit_cnt b' = bit_cnt b
    \<and> bits_of b' = (bits_of b)[unat idx := True]"
  using upd_elem_bit [OF assms, of "\<lambda>e. e OR bit_mask idx" "\<lambda>_. True"]
  by (auto simp: bitmap_mark_def bit_or_iff bit_bit_mask)

lemma bitmap_reset_bits:
  assumes "wf_bitmap b" "idx < bit_cnt b"
  shows "\<exists>b'. bitmap_reset b idx = Some b' \<and> wf_bitmap b' \<and> bit_cnt b' = bit_cnt b
    \<and> bits_of b' = (bits_of b)[unat idx := False]"
  using upd_elem_bit [OF assms, of "\<lambda>e. e AND NOT (bit_mask idx)" "\<lambda>_. False"]
  by (auto simp: bitmap_reset_def bit_and_iff bit_not_iff bit_bit_mask)

lemma bitmap_flip_bits:
  assumes "wf_bitmap b" "idx < bit_cnt b"
  shows "\<exists>b'. bitmap_flip b idx = Some b' \<and> wf_bitmap b' \<and> bit_cnt b' = bit_cnt b
    \<and> bits_of b' = (bits_of b)[unat idx := \<not> bits_of b ! unat idx]"
  using upd_elem_bit [OF assms, of "\<lambda>e. e XOR bit_mask idx" Not]
  by (auto simp: bitmap_flip_def bit_xor_iff bit_bit_mask)

lemma bitmap_set_bits:
  assumes "wf_bitmap b" "idx < bit_cnt b"
  shows "\<exists>b'. bitmap_set b idx v = Some b' \<and> wf_bitmap b' \<and> bit_cnt b' = bit_cnt b
    \<and> bits_of b' = (bits_of b)[unat idx := v]"
  using bitmap_mark_bits [OF assms] bitmap_reset_bits [OF assms] assms(2)
  by (auto simp: bitmap_set_def)

lemma bitmap_test_bits:
  assumes "wf_bitmap b" "idx < bit_cnt b"
  shows "bitmap_test b idx = Some (bits_of b ! unat idx)"
  using assms wf_bitmap_idx [of b "unat idx"]
  by (simp add: bitmap_test_def word_less_nat_alt and_bit_mask bit_at_def)


section \<open>Ranges of bits\<close>

definition set_range :: "'a list \<Rightarrow> nat \<Rightarrow> nat \<Rightarrow> 'a \<Rightarrow> 'a list" where
  "set_range xs s n v = map (\<lambda>j. if s \<le> j \<and> j < s + n then v else xs ! j) [0..<length xs]"

definition group_at :: "bool list \<Rightarrow> nat \<Rightarrow> bool \<Rightarrow> nat \<Rightarrow> bool" where
  "group_at xs n v i \<longleftrightarrow> i + n \<le> length xs \<and> (\<not> v) \<notin> set (take n (drop i xs))"

lemma length_set_range [simp]: "length (set_range xs s n v) = length xs"
  by (simp add: set_range_def)

lemma nth_set_range:
  "j < length xs \<Longrightarrow> set_range xs s n v ! j = (if s \<le> j \<and> j < s + n then v else xs ! j)"
  by (simp add: set_range_def)

lemma set_range_0 [simp]: "set_range xs s 0 v = xs"
  by (auto intro!: nth_equalityI simp: nth_set_range)

lemma set_range_Suc: "set_range (xs[s := v]) (Suc s) n v = set_range xs s (Suc n) v"
  by (auto intro!: nth_equalityI simp: nth_set_range nth_list_update)

lemma take_Suc_drop: "i < length xs \<Longrightarrow> take (Suc n) (drop i xs) = xs ! i # take n (drop (Suc i) xs)"
  by (simp add: Cons_nth_drop_Suc [symmetric])

lemma bitmap_set_loop_bits:
  assumes "wf_bitmap b" "unat (start + i) + n \<le> unat (bit_cnt b)"
  shows "\<exists>b'. bitmap_set_loop n b start i v = Some b' \<and> wf_bitmap b' \<and> bit_cnt b' = bit_cnt b
    \<and> bits_of b' = set_range (bits_of b) (unat (start + i)) n v"
  using assms
proof (induction n arbitrary: b i)
  case (Suc n)
  have lt: "start + i < bit_cnt b" using Suc.prems(2) by (simp add: word_less_nat_alt)
  obtain b1 where b1: "bitmap_set b (start + i) v = Some b1" "wf_bitmap b1" "bit_cnt b1 = bit_cnt b"
    "bits_of b1 = (bits_of b)[unat (start + i) := v]"
    using bitmap_set_bits [OF Suc.prems(1) lt] by blast
  have "unat (start + (i + 1)) = Suc (unat (start + i))"
    using unat_inc [OF lt] by (simp add: add.assoc)
  then show ?case
    using Suc.IH [of b1 "i + 1"] Suc.prems(2) b1 by (auto simp: set_range_Suc)
qed simp

lemma bitmap_set_loop_out:
  assumes "wf_bitmap b" "unat (start + i) \<le> unat (bit_cnt b)" "unat (bit_cnt b) < unat (start + i) + n"
  shows "bitmap_set_loop n b start i v = None"
  using assms
proof (induction n arbitrary: b i)
  case (Suc n)
  show ?case
  proof (cases "start + i < bit_cnt b")
    case True
    obtain b1 where b1: "bitmap_set b (start + i) v = Some b1" "wf_bitmap b1" "bit_cnt b1 = bit_cnt b"
      using bitmap_set_bits [OF Suc.prems(1) True] by blast
    have "unat (start + (i + 1)) = Suc (unat (start + i))"
      using unat_inc [OF True] by (simp add: add.assoc)
    then show ?thesis using Suc.IH [of b1 "i + 1"] Suc.prems True b1 by (auto simp: word_less_nat_alt)
  next
    case False
    then show ?thesis by (simp add: bitmap_set_def)
  qed
qed simp

lemma bitmap_set_multiple_bits:
  assumes "wf_bitmap b" "unat start + unat cnt \<le> unat (bit_cnt b)"
  shows "\<exists>b'. bitmap_set_multiple b start cnt v = Some b' \<and> wf_bitmap b' \<and> bit_cnt b' = bit_cnt b
    \<and> bits_of b' = set_range (bits_of b) (unat start) (unat cnt) v"
proof -
  have "unat (start + cnt) = unat start + unat cnt"
    using assms(2) unat_lt2p [of "bit_cnt b"] by (intro unat_add_lem [THEN iffD1]) simp
  then show ?thesis
    using bitmap_set_loop_bits [of b start 0 "unat cnt" v] assms
    by (auto simp: bitmap_set_multiple_def word_le_nat_alt)
qed

lemma bitmap_set_multiple_out:
  assumes "wf_bitmap b" "unat (bit_cnt b) < unat start + unat cnt"
  shows "bitmap_set_multiple b start cnt v = None"
  using bitmap_set_loop_out [of b start 0 "unat cnt" v] assms
  by (auto simp: bitmap_set_multiple_def kassert_def word_le_nat_alt)

lemma bitmap_set_all_bits:
  assumes "wf_bitmap b"
  shows "\<exists>b'. bitmap_set_all b v = Some b' \<and> wf_bitmap b' \<and> bit_cnt b' = bit_cnt b
    \<and> bits_of b' = replicate (unat (bit_cnt b)) v"
proof -
  have "set_range (bits_of b) 0 (unat (bit_cnt b)) v = replicate (unat (bit_cnt b)) v"
    by (auto intro!: nth_equalityI simp: nth_set_range)
  then show ?thesis
    using bitmap_set_multiple_bits [OF assms, of 0 "bit_cnt b" v]
    by (auto simp: bitmap_set_all_def bitmap_size_def)
qed

lemma bitmap_count_loop_bits:
  assumes "wf_bitmap b" "unat (start + i) + n \<le> unat (bit_cnt b)"
  shows "bitmap_count_loop n b start i v c
    = Some (c + of_nat (count_list (take n (drop (unat (start + i)) (bits_of b))) v))"
  using assms(2)
proof (induction n arbitrary: i c)
  case (Suc n)
  have lt: "start + i < bit_cnt b" using Suc.prems by (simp add: word_less_nat_alt)
  have "unat (start + (i + 1)) = Suc (unat (start + i))"
    using unat_inc [OF lt] by (simp add: add.assoc)
  then show ?case
    using Suc.IH [of "i + 1"] Suc.prems lt
    by (simp add: bitmap_test_bits [OF assms(1) lt] take_Suc_drop)
qed simp

lemma bitmap_contains_loop_bits:
  assumes "wf_bitmap b" "unat (start + i) + n \<le> unat (bit_cnt b)"
  shows "bitmap_contains_loop n b start i v
    = Some (v \<in> set (take n (drop (unat (start + i)) (bits_of b))))"
  using assms(2)
proof (induction n arbitrary: i)
  case (Suc n)
  have lt: "start + i < bit_cnt b" using Suc.prems by (simp add: word_less_nat_alt)
  have "unat (start + (i + 1)) = Suc (unat (start + i))"
    using unat_inc [OF lt] by (simp add: add.assoc)
  then show ?case
    using Suc.IH [of "i + 1"] Suc.prems lt
    by (auto simp: bitmap_test_bits [OF assms(1) lt] take_Suc_drop)
qed simp

lemma bitmap_contains_bits:
  assumes "wf_bitmap b" "unat start + unat cnt \<le> unat (bit_cnt b)"
  shows "bitmap_contains b start cnt v = Some (v \<in> set (take (unat cnt) (drop (unat start) (bits_of b))))"
proof -
  have "unat (start + cnt) = unat start + unat cnt"
    using assms(2) unat_lt2p [of "bit_cnt b"] by (intro unat_add_lem [THEN iffD1]) simp
  then show ?thesis
    using bitmap_contains_loop_bits [of b start 0 "unat cnt" v] assms
    by (simp add: bitmap_contains_def word_le_nat_alt)
qed

lemma bitmap_count_bits:
  assumes "wf_bitmap b" "unat start + unat cnt \<le> unat (bit_cnt b)"
  shows "bitmap_count b start cnt v
    = Some (of_nat (count_list (take (unat cnt) (drop (unat start) (bits_of b))) v))"
proof -
  have "unat (start + cnt) = unat start + unat cnt"
    using assms(2) unat_lt2p [of "bit_cnt b"] by (intro unat_add_lem [THEN iffD1]) simp
  then show ?thesis
    using bitmap_count_loop_bits [of b start 0 "unat cnt" v 0] assms
    by (simp add: bitmap_count_def word_le_nat_alt)
qed

section \<open>Scanning and allocation\<close>

definition scan_result :: "nat option \<Rightarrow> u32" where
  "scan_result r = (case r of Some i \<Rightarrow> of_nat i | None \<Rightarrow> BITMAP_ERROR)"

definition first_group :: "bool list \<Rightarrow> nat \<Rightarrow> nat \<Rightarrow> bool \<Rightarrow> nat option" where
  "first_group xs start n v = find (group_at xs n v) [start..<Suc (length xs)]"

lemma unat_BITMAP_ERROR [simp]: "unat BITMAP_ERROR = 2 ^ 32 - 1"
  by (simp add: BITMAP_ERROR_def unsigned_minus_1_eq_mask mask_eq_exp_minus_1)

lemma first_group_step:
  "i \<le> length xs \<Longrightarrow> first_group xs i n v = (if group_at xs n v i then Some i else first_group xs (Suc i) n v)"
  by (simp add: first_group_def upt_conv_Cons del: upt_Suc)

lemma first_group_beyond: "length xs < i + n \<Longrightarrow> first_group xs i n v = None"
  by (auto simp: first_group_def group_at_def find_None_iff)

lemma first_group_Some:
  assumes "first_group xs start n v = Some i"
  shows "start \<le> i" "group_at xs n v i" "start \<le> j \<Longrightarrow> j < i \<Longrightarrow> \<not> group_at xs n v j"
proof -
  obtain k where k: "k < Suc (length xs) - start" "group_at xs n v i" "i = [start..<Suc (length xs)] ! k"
    "\<forall>j<k. \<not> group_at xs n v ([start..<Suc (length xs)] ! j)"
    using assms by (auto simp: first_group_def find_Some_iff simp del: upt_Suc)
  then have i: "i = start + k" by (simp del: upt_Suc)
  show "start \<le> i" "group_at xs n v i" using i k(2) by auto
  show "\<not> group_at xs n v j" if "start \<le> j" "j < i"
    using k(1) k(4) [rule_format, of "j - start"] that i by (simp del: upt_Suc)
qed

lemma first_group_None:
  "first_group xs start n v = None \<Longrightarrow> start \<le> j \<Longrightarrow> \<not> group_at xs n v j"
  by (auto simp: first_group_def find_None_iff group_at_def simp del: upt_Suc)

lemma bitmap_scan_loop_bits:
  assumes wf: "wf_bitmap b" and cnt: "0 < cnt" "cnt \<le> bit_cnt b"
  shows "bitmap_scan_loop b i (bit_cnt b - cnt) cnt v
    = Some (scan_result (first_group (bits_of b) (unat i) (unat cnt) v))"
proof (induction "Suc (unat (bit_cnt b - cnt)) - unat i" arbitrary: i)
  case 0
  then have "unat (bit_cnt b) < unat i + unat cnt"
    using cnt(2) by (simp add: unat_sub)
  then show ?case
    using 0 by (simp add: bitmap_scan_loop.simps first_group_beyond scan_result_def word_le_nat_alt)
next
  case (Suc n)
  have le: "unat i + unat cnt \<le> unat (bit_cnt b)" "i \<le> bit_cnt b - cnt"
    using Suc.hyps(2) cnt(2) by (auto simp: unat_sub word_le_nat_alt)
  have pos: "0 < unat cnt" using cnt(1) by (simp add: word_less_nat_alt)
  have "i < bit_cnt b" using le(1) pos by (simp add: word_less_nat_alt)
  then have inc: "unat (i + 1) = Suc (unat i)" by (rule unat_inc)
  have IH: "bitmap_scan_loop b (i + 1) (bit_cnt b - cnt) cnt v
    = Some (scan_result (first_group (bits_of b) (Suc (unat i)) (unat cnt) v))"
    using Suc.hyps(1) [of "i + 1"] Suc.hyps(2) inc by simp
  have c: "bitmap_contains b i cnt (\<not> v) = Some (\<not> group_at (bits_of b) (unat cnt) v (unat i))"
    using bitmap_contains_bits [OF wf le(1), of "\<not> v"] le(1) by (simp add: group_at_def)
  show ?case
    using le IH c by (subst bitmap_scan_loop.simps) (simp add: first_group_step scan_result_def)
qed

lemma bitmap_scan_bits:
  assumes "wf_bitmap b" "start \<le> bit_cnt b"
  shows "bitmap_scan b start cnt v = Some (scan_result (first_group (bits_of b) (unat start) (unat cnt) v))"
proof -
  consider "bit_cnt b < cnt" | "cnt = 0" | "0 < cnt" "cnt \<le> bit_cnt b"
    by (metis linorder_not_le word_neq_0_conv)
  then show ?thesis
  proof cases
    case 1
    then show ?thesis
      using assms by (simp add: bitmap_scan_def first_group_beyond scan_result_def word_less_nat_alt
          word_le_nat_alt)
  next
    case 2
    have "first_group (bits_of b) (unat start) 0 v = Some (unat start)"
      using assms(2) by (simp add: first_group_step group_at_def word_le_nat_alt)
    moreover have "bitmap_contains b start 0 (\<not> v) = Some False"
      using bitmap_contains_bits [OF assms(1), of start 0] assms(2) by (simp add: word_le_nat_alt)
    ultimately show ?thesis
      using 2 assms(2) by (simp add: bitmap_scan_def bitmap_scan_loop.simps scan_result_def)
  next
    case 3
    then show ?thesis
      using bitmap_scan_loop_bits [OF assms(1) 3] assms(2) by (simp add: bitmap_scan_def)
  qed
qed

lemma bitmap_scan_and_flip_bits:
  assumes wf: "wf_bitmap b" and le: "start \<le> bit_cnt b" and pos: "0 < cnt"
  shows "\<exists>b'. bitmap_scan_and_flip b start cnt v
      = Some (scan_result (first_group (bits_of b) (unat start) (unat cnt) v), b')
    \<and> wf_bitmap b' \<and> bit_cnt b' = bit_cnt b
    \<and> bits_of b' = (case first_group (bits_of b) (unat start) (unat cnt) v of
        None \<Rightarrow> bits_of b | Some i \<Rightarrow> set_range (bits_of b) i (unat cnt) (\<not> v))"
proof (cases "first_group (bits_of b) (unat start) (unat cnt) v")
  case None
  then show ?thesis
    using wf bitmap_scan_bits [OF wf le, of cnt v] by (simp add: bitmap_scan_and_flip_def scan_result_def)
next
  case (Some i)
  have g: "i + unat cnt \<le> unat (bit_cnt b)" using first_group_Some(2) [OF Some] by (simp add: group_at_def)
  have lt: "i < 2 ^ 32 - 1" using g pos unat_lt2p [of "bit_cnt b"] by (simp add: word_less_nat_alt)
  then have u: "unat (of_nat i :: u32) = i" by (simp add: unat_of_nat)
  have ne: "(of_nat i :: u32) \<noteq> BITMAP_ERROR"
  proof
    assume "(of_nat i :: u32) = BITMAP_ERROR"
    then have "i = unat BITMAP_ERROR" using u by simp
    then show False using lt by simp
  qed
  show ?thesis
    using Some ne u g bitmap_scan_bits [OF wf le, of cnt v] bitmap_set_multiple_bits [OF wf, of "of_nat i" cnt "\<not> v"]
    by (auto simp: bitmap_scan_and_flip_def scan_result_def)
qed

lemma bitmap_create_bits:
  assumes "unat n \<le> 32 * length junk"
  shows "\<exists>b. bitmap_create True True junk n = Some (Some b) \<and> wf_bitmap b \<and> bit_cnt b = n
    \<and> bits_of b = replicate (unat n) False"
  using bitmap_set_all_bits [of "\<lparr>bit_cnt = n, bits = junk\<rparr>" False] assms
  by (auto simp: bitmap_create_def wf_bitmap_def)

lemma bitmap_create_in_buf_bits:
  assumes "unat n \<le> 32 * length junk" "bitmap_buf_size n \<le> block_size"
  shows "\<exists>b. bitmap_create_in_buf n junk block_size = Some b \<and> wf_bitmap b \<and> bit_cnt b = n
    \<and> bits_of b = replicate (unat n) False"
  using bitmap_set_all_bits [of "\<lparr>bit_cnt = n, bits = junk\<rparr>" False] assms
  by (auto simp: bitmap_create_in_buf_def wf_bitmap_def)

lemma elem_cnt_bits:
  assumes "unat n + 31 < 2 ^ 32"
  shows "unat n \<le> 32 * unat (elem_cnt n)" "32 * unat (elem_cnt n) < unat n + 32"
proof -
  have "unat (31 + n) = unat n + 31"
    using unat_add_lem [THEN iffD1, of "31 :: u32" n] assms by simp
  moreover have "n + ELEM_BITS - 1 = 31 + n" by (simp add: ELEM_BITS_def)
  ultimately have "unat (elem_cnt n) = (unat n + 31) div 32"
    by (simp add: elem_cnt_def unat_div_distrib ELEM_BITS_def)
  then show "unat n \<le> 32 * unat (elem_cnt n)" "32 * unat (elem_cnt n) < unat n + 32" by linarith+
qed

end
