(* ===== verification/Bitmap_Alloc.thy ===== *)
theory Bitmap_Alloc
  imports Bitmap
begin

text \<open>
  The contract of a first-fit allocator of runs of units, and the proof that a kernel bitmap
  with \<open>bitmap_scan_and_flip\<close> and \<open>bitmap_set_multiple\<close> fulfils it.  The page pools
  (\<open>threads/palloc.c\<close>), the free map (\<open>filesys/free-map.c\<close>) and the swap slots
  (\<open>vm/swap.c\<close>) are its clients.
\<close>

section \<open>The allocator contract\<close>

text \<open>
  The page allocator, the free map of the file system and the swap slots all allocate runs of
  units from a bitmap.  \<open>run_allocator\<close> is what they rely on: a request either takes the
  returned run, which was entirely free, or reports that no run of that length is free; a
  release makes a run free again.
\<close>

definition run_of :: "u32 \<Rightarrow> u32 \<Rightarrow> nat set" where
  "run_of i n = {unat i..<unat i + unat n}"

datatype alloc_req = Get u32 | Put nat

text \<open>A client's history: requests and releases of runs it holds, newest first.\<close>

fun run_client :: "('s \<Rightarrow> u32 \<Rightarrow> (u32 \<times> 's) option) \<Rightarrow> ('s \<Rightarrow> u32 \<Rightarrow> u32 \<Rightarrow> 's option)
    \<Rightarrow> alloc_req list \<Rightarrow> 's \<Rightarrow> (u32 \<times> u32) list \<Rightarrow> ('s \<times> (u32 \<times> u32) list) option" where
  "run_client get rel [] s held = Some (s, held)"
| "run_client get rel (Get n # rs) s held = do {
     (i, s) \<leftarrow> get s n;
     run_client get rel rs s (if i = BITMAP_ERROR then held else (i, n) # held) }"
| "run_client get rel (Put k # rs) s held =
     (if k < length held then do {
        s \<leftarrow> rel s (fst (held ! k)) (snd (held ! k));
        run_client get rel rs s (take k held @ drop (Suc k) held) }
      else run_client get rel rs s held)"

definition runs_disjoint :: "(u32 \<times> u32) list \<Rightarrow> bool" where
  "runs_disjoint held \<longleftrightarrow> (\<forall>j < length held. \<forall>k < length held. j \<noteq> k \<longrightarrow>
     run_of (fst (held ! j)) (snd (held ! j)) \<inter> run_of (fst (held ! k)) (snd (held ! k)) = {})"

definition held_units :: "(u32 \<times> u32) list \<Rightarrow> nat set" where
  "held_units held = (\<Union>(i, n) \<in> set held. run_of i n)"

lemma held_units_simps [simp]:
  "held_units [] = {}"
  "held_units ((i, n) # held) = run_of i n \<union> held_units held"
  "held_units (xs @ ys) = held_units xs \<union> held_units ys"
  by (auto simp: held_units_def)

lemma runs_disjoint_Cons:
  "runs_disjoint ((i, n) # held) \<longleftrightarrow> runs_disjoint held \<and> run_of i n \<inter> held_units held = {}"
proof -
  have "runs_disjoint (x # held) \<longleftrightarrow> runs_disjoint held
      \<and> (\<forall>k < length held. run_of (fst x) (snd x) \<inter> run_of (fst (held ! k)) (snd (held ! k)) = {})" for x
    unfolding runs_disjoint_def by (simp add: All_less_Suc2 Int_commute) blast
  then show ?thesis
    by (auto simp: held_units_def set_conv_nth disjoint_iff) (metis fst_conv snd_conv surj_pair)+
qed

lemma runs_disjoint_append:
  "runs_disjoint (xs @ ys) \<longleftrightarrow> runs_disjoint xs \<and> runs_disjoint ys \<and> held_units xs \<inter> held_units ys = {}"
proof (induction xs)
  case (Cons x xs)
  then show ?case by (cases x) (auto simp: runs_disjoint_Cons)
qed (simp add: runs_disjoint_def)

lemma split_runs:
  assumes "runs_disjoint held" "held = xs @ (i, n) # ys"
  shows "runs_disjoint (xs @ ys)" "held_units held = run_of i n \<union> held_units (xs @ ys)"
    "run_of i n \<inter> held_units (xs @ ys) = {}"
  using assms by (auto simp: runs_disjoint_append runs_disjoint_Cons)

locale run_allocator =
  fixes inv :: "'s \<Rightarrow> bool"
    and used :: "'s \<Rightarrow> nat set"
    and limit :: "'s \<Rightarrow> nat"
    and get :: "'s \<Rightarrow> u32 \<Rightarrow> (u32 \<times> 's) option"
    and rel :: "'s \<Rightarrow> u32 \<Rightarrow> u32 \<Rightarrow> 's option"
  assumes get_returns: "inv s \<Longrightarrow> 0 < n \<Longrightarrow> \<exists>i s'. get s n = Some (i, s')"
    and get_taken: "inv s \<Longrightarrow> 0 < n \<Longrightarrow> get s n = Some (i, s') \<Longrightarrow> i \<noteq> BITMAP_ERROR \<Longrightarrow>
      inv s' \<and> limit s' = limit s \<and> run_of i n \<subseteq> {..<limit s} \<and> run_of i n \<inter> used s = {}
      \<and> used s' = used s \<union> run_of i n"
    and get_full: "inv s \<Longrightarrow> 0 < n \<Longrightarrow> get s n = Some (BITMAP_ERROR, s') \<Longrightarrow>
      inv s' \<and> limit s' = limit s \<and> used s' = used s"
    and get_complete: "inv s \<Longrightarrow> 0 < n \<Longrightarrow> get s n = Some (BITMAP_ERROR, s') \<Longrightarrow>
      j + unat n \<le> limit s \<Longrightarrow> {j..<j + unat n} \<inter> used s \<noteq> {}"
    and rel_returns: "inv s \<Longrightarrow> 0 < n \<Longrightarrow> run_of i n \<subseteq> used s \<Longrightarrow> \<exists>s'. rel s i n = Some s'
      \<and> inv s' \<and> limit s' = limit s \<and> used s' = used s - run_of i n"
begin

lemma get_rel:
  assumes "inv s" "0 < n" "get s n = Some (i, s')" "i \<noteq> BITMAP_ERROR"
  shows "\<exists>s''. rel s' i n = Some s'' \<and> inv s'' \<and> used s'' = used s"
  using get_taken [OF assms] rel_returns [of s' n i] assms(2) by auto

lemma get_get_disjoint:
  assumes "inv s" "0 < n" "get s n = Some (i, s')" "i \<noteq> BITMAP_ERROR"
    and "0 < m" "get s' m = Some (j, s'')" "j \<noteq> BITMAP_ERROR"
  shows "run_of i n \<inter> run_of j m = {}"
  using get_taken [OF assms(1-4)] get_taken [OF _ assms(5-7)] by auto

lemma client_safe:
  assumes "inv s" "runs_disjoint held" "used s = base \<union> held_units held" "base \<inter> held_units held = {}"
    and "Get 0 \<notin> set rs" "0 \<notin> snd ` set held"
  shows "\<exists>s' held'. run_client get rel rs s held = Some (s', held') \<and> inv s' \<and> runs_disjoint held'
    \<and> used s' = base \<union> held_units held' \<and> base \<inter> held_units held' = {} \<and> limit s' = limit s"
  using assms
proof (induction rs arbitrary: s held)
  case (Cons r rs)
  show ?case
  proof (cases r)
    case (Get n)
    then have n: "0 < n" using Cons.prems(5) by (auto simp: word_gt_0)
    obtain i s1 where g: "get s n = Some (i, s1)" using get_returns [OF Cons.prems(1) n] by blast
    show ?thesis
    proof (cases "i = BITMAP_ERROR")
      case True
      then show ?thesis
        using Cons.IH [of s1 held] Cons.prems get_full [OF Cons.prems(1) n, of s1] g Get by auto
    next
      case False
      have t: "inv s1" "limit s1 = limit s" "run_of i n \<inter> used s = {}" "used s1 = used s \<union> run_of i n"
        using get_taken [OF Cons.prems(1) n g False] by auto
      have d: "runs_disjoint ((i, n) # held)" "used s1 = base \<union> held_units ((i, n) # held)"
        "base \<inter> held_units ((i, n) # held) = {}"
        using t Cons.prems by (auto simp: runs_disjoint_Cons)
      show ?thesis using Cons.IH [OF t(1) d] Cons.prems(5,6) g Get False t(2) n by auto
    qed
  next
    case (Put k)
    show ?thesis
    proof (cases "k < length held")
      case True
      define held' where "held' = take k held @ drop (Suc k) held"
      obtain i n where in_def: "held ! k = (i, n)" by fastforce
      have split: "held = take k held @ (i, n) # drop (Suc k) held"
        using id_take_nth_drop [OF True] in_def by simp
      have d: "runs_disjoint held'" "held_units held = run_of i n \<union> held_units held'"
        "run_of i n \<inter> held_units held' = {}"
        using split_runs [OF Cons.prems(2) split] by (simp_all add: held'_def)
      have n: "0 < n" "0 \<notin> snd ` set held'"
        using Cons.prems(6) nth_mem [OF True] in_def
        by (force simp: held'_def word_gt_0 dest: in_set_takeD in_set_dropD)+
      obtain s1 where r: "rel s i n = Some s1" "inv s1" "limit s1 = limit s" "used s1 = used s - run_of i n"
        using rel_returns [OF Cons.prems(1) n(1), of i] d(2) Cons.prems(3) by auto
      have "used s1 = base \<union> held_units held'" "base \<inter> held_units held' = {}"
        using r(4) Cons.prems(3,4) d by auto
      then show ?thesis
        using Cons.IH [OF r(2) d(1)] Cons.prems(5) n(2) r Put True in_def held'_def by auto
    next
      case False
      then show ?thesis using Cons.IH [OF Cons.prems(1-4)] Cons.prems(5,6) Put by auto
    qed
  qed
qed simp

end

definition bitmap_used :: "bitmap \<Rightarrow> nat set" where
  "bitmap_used b = {i. i < unat (bit_cnt b) \<and> bits_of b ! i}"

lemma group_at_free:
  "group_at (bits_of b) n False j \<longleftrightarrow> j + n \<le> unat (bit_cnt b) \<and> {j..<j + n} \<inter> bitmap_used b = {}"
proof -
  have "True \<notin> set (take n (drop j (bits_of b))) \<longleftrightarrow> (\<forall>i<n. \<not> bits_of b ! (j + i))"
    if "j + n \<le> unat (bit_cnt b)"
    using that by (simp add: in_set_conv_nth del: nth_bits_of)
  moreover have "(\<forall>i<n. \<not> bits_of b ! (j + i)) \<longleftrightarrow> (\<forall>x\<in>{j..<j + n}. \<not> bits_of b ! x)"
    by (metis atLeastLessThan_iff le_add1 le_Suc_ex nat_add_left_cancel_less)
  moreover have "(\<forall>x\<in>{j..<j + n}. \<not> bits_of b ! x) \<longleftrightarrow> {j..<j + n} \<inter> bitmap_used b = {}"
    if "j + n \<le> unat (bit_cnt b)"
    using that by (auto simp: bitmap_used_def disjoint_iff simp del: nth_bits_of)
  ultimately show ?thesis unfolding group_at_def length_bits_of not_False_eq_True by blast
qed

lemma bitmap_used_set_range:
  assumes "bits_of b' = set_range (bits_of b) j n v" "bit_cnt b' = bit_cnt b" "j + n \<le> unat (bit_cnt b)"
  shows "bitmap_used b' = (if v then bitmap_used b \<union> {j..<j + n} else bitmap_used b - {j..<j + n})"
  using assms by (auto simp: bitmap_used_def nth_set_range split: if_splits simp del: nth_bits_of)

lemma bitmap_get_used:
  assumes wf: "wf_bitmap b" and pos: "0 < n" and get: "bitmap_scan_and_flip b 0 n False = Some (i, b')"
  shows "wf_bitmap b'" "bit_cnt b' = bit_cnt b"
    "i \<noteq> BITMAP_ERROR \<Longrightarrow> unat i + unat n \<le> unat (bit_cnt b) \<and> run_of i n \<inter> bitmap_used b = {}
       \<and> bitmap_used b' = bitmap_used b \<union> run_of i n"
    "i = BITMAP_ERROR \<Longrightarrow> bitmap_used b' = bitmap_used b
       \<and> (\<forall>j. j + unat n \<le> unat (bit_cnt b) \<longrightarrow> {j..<j + unat n} \<inter> bitmap_used b \<noteq> {})"
proof -
  let ?r = "first_group (bits_of b) 0 (unat n) False"
  have r: "i = scan_result ?r" "wf_bitmap b'" "bit_cnt b' = bit_cnt b"
    "bits_of b' = (case ?r of None \<Rightarrow> bits_of b | Some i \<Rightarrow> set_range (bits_of b) i (unat n) True)"
    using bitmap_scan_and_flip_bits [OF wf _ pos, of 0 False] get by (auto split: option.split)
  show "wf_bitmap b'" "bit_cnt b' = bit_cnt b" by fact+
  show "unat i + unat n \<le> unat (bit_cnt b) \<and> run_of i n \<inter> bitmap_used b = {}
       \<and> bitmap_used b' = bitmap_used b \<union> run_of i n" if ne: "i \<noteq> BITMAP_ERROR"
  proof -
    obtain k where k: "?r = Some k" using ne r(1) by (cases ?r) (auto simp: scan_result_def)
    have g: "k + unat n \<le> unat (bit_cnt b)" "{k..<k + unat n} \<inter> bitmap_used b = {}"
      using first_group_Some(2) [OF k] by (simp_all add: group_at_free)
    have "k < 2 ^ 32" using g(1) unat_lt2p [of "bit_cnt b"] by simp
    then have "unat i = k" using r(1) k by (simp add: scan_result_def unat_of_nat)
    then show ?thesis
      using g r(3,4) k bitmap_used_set_range [of b' b k "unat n" True] by (simp add: run_of_def)
  qed
  show "bitmap_used b' = bitmap_used b
       \<and> (\<forall>j. j + unat n \<le> unat (bit_cnt b) \<longrightarrow> {j..<j + unat n} \<inter> bitmap_used b \<noteq> {})"
    if e: "i = BITMAP_ERROR"
  proof (cases ?r)
    case None
    then show ?thesis
      using r(3,4) first_group_None [OF None] by (auto simp: group_at_free bitmap_used_def simp del: nth_bits_of)
  next
    case (Some k)
    have "k + unat n \<le> unat (bit_cnt b)" using first_group_Some(2) [OF Some] by (simp add: group_at_def)
    then have "k < 2 ^ 32 - 1" using pos unat_lt2p [of "bit_cnt b"] by (simp add: word_less_nat_alt)
    moreover have "unat (of_nat k :: u32) = 2 ^ 32 - 1"
      using e r(1) Some unat_BITMAP_ERROR by (simp add: scan_result_def)
    ultimately show ?thesis by (simp add: unat_of_nat)
  qed
qed

lemma bitmap_rel_used:
  assumes wf: "wf_bitmap b" and sub: "run_of i n \<subseteq> bitmap_used b" and in_range: "unat i + unat n \<le> unat (bit_cnt b)"
  shows "\<exists>b'. bitmap_set_multiple b i n False = Some b' \<and> wf_bitmap b' \<and> bit_cnt b' = bit_cnt b
    \<and> bitmap_used b' = bitmap_used b - run_of i n"
  using bitmap_set_multiple_bits [OF wf in_range, of False] bitmap_used_set_range [OF _ _ in_range, of _ False]
  by (auto simp: run_of_def)

lemma run_of_in_range:
  "run_of i n \<subseteq> {..<k} \<Longrightarrow> 0 < n \<Longrightarrow> unat i + unat n \<le> k"
  by (auto simp: run_of_def word_less_nat_alt atLeastLessThan_subset_iff lessThan_atLeast0)

interpretation bm: run_allocator wf_bitmap bitmap_used "\<lambda>b. unat (bit_cnt b)"
  "\<lambda>b n. bitmap_scan_and_flip b 0 n False"
  "\<lambda>b i n. bitmap_set_multiple b i n False"
proof unfold_locales
  show "\<exists>i b'. bitmap_scan_and_flip b 0 n False = Some (i, b')" if "wf_bitmap b" "0 < n" for b n
    using bitmap_scan_and_flip_bits [OF that(1) _ that(2), of 0 False] by auto
  show "wf_bitmap b' \<and> unat (bit_cnt b') = unat (bit_cnt b) \<and> run_of i n \<subseteq> {..<unat (bit_cnt b)}
      \<and> run_of i n \<inter> bitmap_used b = {} \<and> bitmap_used b' = bitmap_used b \<union> run_of i n"
    if "wf_bitmap b" "0 < n" "bitmap_scan_and_flip b 0 n False = Some (i, b')" "i \<noteq> BITMAP_ERROR" for b n i b'
    using bitmap_get_used [OF that(1-3)] that(4) by (auto simp: run_of_def)
  show "wf_bitmap b' \<and> unat (bit_cnt b') = unat (bit_cnt b) \<and> bitmap_used b' = bitmap_used b"
    if "wf_bitmap b" "0 < n" "bitmap_scan_and_flip b 0 n False = Some (BITMAP_ERROR, b')" for b n b'
    using bitmap_get_used [OF that] by auto
  show "{j..<j + unat n} \<inter> bitmap_used b \<noteq> {}"
    if "wf_bitmap b" "0 < n" "bitmap_scan_and_flip b 0 n False = Some (BITMAP_ERROR, b')"
      "j + unat n \<le> unat (bit_cnt b)" for b n b' j
    using bitmap_get_used(4) [OF that(1-3)] that(4) by auto
  show "\<exists>b'. bitmap_set_multiple b i n False = Some b' \<and> wf_bitmap b'
      \<and> unat (bit_cnt b') = unat (bit_cnt b) \<and> bitmap_used b' = bitmap_used b - run_of i n"
    if "wf_bitmap b" "0 < n" "run_of i n \<subseteq> bitmap_used b" for b i n
  proof -
    have "run_of i n \<subseteq> {..<unat (bit_cnt b)}" using that(3) by (auto simp: bitmap_used_def)
    then have "unat i + unat n \<le> unat (bit_cnt b)" using run_of_in_range that(2) by auto
    then show ?thesis using bitmap_rel_used [OF that(1,3)] by auto
  qed
qed

section \<open>Properties\<close>

text \<open>
  C26: \<open>bitmap_scan\<close> is first fit.  It always returns, and what it returns is the first index
  at or after \<open>start\<close> where \<open>cnt\<close> consecutive bits have the wanted value, or
  \<open>BITMAP_ERROR\<close> when there is no such index; the loop bound computed with wrapping
  \<open>size_t\<close> arithmetic never makes it miss or invent a group.
\<close>

theorem bitmap_scan_first_fit:
  assumes "wf_bitmap b" "start \<le> bit_cnt b" "0 < cnt"
  shows "\<exists>i. bitmap_scan b start cnt v = Some i \<and>
    (if i = BITMAP_ERROR then \<forall>j \<ge> unat start. \<not> group_at (bits_of b) (unat cnt) v j
     else start \<le> i \<and> group_at (bits_of b) (unat cnt) v (unat i)
       \<and> (\<forall>j. unat start \<le> j \<and> j < unat i \<longrightarrow> \<not> group_at (bits_of b) (unat cnt) v j))"
proof (cases "first_group (bits_of b) (unat start) (unat cnt) v")
  case None
  then show ?thesis
    using bitmap_scan_bits [OF assms(1,2), of cnt v] first_group_None [OF None] by (simp add: scan_result_def)
next
  case (Some k)
  note f = first_group_Some [OF Some]
  have "k + unat cnt \<le> unat (bit_cnt b)" using f(2) by (simp add: group_at_def)
  then have lt: "k < 2 ^ 32 - 1" using assms(3) unat_lt2p [of "bit_cnt b"] by (simp add: word_less_nat_alt)
  then have u: "unat (of_nat k :: u32) = k" by (simp add: unat_of_nat)
  then have "(of_nat k :: u32) \<noteq> BITMAP_ERROR" using lt unat_BITMAP_ERROR by force
  then show ?thesis
    using bitmap_scan_bits [OF assms(1,2), of cnt v] Some f u by (simp add: scan_result_def word_le_nat_alt)
qed

theorem bitmap_scan_first_fit_witness:
  "\<exists>i. bitmap_scan \<lparr>bit_cnt = 40, bits = [7, 255]\<rparr> 1 4 False = Some i \<and>
    (if i = BITMAP_ERROR then \<forall>j \<ge> unat (1::u32). \<not> group_at (bits_of \<lparr>bit_cnt = 40, bits = [7, 255]\<rparr>) (unat (4::u32)) False j
     else 1 \<le> i \<and> group_at (bits_of \<lparr>bit_cnt = 40, bits = [7, 255]\<rparr>) (unat (4::u32)) False (unat i)
       \<and> (\<forall>j. unat (1::u32) \<le> j \<and> j < unat i \<longrightarrow>
            \<not> group_at (bits_of \<lparr>bit_cnt = 40, bits = [7, 255]\<rparr>) (unat (4::u32)) False j))"
  by (rule bitmap_scan_first_fit) (simp_all add: wf_bitmap_def)

text \<open>
  C36: \<open>bitmap_set_multiple\<close> changes exactly the requested bits, and it panics exactly when the
  request does not fit in the bitmap, although the assertion \<open>start + cnt <= b->bit_cnt\<close> is
  computed modulo \<open>2^32\<close> and can be passed by a request that does not fit.
\<close>

theorem bitmap_set_multiple_exact:
  assumes "wf_bitmap b"
  shows "case bitmap_set_multiple b start cnt v of
      None \<Rightarrow> unat (bit_cnt b) < unat start + unat cnt
    | Some b' \<Rightarrow> unat start + unat cnt \<le> unat (bit_cnt b) \<and> wf_bitmap b' \<and> bit_cnt b' = bit_cnt b
        \<and> (\<forall>j < unat (bit_cnt b). bits_of b' ! j =
             (if unat start \<le> j \<and> j < unat start + unat cnt then v else bits_of b ! j))"
  using bitmap_set_multiple_bits [OF assms, of start cnt v] bitmap_set_multiple_out [OF assms, of start cnt v]
  by (cases "unat start + unat cnt \<le> unat (bit_cnt b)") (auto simp: nth_set_range simp del: nth_bits_of)

theorem bitmap_set_multiple_exact_witness:
  "case bitmap_set_multiple \<lparr>bit_cnt = 40, bits = [7, 255]\<rparr> 8 4294967292 True of
      None \<Rightarrow> (40::nat) < 8 + 4294967292
    | Some b' \<Rightarrow> unat (8::u32) + unat (4294967292::u32) \<le> 40 \<and> wf_bitmap b' \<and> bit_cnt b' = 40
        \<and> (\<forall>j < 40. bits_of b' ! j = (if 8 \<le> j \<and> j < 8 + 4294967292 then True
             else bits_of \<lparr>bit_cnt = 40, bits = [7, 255]\<rparr> ! j))"
  using bitmap_set_multiple_exact [of "\<lparr>bit_cnt = 40, bits = [7, 255]\<rparr>" 8 4294967292 True]
  by (simp add: wf_bitmap_def split: option.splits)

text \<open>
  C18: whatever sequence of allocations (\<open>bitmap_scan_and_flip\<close> from 0) and releases
  (\<open>bitmap_set_multiple\<close> to false) of runs it holds a client makes, the calls never panic, the
  runs it holds at the end are pairwise disjoint and disjoint from what others hold, and the bits
  in use are exactly those.
\<close>

theorem bitmap_allocator_safe:
  assumes "wf_bitmap b" "Get 0 \<notin> set rs"
  shows "\<exists>b' held. run_client (\<lambda>b n. bitmap_scan_and_flip b 0 n False)
      (\<lambda>b i n. bitmap_set_multiple b i n False) rs b [] = Some (b', held)
    \<and> wf_bitmap b' \<and> bit_cnt b' = bit_cnt b \<and> runs_disjoint held \<and> bitmap_used b \<inter> held_units held = {}
    \<and> bitmap_used b' = bitmap_used b \<union> held_units held"
proof -
  have d: "runs_disjoint []" by (simp add: runs_disjoint_def)
  show ?thesis
    using bm.client_safe [OF assms(1) d, of "bitmap_used b" rs] assms(2) by (auto simp: word_unat_eq_iff)
qed

theorem bitmap_allocator_safe_witness:
  "\<exists>b' held. run_client (\<lambda>b n. bitmap_scan_and_flip b 0 n False)
      (\<lambda>b i n. bitmap_set_multiple b i n False) [Get 3, Get 2, Put 1, Get 5] \<lparr>bit_cnt = 40, bits = [7, 255]\<rparr> [] = Some (b', held)
    \<and> wf_bitmap b' \<and> bit_cnt b' = 40 \<and> runs_disjoint held
    \<and> bitmap_used \<lparr>bit_cnt = 40, bits = [7, 255]\<rparr> \<inter> held_units held = {}
    \<and> bitmap_used b' = bitmap_used \<lparr>bit_cnt = 40, bits = [7, 255]\<rparr> \<union> held_units held"
  using bitmap_allocator_safe [of "\<lparr>bit_cnt = 40, bits = [7, 255]\<rparr>" "[Get 3, Get 2, Put 1, Get 5]"]
  by (simp add: wf_bitmap_def)

end
