(* ===== verification/Khash.thy ===== *)
theory Khash
  imports Prelude
begin

text \<open>
  The kernel's chained hash table, \<open>src/lib/kernel/hash.c\<close>.  A bucket is a
  \<open>struct list\<close>, here the sequence of its elements (the view that \<open>list.c\<close> was proved to
  implement); an element is identified with its address, so the type of elements is a
  parameter.  Sizes are 32-bit words.  \<open>malloc\<close> in \<open>hash_init\<close> and \<open>rehash\<close> is represented
  by its outcome \<open>got\<close>.  A bucket index outside the array, which would be undefined behaviour,
  and the removal of an element that is on no list (an assertion of \<open>list_remove\<close>) are \<open>None\<close>.
\<close>

section \<open>Model\<close>

record 'e hash_table =
  hash_elem_cnt :: u32
  hash_bucket_cnt :: u32
  buckets :: "'e list list"
  hash_fn :: "'e \<Rightarrow> u32"
  less_fn :: "'e \<Rightarrow> 'e \<Rightarrow> bool"

text \<open>Destructors and actions are called on the elements in the order of the returned list.\<close>

definition hash_clear :: "'e hash_table \<Rightarrow> bool \<Rightarrow> 'e hash_table \<times> 'e list" where
  "hash_clear h destructor =
     (h\<lparr>buckets := map (\<lambda>_. []) (buckets h), hash_elem_cnt := 0\<rparr>,
      if destructor then concat (buckets h) else [])"

definition hash_init :: "bool \<Rightarrow> 'e list list \<Rightarrow> ('e \<Rightarrow> u32) \<Rightarrow> ('e \<Rightarrow> 'e \<Rightarrow> bool) \<Rightarrow> bool \<times> 'e hash_table" where
  "hash_init got junk hash lt = (let h = \<lparr>hash_elem_cnt = 0, hash_bucket_cnt = 4, buckets = (if got then junk else []),
      hash_fn = hash, less_fn = lt\<rparr> in
     if got then (True, fst (hash_clear h False)) else (False, h))"

definition hash_destroy :: "'e hash_table \<Rightarrow> bool \<Rightarrow> 'e list" where
  "hash_destroy h destructor = (if destructor then snd (hash_clear h True) else [])"

definition find_bucket :: "'e hash_table \<Rightarrow> 'e \<Rightarrow> u32" where
  "find_bucket h e = hash_fn h e AND (hash_bucket_cnt h - 1)"

definition get_bucket :: "'e hash_table \<Rightarrow> u32 \<Rightarrow> 'e list option" where
  "get_bucket h i = (if unat i < length (buckets h) then Some (buckets h ! unat i) else None)"

primrec find_elem :: "('e \<Rightarrow> 'e \<Rightarrow> bool) \<Rightarrow> 'e list \<Rightarrow> 'e \<Rightarrow> 'e option" where
  "find_elem lt [] e = None"
| "find_elem lt (hi # his) e = (if \<not> lt hi e \<and> \<not> lt e hi then Some hi else find_elem lt his e)"

definition turn_off_least_1bit :: "u32 \<Rightarrow> u32" where
  "turn_off_least_1bit x = x AND (x - 1)"

definition is_power_of_2 :: "u32 \<Rightarrow> bool" where
  "is_power_of_2 x \<longleftrightarrow> x \<noteq> 0 \<and> turn_off_least_1bit x = 0"

partial_function (option) reduce_to_power_of_2 :: "u32 \<Rightarrow> u32 option" where
  "reduce_to_power_of_2 n =
     (if \<not> is_power_of_2 n then reduce_to_power_of_2 (turn_off_least_1bit n) else Some n)"

definition push_bucket :: "'e list list \<Rightarrow> u32 \<Rightarrow> 'e \<Rightarrow> 'e list list option" where
  "push_bucket bs i e = (if unat i < length bs then Some (bs[unat i := e # bs ! unat i]) else None)"

text \<open>The two nested loops over the old buckets visit the elements of \<open>concat old\<close> in order.\<close>

primrec move_elems :: "'e hash_table \<Rightarrow> 'e list \<Rightarrow> 'e hash_table option" where
  "move_elems h [] = Some h"
| "move_elems h (e # es) = do {
     bs \<leftarrow> push_bucket (buckets h) (find_bucket h e) e;
     move_elems (h\<lparr>buckets := bs\<rparr>) es }"

definition rehash :: "bool \<Rightarrow> 'e hash_table \<Rightarrow> 'e hash_table option" where
  "rehash got h = do {
     let n = hash_elem_cnt h div 2;
     new_bucket_cnt \<leftarrow> reduce_to_power_of_2 (if n < 4 then 4 else n);
     if new_bucket_cnt = hash_bucket_cnt h then Some h
     else if \<not> got then Some h
     else move_elems (h\<lparr>buckets := replicate (unat new_bucket_cnt) [], hash_bucket_cnt := new_bucket_cnt\<rparr>)
            (concat (buckets h)) }"

definition insert_elem :: "'e hash_table \<Rightarrow> u32 \<Rightarrow> 'e \<Rightarrow> 'e hash_table option" where
  "insert_elem h bucket e = do {
     bs \<leftarrow> push_bucket (buckets h) bucket e;
     Some (h\<lparr>hash_elem_cnt := hash_elem_cnt h + 1, buckets := bs\<rparr>) }"

definition remove_elem :: "'e hash_table \<Rightarrow> 'e \<Rightarrow> 'e hash_table option" where
  "remove_elem h e = do {
     kassert (e \<in> set (concat (buckets h)));
     Some (h\<lparr>hash_elem_cnt := hash_elem_cnt h - 1, buckets := map (remove1 e) (buckets h)\<rparr>) }"

definition hash_insert :: "bool \<Rightarrow> 'e hash_table \<Rightarrow> 'e \<Rightarrow> ('e option \<times> 'e hash_table) option" where
  "hash_insert got h new = do {
     let bucket = find_bucket h new;
     bs \<leftarrow> get_bucket h bucket;
     let old = find_elem (less_fn h) bs new;
     h \<leftarrow> (if old = None then insert_elem h bucket new else Some h);
     h \<leftarrow> rehash got h;
     Some (old, h) }"

definition hash_replace :: "bool \<Rightarrow> 'e hash_table \<Rightarrow> 'e \<Rightarrow> ('e option \<times> 'e hash_table) option" where
  "hash_replace got h new = do {
     let bucket = find_bucket h new;
     bs \<leftarrow> get_bucket h bucket;
     let old = find_elem (less_fn h) bs new;
     h \<leftarrow> (case old of Some e \<Rightarrow> remove_elem h e | None \<Rightarrow> Some h);
     h \<leftarrow> insert_elem h bucket new;
     h \<leftarrow> rehash got h;
     Some (old, h) }"

definition hash_find :: "'e hash_table \<Rightarrow> 'e \<Rightarrow> 'e option option" where
  "hash_find h e = do {
     bs \<leftarrow> get_bucket h (find_bucket h e);
     Some (find_elem (less_fn h) bs e) }"

definition hash_delete :: "bool \<Rightarrow> 'e hash_table \<Rightarrow> 'e \<Rightarrow> ('e option \<times> 'e hash_table) option" where
  "hash_delete got h e = do {
     bs \<leftarrow> get_bucket h (find_bucket h e);
     let found = find_elem (less_fn h) bs e;
     h \<leftarrow> (case found of
            Some x \<Rightarrow> do { h \<leftarrow> remove_elem h x; rehash got h }
          | None \<Rightarrow> Some h);
     Some (found, h) }"

definition hash_apply :: "'e hash_table \<Rightarrow> 'e list" where
  "hash_apply h = concat (buckets h)"

definition hash_size :: "'e hash_table \<Rightarrow> u32" where
  "hash_size h = hash_elem_cnt h"

definition hash_empty :: "'e hash_table \<Rightarrow> bool" where
  "hash_empty h \<longleftrightarrow> hash_elem_cnt h = 0"

text \<open>
  Iterators.  \<open>i->elem\<close> is the head of the current bucket (after \<open>hash_first\<close>), an element of
  it, or null at the end.  \<open>list_next\<close> of an element is the element after it, and \<open>None\<close>
  stands for the end of the bucket.
\<close>

datatype 'e iter_elem = It_head | It_at 'e | It_null

record 'e hash_iterator =
  it_bucket :: nat
  it_elem :: "'e iter_elem"

fun elem_after :: "'e list \<Rightarrow> 'e \<Rightarrow> 'e option option" where
  "elem_after [] e = None"
| "elem_after (x # xs) e = (if x = e then Some (if xs = [] then None else Some (hd xs)) else elem_after xs e)"

definition first_elem :: "'e list \<Rightarrow> 'e option" where
  "first_elem xs = (if xs = [] then None else Some (hd xs))"

definition hash_first :: "'e hash_table \<Rightarrow> 'e hash_iterator" where
  "hash_first h = \<lparr>it_bucket = 0, it_elem = It_head\<rparr>"

text \<open>The loop that skips empty buckets; the argument says where \<open>i->elem\<close> is.\<close>

function next_bucket :: "'e hash_table \<Rightarrow> nat \<Rightarrow> 'e option \<Rightarrow> 'e hash_iterator" where
  "next_bucket h b (Some e) = \<lparr>it_bucket = b, it_elem = It_at e\<rparr>"
| "next_bucket h b None =
     (if Suc b \<ge> unat (hash_bucket_cnt h) then \<lparr>it_bucket = Suc b, it_elem = It_null\<rparr>
      else next_bucket h (Suc b) (first_elem (buckets h ! Suc b)))"
  by pat_completeness auto
termination by (relation "measure (\<lambda>(h, b, _). unat (hash_bucket_cnt h) - b)") auto

definition hash_next :: "'e hash_table \<Rightarrow> 'e hash_iterator \<Rightarrow> 'e hash_iterator option" where
  "hash_next h i =
     (if it_bucket i < length (buckets h) then
        (case it_elem i of
           It_head \<Rightarrow> Some (next_bucket h (it_bucket i) (first_elem (buckets h ! it_bucket i)))
         | It_at e \<Rightarrow> map_option (next_bucket h (it_bucket i)) (elem_after (buckets h ! it_bucket i) e)
         | It_null \<Rightarrow> None)
      else None)"

definition hash_cur :: "'e hash_iterator \<Rightarrow> 'e option" where
  "hash_cur i = (case it_elem i of It_at e \<Rightarrow> Some e | _ \<Rightarrow> None)"

text \<open>The Fowler-Noll-Vo hash functions; a C string ends at its first zero byte.\<close>

definition FNV_32_PRIME :: u32 where
  "FNV_32_PRIME = 16777619"

definition FNV_32_BASIS :: u32 where
  "FNV_32_BASIS = 2166136261"

primrec hash_bytes_loop :: "u8 list \<Rightarrow> u32 \<Rightarrow> u32" where
  "hash_bytes_loop [] hash = hash"
| "hash_bytes_loop (b # bs) hash = hash_bytes_loop bs ((hash * FNV_32_PRIME) XOR ucast b)"

definition hash_bytes :: "u8 list \<Rightarrow> u32" where
  "hash_bytes buf = hash_bytes_loop buf FNV_32_BASIS"

fun hash_string_loop :: "u8 list \<Rightarrow> u32 \<Rightarrow> u32 option" where
  "hash_string_loop [] hash = None"
| "hash_string_loop (b # bs) hash =
     (if b \<noteq> 0 then hash_string_loop bs ((hash * FNV_32_PRIME) XOR ucast b) else Some hash)"

definition hash_string :: "u8 list \<Rightarrow> u32 option" where
  "hash_string s = hash_string_loop s FNV_32_BASIS"

text \<open>The bytes of an \<open>int\<close> in memory, least significant first.\<close>

definition le_bytes32 :: "u32 \<Rightarrow> u8 list" where
  "le_bytes32 w = map (\<lambda>k. ucast (drop_bit (8 * k) w)) [0, 1, 2, 3]"

definition hash_int :: "u32 \<Rightarrow> u32" where
  "hash_int i = hash_bytes (le_bytes32 i)"

end
