(* ===== verification/Khash_Map.thy ===== *)
theory Khash_Map
  imports Khash "HOL-Library.Multiset"
begin

text \<open>
  Correctness of the hash table: the bucket count is the largest power of two the load allows,
  the table invariant is kept by every operation whether or not memory for rehashing is found,
  and the operations are those of a finite map keyed by the equivalence of the elements.
\<close>

section \<open>Powers of two\<close>

lemma nat_and_even: "(2 * y::nat) AND (2 * y - 1) = 2 * (y AND (y - 1))"
proof (cases "y = 0")
  case False
  then have "2 * y - 1 = 2 * (y - 1) + 1" by simp
  then show ?thesis by (simp add: and_rec [of "2 * y"])
qed simp

lemma nat_and_odd: "Suc (2 * y) AND (2 * y) = 2 * y"
  by (simp add: and_rec [of "Suc (2 * y)"])

text \<open>Clearing the lowest set bit: zero for a power of two, else the top bit stays.\<close>

lemma nat_clear_lowest:
  "x \<noteq> 0 \<Longrightarrow> x AND (x - 1) < x \<and> ((x AND (x - 1) = 0) = (\<exists>k. x = 2 ^ k)) \<and>
     (x AND (x - 1) \<noteq> 0 \<longrightarrow> 2 ^ k \<le> x \<longrightarrow> 2 ^ k \<le> x AND (x - 1))" for x k :: nat
proof (induction x arbitrary: k rule: less_induct)
  case (less x)
  show ?case
  proof (cases "even x")
    case True
    then obtain y where y: "x = 2 * y" by blast
    then have IH: "y AND (y - 1) < y" "(y AND (y - 1) = 0) = (\<exists>k. y = 2 ^ k)"
      "\<And>k. y AND (y - 1) \<noteq> 0 \<Longrightarrow> 2 ^ k \<le> y \<Longrightarrow> 2 ^ k \<le> y AND (y - 1)"
      using less by auto
    have p: "(\<exists>k. x = 2 ^ k) = (\<exists>k. y = 2 ^ k)"
    proof
      assume "\<exists>k. x = 2 ^ k"
      then obtain k where "x = 2 ^ k" by blast
      then show "\<exists>k. y = 2 ^ k" using y True by (cases k) auto
    qed (use y in \<open>metis power_Suc\<close>)
    show ?thesis
      using IH(1,2) IH(3) [of "k - 1"] p unfolding y nat_and_even by (cases k) auto
  next
    case False
    then obtain y where y: "x = Suc (2 * y)" by (metis oddE Suc_eq_plus1)
    have "(y = 0) = (\<exists>k. x = 2 ^ k)"
    proof
      assume "\<exists>k. x = 2 ^ k"
      then obtain k where "x = 2 ^ k" by blast
      then show "y = 0" using y False by (cases k) auto
    qed (use y in \<open>auto intro: exI [of _ 0]\<close>)
    moreover have "2 ^ k \<le> 2 * y" if "y \<noteq> 0" "2 ^ k \<le> Suc (2 * y)"
      using that by (cases k) auto
    ultimately show ?thesis unfolding y using nat_and_odd [of y] by auto
  qed
qed

lemma unat_turn_off: "x \<noteq> 0 \<Longrightarrow> unat (turn_off_least_1bit x) = unat x AND (unat x - 1)"
  by (simp add: turn_off_least_1bit_def unsigned_and_eq unat_minus_one)

lemma is_power_of_2_iff: "is_power_of_2 x \<longleftrightarrow> (\<exists>k. unat x = 2 ^ k)"
proof (cases "x = 0")
  case False
  then have "unat x \<noteq> 0" by (simp add: unat_eq_0)
  then show ?thesis
    using False nat_clear_lowest [of "unat x"] unat_turn_off [OF False]
    by (simp add: is_power_of_2_def unat_eq_0 [symmetric])
qed (simp add: is_power_of_2_def)

text \<open>The loop of \<open>rehash\<close> ends at the largest power of two below its start.\<close>

lemma reduce_to_power_of_2_spec:
  assumes "n \<noteq> 0"
  shows "\<exists>m k. reduce_to_power_of_2 n = Some m \<and> unat m = 2 ^ k \<and> 2 ^ k \<le> unat n \<and> unat n < 2 ^ Suc k"
  using assms
proof (induction "unat n" arbitrary: n rule: less_induct)
  case less
  show ?case
  proof (cases "is_power_of_2 n")
    case True
    then show ?thesis by (auto simp: is_power_of_2_iff reduce_to_power_of_2.simps)
  next
    case False
    let ?m = "turn_off_least_1bit n"
    have n0: "unat n \<noteq> 0" using less.prems by (simp add: unat_eq_0)
    have m: "unat ?m < unat n" "?m \<noteq> 0" "\<And>k. 2 ^ k \<le> unat n \<Longrightarrow> 2 ^ k \<le> unat ?m"
      using nat_clear_lowest [OF n0] unat_turn_off [OF less.prems] False less.prems
      by (auto simp: is_power_of_2_def unat_eq_0 [symmetric])
    obtain r k where r: "reduce_to_power_of_2 ?m = Some r" "unat r = 2 ^ k" "2 ^ k \<le> unat ?m" "unat ?m < 2 ^ Suc k"
      using less.hyps [OF m(1,2)] by blast
    have "unat n < 2 ^ Suc k" using m(3) [of "Suc k"] r(4) by linarith
    then show ?thesis using r m(1) False by (auto simp: reduce_to_power_of_2.simps [of n])
  qed
qed

section \<open>The table invariant\<close>

definition hash_elems :: "'e hash_table \<Rightarrow> 'e set" where
  "hash_elems h = set (concat (buckets h))"

text \<open>What the table asks of its client: equal elements hash equally.\<close>

definition hash_client_ok :: "'e hash_table \<Rightarrow> bool" where
  "hash_client_ok h \<longleftrightarrow> strict_weak (less_fn h) UNIV
     \<and> (\<forall>a b. equiv_by (less_fn h) a b \<longrightarrow> hash_fn h a = hash_fn h b)"

definition placed :: "'e hash_table \<Rightarrow> bool" where
  "placed h \<longleftrightarrow> (\<forall>i < length (buckets h). \<forall>e \<in> set (buckets h ! i). unat (find_bucket h e) = i)"

definition bucket_shape :: "'e hash_table \<Rightarrow> bool" where
  "bucket_shape h \<longleftrightarrow> length (buckets h) = unat (hash_bucket_cnt h) \<and> is_power_of_2 (hash_bucket_cnt h)"

definition hash_inv :: "'e hash_table \<Rightarrow> bool" where
  "hash_inv h \<longleftrightarrow> hash_client_ok h \<and> bucket_shape h \<and> placed h
     \<and> hash_elem_cnt h = of_nat (length (concat (buckets h))) \<and> distinct (concat (buckets h))
     \<and> (\<forall>a \<in> hash_elems h. \<forall>b \<in> hash_elems h. equiv_by (less_fn h) a b \<longrightarrow> a = b)"

lemma find_bucket_lt:
  assumes "bucket_shape h"
  shows "unat (find_bucket h e) < length (buckets h)"
proof -
  have "hash_bucket_cnt h \<noteq> 0" using assms by (auto simp: bucket_shape_def is_power_of_2_def)
  then have "unat (hash_bucket_cnt h - 1) < unat (hash_bucket_cnt h)"
    by (metis diff_less lessI One_nat_def unat_minus_one unat_gt_0)
  moreover have "unat (find_bucket h e) \<le> unat (hash_bucket_cnt h - 1)"
    by (simp add: find_bucket_def word_and_le1 flip: word_le_nat_alt)
  ultimately show ?thesis using assms by (simp add: bucket_shape_def)
qed

lemma find_bucket_cong [simp]:
  "find_bucket (h\<lparr>buckets := bs\<rparr>) e = find_bucket h e"
  "find_bucket (h\<lparr>hash_elem_cnt := c\<rparr>) e = find_bucket h e"
  by (simp_all add: find_bucket_def)

lemma bucket_shape_cong [simp]:
  "bucket_shape (h\<lparr>hash_elem_cnt := c\<rparr>) = bucket_shape h"
  "bucket_shape (h\<lparr>buckets := bs\<rparr>)
     = (length bs = unat (hash_bucket_cnt h) \<and> is_power_of_2 (hash_bucket_cnt h))"
  by (simp_all add: bucket_shape_def)

lemma placed_cnt: "placed (h\<lparr>hash_elem_cnt := c, buckets := bs\<rparr>) = placed (h\<lparr>buckets := bs\<rparr>)"
  by (simp add: placed_def find_bucket_def)

lemma mset_concat_push:
  "i < length bs \<Longrightarrow> mset (concat (bs[i := e # bs ! i])) = add_mset e (mset (concat bs))"
  by (induction bs arbitrary: i) (auto split: nat.splits)

lemma placed_push:
  assumes "placed h" "unat (find_bucket h e) < length (buckets h)"
  shows "placed (h\<lparr>buckets := (buckets h)[unat (find_bucket h e) := e # buckets h ! unat (find_bucket h e)]\<rparr>)"
  using assms by (auto simp: placed_def nth_list_update split: if_splits)

lemma move_elems_spec:
  assumes "bucket_shape h" "placed h"
  shows "\<exists>bs. move_elems h es = Some (h\<lparr>buckets := bs\<rparr>) \<and> bucket_shape (h\<lparr>buckets := bs\<rparr>)
    \<and> placed (h\<lparr>buckets := bs\<rparr>) \<and> mset (concat bs) = mset es + mset (concat (buckets h))"
  using assms
proof (induction es arbitrary: h)
  case Nil
  then show ?case by (intro exI [of _ "buckets h"]) simp
next
  case (Cons e es)
  let ?i = "unat (find_bucket h e)"
  let ?h = "h\<lparr>buckets := (buckets h)[?i := e # buckets h ! ?i]\<rparr>"
  have lt: "?i < length (buckets h)" using find_bucket_lt [OF Cons.prems(1)] .
  have "bucket_shape ?h" "placed ?h"
    using Cons.prems(1) placed_push [OF Cons.prems(2) lt] by (simp_all add: bucket_shape_def)
  from Cons.IH [OF this] show ?case
    using lt mset_concat_push [OF lt, of e] by (auto simp: push_bucket_def)
qed

lemma rehash_spec:
  assumes "bucket_shape h" "placed h"
  shows "\<exists>h'. rehash got h = Some h' \<and> bucket_shape h' \<and> placed h'
    \<and> mset (concat (buckets h')) = mset (concat (buckets h)) \<and> hash_elem_cnt h' = hash_elem_cnt h
    \<and> less_fn h' = less_fn h \<and> hash_fn h' = hash_fn h"
proof -
  let ?n = "if hash_elem_cnt h div 2 < 4 then 4 else hash_elem_cnt h div 2"
  have "?n \<noteq> 0" by auto
  then obtain m k where m: "reduce_to_power_of_2 ?n = Some m" "unat m = 2 ^ k"
    using reduce_to_power_of_2_spec by blast
  let ?h = "h\<lparr>buckets := replicate (unat m) [], hash_bucket_cnt := m\<rparr>"
  have "bucket_shape ?h" "placed ?h"
    using m(2) by (auto simp: bucket_shape_def is_power_of_2_iff placed_def)
  from move_elems_spec [OF this, of "concat (buckets h)"] show ?thesis
    using assms m(1) by (auto simp: rehash_def Let_def)
qed

lemma find_elem_Some: "find_elem lt bs e = Some x \<Longrightarrow> x \<in> set bs \<and> equiv_by lt x e"
  by (induction bs) (auto simp: equiv_by_def split: if_splits)

lemma find_elem_None: "find_elem lt bs e = None \<longleftrightarrow> (\<forall>x\<in>set bs. \<not> equiv_by lt x e)"
  by (induction bs) (auto simp: equiv_by_def)

lemma equal_in_bucket:
  assumes "hash_inv h" "x \<in> hash_elems h" "equiv_by (less_fn h) x e"
  shows "x \<in> set (buckets h ! unat (find_bucket h e))"
proof -
  obtain i where i: "i < length (buckets h)" "x \<in> set (buckets h ! i)"
    using assms(2) by (auto simp: hash_elems_def in_set_conv_nth [of _ "buckets h"])
  have "unat (find_bucket h x) = i" using assms(1) i by (auto simp: hash_inv_def placed_def)
  moreover have "find_bucket h x = find_bucket h e"
    using assms by (auto simp: hash_inv_def hash_client_ok_def find_bucket_def)
  ultimately show ?thesis using i(2) by simp
qed

text \<open>The element equal to \<open>e\<close>, if the table has one: the abstract lookup.\<close>

lemma find_elem_bucket:
  assumes "hash_inv h"
  shows "find_elem (less_fn h) (buckets h ! unat (find_bucket h e)) e = Some x
      \<longleftrightarrow> x \<in> hash_elems h \<and> equiv_by (less_fn h) x e"
    "find_elem (less_fn h) (buckets h ! unat (find_bucket h e)) e = None
      \<longleftrightarrow> (\<forall>x \<in> hash_elems h. \<not> equiv_by (less_fn h) x e)"
proof -
  let ?b = "buckets h ! unat (find_bucket h e)"
  have lt: "unat (find_bucket h e) < length (buckets h)"
    using assms find_bucket_lt by (auto simp: hash_inv_def)
  have sub: "set ?b \<subseteq> hash_elems h" using lt nth_mem by (fastforce simp: hash_elems_def)
  have uniq: "a = b" if "a \<in> hash_elems h" "b \<in> hash_elems h" "equiv_by (less_fn h) a e" "equiv_by (less_fn h) b e" for a b
  proof -
    have "equiv_by (less_fn h) a b"
      using that strict_weak_negtrans [of "less_fn h" UNIV a e b] strict_weak_negtrans [of "less_fn h" UNIV b e a] assms
      by (auto simp: equiv_by_def hash_inv_def hash_client_ok_def)
    then show ?thesis using that assms by (auto simp: hash_inv_def)
  qed
  show "find_elem (less_fn h) ?b e = None \<longleftrightarrow> (\<forall>x \<in> hash_elems h. \<not> equiv_by (less_fn h) x e)"
    using sub equal_in_bucket [OF assms, of _ e] by (auto simp: find_elem_None)
  then show "find_elem (less_fn h) ?b e = Some x \<longleftrightarrow> x \<in> hash_elems h \<and> equiv_by (less_fn h) x e"
    using find_elem_Some [of "less_fn h" ?b e] sub uniq by (cases "find_elem (less_fn h) ?b e") auto
qed

definition found_in :: "'e hash_table \<Rightarrow> 'e \<Rightarrow> 'e option \<Rightarrow> bool" where
  "found_in h e r \<longleftrightarrow> (\<forall>x. r = Some x \<longleftrightarrow> x \<in> hash_elems h \<and> equiv_by (less_fn h) x e)"

lemma find_elem_found: "hash_inv h \<Longrightarrow> found_in h e (find_elem (less_fn h) (buckets h ! unat (find_bucket h e)) e)"
  by (simp add: found_in_def find_elem_bucket)

lemma found_in_None: "found_in h e None \<Longrightarrow> x \<in> hash_elems h \<Longrightarrow> \<not> equiv_by (less_fn h) x e"
  by (auto simp: found_in_def)

lemma found_in_Some:
  "found_in h e (Some x) \<Longrightarrow> x \<in> hash_elems h" "found_in h e (Some x) \<Longrightarrow> equiv_by (less_fn h) x e"
  "found_in h e (Some x) \<Longrightarrow> y \<in> hash_elems h \<Longrightarrow> equiv_by (less_fn h) y e \<Longrightarrow> y = x"
  by (auto simp: found_in_def)

section \<open>The operations\<close>

lemma hash_inv_rehash:
  assumes "hash_inv h"
  shows "\<exists>h'. rehash got h = Some h' \<and> hash_inv h' \<and> hash_elems h' = hash_elems h
    \<and> less_fn h' = less_fn h \<and> hash_fn h' = hash_fn h"
proof -
  obtain h' where h': "rehash got h = Some h'" "bucket_shape h'" "placed h'"
    "mset (concat (buckets h')) = mset (concat (buckets h))" "hash_elem_cnt h' = hash_elem_cnt h"
    "less_fn h' = less_fn h" "hash_fn h' = hash_fn h"
    using rehash_spec [of h got] assms by (auto simp: hash_inv_def)
  have "set (concat (buckets h')) = set (concat (buckets h))"
    "length (concat (buckets h')) = length (concat (buckets h))"
    "distinct (concat (buckets h')) = distinct (concat (buckets h))"
    using mset_eq_setD [OF h'(4)] mset_eq_length [OF h'(4)] mset_eq_imp_distinct_iff [OF h'(4)] by simp_all
  then show ?thesis
    using assms h' by (simp add: hash_inv_def hash_elems_def hash_client_ok_def del: set_concat)
qed

lemma hash_inv_insert_elem:
  assumes "hash_inv h" "\<forall>x \<in> hash_elems h. \<not> equiv_by (less_fn h) x e"
  shows "\<exists>h'. insert_elem h (find_bucket h e) e = Some h' \<and> hash_inv h' \<and> hash_elems h' = insert e (hash_elems h)
    \<and> less_fn h' = less_fn h \<and> hash_fn h' = hash_fn h"
proof -
  let ?i = "unat (find_bucket h e)"
  let ?bs = "(buckets h)[?i := e # buckets h ! ?i]"
  have lt: "?i < length (buckets h)" using assms(1) find_bucket_lt by (auto simp: hash_inv_def)
  note m = mset_concat_push [OF lt, of e]
  have refl: "equiv_by (less_fn h) e e" "\<And>a b. equiv_by (less_fn h) a b = equiv_by (less_fn h) b a"
    using assms(1) strict_weak_irrefl [of "less_fn h" UNIV e] by (auto simp: hash_inv_def hash_client_ok_def equiv_by_def)
  have new: "e \<notin> hash_elems h" using assms(2) refl by auto
  have m': "mset (concat ?bs) = mset (e # concat (buckets h))" using m by simp
  have c: "set (concat ?bs) = insert e (set (concat (buckets h)))"
    "length (concat ?bs) = Suc (length (concat (buckets h)))"
    "distinct (concat ?bs)"
    using mset_eq_setD [OF m'] mset_eq_length [OF m'] mset_eq_imp_distinct_iff [OF m'] new assms(1)
    by (simp_all add: hash_elems_def hash_inv_def)
  have pl: "placed (h\<lparr>buckets := ?bs\<rparr>)" using placed_push [OF _ lt] assms(1) by (auto simp: hash_inv_def)
  have "hash_inv (h\<lparr>hash_elem_cnt := hash_elem_cnt h + 1, buckets := ?bs\<rparr>)"
    unfolding hash_inv_def
  proof (intro conjI ballI impI)
    fix a b
    assume "a \<in> hash_elems (h\<lparr>hash_elem_cnt := hash_elem_cnt h + 1, buckets := ?bs\<rparr>)"
      "b \<in> hash_elems (h\<lparr>hash_elem_cnt := hash_elem_cnt h + 1, buckets := ?bs\<rparr>)"
      and eq: "equiv_by (less_fn (h\<lparr>hash_elem_cnt := hash_elem_cnt h + 1, buckets := ?bs\<rparr>)) a b"
    then have "a \<in> insert e (hash_elems h)" "b \<in> insert e (hash_elems h)"
      using c(1) by (simp_all add: hash_elems_def del: set_concat)
    then show "a = b" using eq assms refl(2) [of e] by (auto simp: hash_inv_def)
  next
    show "placed (h\<lparr>hash_elem_cnt := hash_elem_cnt h + 1, buckets := ?bs\<rparr>)" using pl by (simp only: placed_cnt)
    show "distinct (concat (buckets (h\<lparr>hash_elem_cnt := hash_elem_cnt h + 1, buckets := ?bs\<rparr>)))"
      using c(3) by simp
    show "hash_elem_cnt (h\<lparr>hash_elem_cnt := hash_elem_cnt h + 1, buckets := ?bs\<rparr>)
        = of_nat (length (concat (buckets (h\<lparr>hash_elem_cnt := hash_elem_cnt h + 1, buckets := ?bs\<rparr>))))"
      using c(2) assms(1) by (simp del: length_concat list_update.simps add: hash_inv_def)
  qed (use assms(1) in \<open>simp_all add: hash_inv_def hash_client_ok_def bucket_shape_def\<close>)
  then show ?thesis using lt c(1) by (auto simp: insert_elem_def push_bucket_def hash_elems_def simp del: set_concat)
qed

lemma remove1_buckets:
  assumes "distinct (concat bs)"
  shows "concat (map (remove1 e) bs) = remove1 e (concat bs)"
proof -
  have "remove1 e b = filter ((\<noteq>) e) b" if "b \<in> set bs" for b
    using assms that by (simp add: distinct_remove1_removeAll removeAll_filter_not_eq distinct_concat_iff)
  then have "map (remove1 e) bs = map (filter ((\<noteq>) e)) bs" by (rule map_cong [OF refl])
  then have "concat (map (remove1 e) bs) = concat (map (filter ((\<noteq>) e)) bs)" by (rule arg_cong)
  then show ?thesis
    using assms by (simp add: filter_concat [symmetric] distinct_remove1_removeAll removeAll_filter_not_eq)
qed

lemma of_nat_pred: "n \<noteq> 0 \<Longrightarrow> (of_nat (n - 1) :: 'a::len word) = of_nat n - 1"
  by (cases n) simp_all

lemma hash_inv_remove_elem:
  assumes inv: "hash_inv h" and e: "e \<in> hash_elems h"
  shows "\<exists>h'. remove_elem h e = Some h' \<and> hash_inv h' \<and> hash_elems h' = hash_elems h - {e}
    \<and> less_fn h' = less_fn h \<and> hash_fn h' = hash_fn h \<and> hash_bucket_cnt h' = hash_bucket_cnt h"
proof -
  let ?bs = "map (remove1 e) (buckets h)"
  have d: "distinct (concat (buckets h))" using inv by (simp add: hash_inv_def)
  have c: "set (concat ?bs) = set (concat (buckets h)) - {e}" "distinct (concat ?bs)"
    "length (concat ?bs) = length (concat (buckets h)) - 1" "length (concat (buckets h)) \<noteq> 0"
    using d e unfolding remove1_buckets [OF d] hash_elems_def
    by (auto simp: length_remove1 simp del: set_concat concat_eq_Nil_conv)
  have "hash_elem_cnt h - 1 = of_nat (length (concat ?bs))"
    using c(3) of_nat_pred [where 'a = 32, OF c(4)] inv by (simp only: hash_inv_def)
  moreover have "placed (h\<lparr>buckets := ?bs\<rparr>)"
    using inv by (auto simp: hash_inv_def placed_def dest: notin_set_remove1 set_remove1_subset [THEN subsetD])
  ultimately have "hash_inv (h\<lparr>hash_elem_cnt := hash_elem_cnt h - 1, buckets := ?bs\<rparr>)"
    using inv c(1,2)
    by (auto simp: hash_inv_def hash_elems_def hash_client_ok_def placed_def bucket_shape_def simp del: set_concat)
  then show ?thesis using e c(1) by (auto simp: remove_elem_def hash_elems_def simp del: set_concat)
qed

definition same_keys :: "'e hash_table \<Rightarrow> 'e hash_table \<Rightarrow> bool" where
  "same_keys h h' \<longleftrightarrow> less_fn h' = less_fn h \<and> hash_fn h' = hash_fn h"

lemma get_bucket_inv: "hash_inv h \<Longrightarrow> get_bucket h (find_bucket h e) = Some (buckets h ! unat (find_bucket h e))"
  using find_bucket_lt [of h e] by (simp add: get_bucket_def hash_inv_def)

lemma hash_find_spec:
  assumes "hash_inv h"
  shows "\<exists>r. hash_find h e = Some r \<and> found_in h e r"
  using find_elem_found [OF assms, of e] by (simp add: hash_find_def get_bucket_inv [OF assms])

lemma hash_insert_spec:
  assumes "hash_inv h"
  shows "\<exists>r h'. hash_insert got h e = Some (r, h') \<and> hash_inv h' \<and> same_keys h h' \<and> found_in h e r
    \<and> hash_elems h' = (if r = None then insert e (hash_elems h) else hash_elems h)"
proof -
  define r where "r = find_elem (less_fn h) (buckets h ! unat (find_bucket h e)) e"
  have f: "found_in h e r" unfolding r_def by (rule find_elem_found [OF assms])
  obtain h1 where h1: "(if r = None then insert_elem h (find_bucket h e) e else Some h) = Some h1" "hash_inv h1"
    "hash_elems h1 = (if r = None then insert e (hash_elems h) else hash_elems h)" "same_keys h h1"
    using hash_inv_insert_elem [OF assms, of e] found_in_None [of h e] f assms
    by (cases r) (auto simp: same_keys_def)
  obtain h2 where h2: "rehash got h1 = Some h2" "hash_inv h2" "hash_elems h2 = hash_elems h1" "same_keys h1 h2"
    using hash_inv_rehash [OF h1(2), of got] by (auto simp: same_keys_def)
  have "hash_insert got h e = Some (r, h2)"
    using h1(1) h2(1) by (simp add: hash_insert_def get_bucket_inv [OF assms] Let_def flip: r_def)
  then show ?thesis using h1 h2 f by (auto simp: same_keys_def)
qed

lemma hash_delete_spec:
  assumes "hash_inv h"
  shows "\<exists>r h'. hash_delete got h e = Some (r, h') \<and> hash_inv h' \<and> same_keys h h' \<and> found_in h e r
    \<and> hash_elems h' = hash_elems h - set_option r"
proof -
  define r where "r = find_elem (less_fn h) (buckets h ! unat (find_bucket h e)) e"
  have f: "found_in h e r" unfolding r_def by (rule find_elem_found [OF assms])
  show ?thesis
  proof (cases r)
    case None
    have "hash_delete got h e = Some (None, h)"
      using None by (simp add: hash_delete_def get_bucket_inv [OF assms] Let_def flip: r_def)
    then show ?thesis using assms f None by (auto simp: same_keys_def)
  next
    case (Some x)
    obtain h1 where h1: "remove_elem h x = Some h1" "hash_inv h1" "hash_elems h1 = hash_elems h - {x}" "same_keys h h1"
      using hash_inv_remove_elem [OF assms found_in_Some(1) [OF f [unfolded Some]]] by (auto simp: same_keys_def)
    obtain h2 where h2: "rehash got h1 = Some h2" "hash_inv h2" "hash_elems h2 = hash_elems h1" "same_keys h1 h2"
      using hash_inv_rehash [OF h1(2), of got] by (auto simp: same_keys_def)
    have "hash_delete got h e = Some (Some x, h2)"
      using h1(1) h2(1) Some by (simp add: hash_delete_def get_bucket_inv [OF assms] Let_def flip: r_def)
    then show ?thesis using h1 h2 Some f by (auto simp: same_keys_def)
  qed
qed

lemma hash_replace_spec:
  assumes "hash_inv h"
  shows "\<exists>r h'. hash_replace got h e = Some (r, h') \<and> hash_inv h' \<and> same_keys h h' \<and> found_in h e r
    \<and> hash_elems h' = insert e (hash_elems h - set_option r)"
proof -
  define r where "r = find_elem (less_fn h) (buckets h ! unat (find_bucket h e)) e"
  have f: "found_in h e r" unfolding r_def by (rule find_elem_found [OF assms])
  obtain h1 where h1: "(case r of Some x \<Rightarrow> remove_elem h x | None \<Rightarrow> Some h) = Some h1" "hash_inv h1"
    "hash_elems h1 = hash_elems h - set_option r" "same_keys h h1" "find_bucket h1 e = find_bucket h e"
  proof (cases r)
    case (Some x)
    then show ?thesis
      using that hash_inv_remove_elem [OF assms, of x] found_in_Some(1) [of h e x] f
      by (auto simp: same_keys_def find_bucket_def)
  qed (use that assms in \<open>auto simp: same_keys_def\<close>)
  have "\<forall>x \<in> hash_elems h1. \<not> equiv_by (less_fn h1) x e"
    using h1(3,4) f found_in_None [of h e] found_in_Some(3) [of h e] by (cases r) (auto simp: same_keys_def)
  from hash_inv_insert_elem [OF h1(2) this] obtain h2 where
    h2: "insert_elem h1 (find_bucket h e) e = Some h2" "hash_inv h2" "hash_elems h2 = insert e (hash_elems h1)"
      "same_keys h1 h2"
    using h1(5) by (auto simp: same_keys_def)
  obtain h3 where h3: "rehash got h2 = Some h3" "hash_inv h3" "hash_elems h3 = hash_elems h2" "same_keys h2 h3"
    using hash_inv_rehash [OF h2(2), of got] by (auto simp: same_keys_def)
  have "hash_replace got h e = Some (r, h3)"
    using h1(1) h2(1) h3(1) by (simp add: hash_replace_def get_bucket_inv [OF assms] Let_def flip: r_def)
  then show ?thesis using h1 h2 h3 f by (auto simp: same_keys_def)
qed

section \<open>The contract of a keyed table\<close>

locale key_table =
  fixes inv :: "'t \<Rightarrow> bool"
    and elems :: "'t \<Rightarrow> 'e set"
    and eq :: "'t \<Rightarrow> 'e \<Rightarrow> 'e \<Rightarrow> bool"
    and find_in :: "'t \<Rightarrow> 'e \<Rightarrow> 'e option option"
    and insert_in :: "'t \<Rightarrow> 'e \<Rightarrow> ('e option \<times> 't) option"
    and delete_in :: "'t \<Rightarrow> 'e \<Rightarrow> ('e option \<times> 't) option"
  assumes eq_equiv: "inv t \<Longrightarrow> equivp (eq t)"
    and find_law: "inv t \<Longrightarrow> \<exists>r. find_in t k = Some r \<and> (\<forall>x. r = Some x \<longleftrightarrow> x \<in> elems t \<and> eq t x k)"
    and insert_law: "inv t \<Longrightarrow> \<exists>r t'. insert_in t k = Some (r, t') \<and> find_in t k = Some r \<and> inv t' \<and> eq t' = eq t
      \<and> elems t' = (if r = None then insert k (elems t) else elems t)"
    and delete_law: "inv t \<Longrightarrow> \<exists>r t'. delete_in t k = Some (r, t') \<and> find_in t k = Some r \<and> inv t' \<and> eq t' = eq t
      \<and> elems t' = elems t - set_option r"
begin

lemma find_eqI:
  assumes "inv t" "\<And>x. r = Some x \<longleftrightarrow> x \<in> elems t \<and> eq t x k"
  shows "find_in t k = Some r"
proof -
  obtain r' where "find_in t k = Some r'" "\<And>x. r' = Some x \<longleftrightarrow> x \<in> elems t \<and> eq t x k"
    using find_law [OF assms(1)] by blast
  then show ?thesis using assms(2) by (metis option.exhaust)
qed

lemma find_after_insert:
  assumes "inv t" "insert_in t e = Some (r, t')"
  shows "find_in t' k = (if r = None \<and> eq t e k then Some (Some e) else find_in t k)"
proof -
  have i: "inv t'" "eq t' = eq t" "elems t' = (if r = None then insert e (elems t) else elems t)" "find_in t e = Some r"
    using insert_law [OF assms(1), of e] assms(2) by auto
  obtain rk where rk: "find_in t k = Some rk" "\<And>x. rk = Some x \<longleftrightarrow> x \<in> elems t \<and> eq t x k"
    using find_law [OF assms(1)] by blast
  have no: "\<not> eq t x e" if "r = None" "x \<in> elems t" for x
    using find_law [OF assms(1), of e] i(4) that by auto
  show ?thesis
  proof (cases "r = None \<and> eq t e k")
    case True
    note eqv = equivp_symp [OF eq_equiv [OF assms(1)]] equivp_transp [OF eq_equiv [OF assms(1)]]
    have "\<not> eq t x k" if "x \<in> elems t" for x using no [OF _ that] True eqv by blast
    then have "find_in t' k = Some (Some e)" using i True by (intro find_eqI) auto
    then show ?thesis using True by simp
  next
    case False
    then have "find_in t' k = Some rk" using i rk(2) by (intro find_eqI) auto
    then show ?thesis using False rk(1) by auto
  qed
qed

lemma find_after_delete:
  assumes "inv t" "delete_in t e = Some (r, t')"
  shows "find_in t' k = (if eq t e k then Some None else find_in t k)"
proof -
  have d: "inv t'" "eq t' = eq t" "elems t' = elems t - set_option r" "find_in t e = Some r"
    using delete_law [OF assms(1), of e] assms(2) by auto
  have r: "\<And>x. r = Some x \<longleftrightarrow> x \<in> elems t \<and> eq t x e" using find_law [OF assms(1), of e] d(4) by auto
  obtain rk where rk: "find_in t k = Some rk" "\<And>x. rk = Some x \<longleftrightarrow> x \<in> elems t \<and> eq t x k"
    using find_law [OF assms(1)] by blast
  note eqv = equivp_symp [OF eq_equiv [OF assms(1)]] equivp_transp [OF eq_equiv [OF assms(1)]]
  show ?thesis
  proof (cases "eq t e k")
    case True
    have "x \<notin> elems t' \<or> \<not> eq t x k" for x
      using d(3) r [of x] True eqv(1) [of e k] eqv(2) [of x k e] by auto
    then have "find_in t' k = Some None" using d(1,2) by (intro find_eqI) auto
    then show ?thesis using True by simp
  next
    case False
    have "x \<in> elems t' \<longleftrightarrow> x \<in> elems t" if "eq t x k" for x
      using d(3) r [of x] False that eqv(1) [of x e] eqv(2) [of e x k] by auto
    then have "rk = Some x \<longleftrightarrow> x \<in> elems t' \<and> eq t' x k" for x using d(2) rk(2) by auto
    then have "find_in t' k = Some rk" using d(1) by (intro find_eqI)
    then show ?thesis using False rk(1) by simp
  qed
qed

end

lemma equivp_equiv_by:
  assumes "strict_weak lt UNIV"
  shows "equivp (equiv_by lt)"
proof (intro equivpI reflpI sympI transpI)
  show "equiv_by lt x x" for x using strict_weak_irrefl [OF assms] by (simp add: equiv_by_def)
  show "equiv_by lt y x" if "equiv_by lt x y" for x y using that by (simp add: equiv_by_def)
  show "equiv_by lt x z" if "equiv_by lt x y" "equiv_by lt y z" for x y z
    using that strict_weak_negtrans [OF assms, of x y z] strict_weak_negtrans [OF assms, of z y x]
    by (simp add: equiv_by_def)
qed

interpretation ht: key_table hash_inv hash_elems "\<lambda>h. equiv_by (less_fn h)" hash_find "hash_insert got"
  "hash_delete got" for got
proof unfold_locales
  fix h :: "'a hash_table" and k
  assume inv: "hash_inv h"
  then show "equivp (equiv_by (less_fn h))" by (auto simp: hash_inv_def hash_client_ok_def intro: equivp_equiv_by)
  obtain rf where rf: "hash_find h k = Some rf" "found_in h k rf" using hash_find_spec [OF inv] by blast
  show "\<exists>r. hash_find h k = Some r \<and> (\<forall>x. r = Some x \<longleftrightarrow> x \<in> hash_elems h \<and> equiv_by (less_fn h) x k)"
    using rf by (simp add: found_in_def)
  have uniq: "r = rf" if "found_in h k r" for r
    using that rf(2) unfolding found_in_def by (metis option.exhaust)
  show "\<exists>r h'. hash_insert got h k = Some (r, h') \<and> hash_find h k = Some r \<and> hash_inv h'
      \<and> equiv_by (less_fn h') = equiv_by (less_fn h)
      \<and> hash_elems h' = (if r = None then insert k (hash_elems h) else hash_elems h)"
  proof -
    obtain r h' where "hash_insert got h k = Some (r, h')" "hash_inv h'" "same_keys h h'" "found_in h k r"
      "hash_elems h' = (if r = None then insert k (hash_elems h) else hash_elems h)"
      using hash_insert_spec [OF inv, of got k] by blast
    then show ?thesis using uniq [of r] rf(1) by (simp add: same_keys_def)
  qed
  show "\<exists>r h'. hash_delete got h k = Some (r, h') \<and> hash_find h k = Some r \<and> hash_inv h'
      \<and> equiv_by (less_fn h') = equiv_by (less_fn h) \<and> hash_elems h' = hash_elems h - set_option r"
  proof -
    obtain r h' where "hash_delete got h k = Some (r, h')" "hash_inv h'" "same_keys h h'" "found_in h k r"
      "hash_elems h' = hash_elems h - set_option r"
      using hash_delete_spec [OF inv, of got k] by blast
    then show ?thesis using uniq [of r] rf(1) by (simp add: same_keys_def)
  qed
qed

end
