(* ===== verification/Khash_Properties.thy ===== *)
theory Khash_Properties
  imports Khash_Map
begin

text \<open>
  Initialisation, iteration and the properties of the hash table.
\<close>

section \<open>Initialisation\<close>

lemma hash_init_inv:
  assumes "length junk = 4" "strict_weak lt UNIV" "\<And>a b. equiv_by lt a b \<Longrightarrow> hash a = hash b"
  shows "\<exists>h. hash_init True junk hash lt = (True, h) \<and> hash_inv h \<and> hash_elems h = {}"
  using assms
  by (auto simp: hash_init_def hash_clear_def hash_inv_def hash_client_ok_def bucket_shape_def placed_def
      hash_elems_def is_power_of_2_def turn_off_least_1bit_def Let_def map_replicate_const)

section \<open>Iteration\<close>

text \<open>The documented idiom: \<open>hash_first\<close>, then \<open>hash_next\<close> until it returns null.\<close>

partial_function (option) hash_walk :: "'e hash_table \<Rightarrow> 'e hash_iterator \<Rightarrow> 'e list option" where
  "hash_walk h i = do {
     i' \<leftarrow> hash_next h i;
     (case hash_cur i' of
        None \<Rightarrow> Some []
      | Some e \<Rightarrow> do { es \<leftarrow> hash_walk h i'; Some (e # es) }) }"

text \<open>The elements an iterator has still to visit.\<close>

definition iter_rest :: "'e hash_table \<Rightarrow> 'e hash_iterator \<Rightarrow> 'e list" where
  "iter_rest h i = (case it_elem i of
     It_head \<Rightarrow> concat (drop (it_bucket i) (buckets h))
   | It_at e \<Rightarrow> tl (dropWhile ((\<noteq>) e) (buckets h ! it_bucket i)) @ concat (drop (Suc (it_bucket i)) (buckets h))
   | It_null \<Rightarrow> [])"

definition iter_ok :: "'e hash_table \<Rightarrow> 'e hash_iterator \<Rightarrow> bool" where
  "iter_ok h i \<longleftrightarrow> it_bucket i < length (buckets h)
     \<and> (case it_elem i of It_head \<Rightarrow> True | It_at e \<Rightarrow> e \<in> set (buckets h ! it_bucket i) | It_null \<Rightarrow> False)"

lemma elem_after_dropWhile:
  "e \<in> set xs \<Longrightarrow> elem_after xs e = Some (first_elem (tl (dropWhile ((\<noteq>) e) xs)))"
  by (induction xs) (auto simp: first_elem_def)

lemma dropWhile_ne_distinct: "distinct (as @ e # bs) \<Longrightarrow> dropWhile ((\<noteq>) e) (as @ e # bs) = e # bs"
  by (induction as) auto

text \<open>
  \<open>ys\<close> is what is left of bucket \<open>b\<close>: the next element is the first of it and of the later
  buckets.
\<close>

lemma next_bucket_rest:
  assumes "distinct (concat (buckets h))" "length (buckets h) = unat (hash_bucket_cnt h)"
    and "b < length (buckets h)" "buckets h ! b = xs @ ys"
  shows "case ys @ concat (drop (Suc b) (buckets h)) of
      [] \<Rightarrow> hash_cur (next_bucket h b (first_elem ys)) = None
    | e # es \<Rightarrow> hash_cur (next_bucket h b (first_elem ys)) = Some e
        \<and> iter_ok h (next_bucket h b (first_elem ys)) \<and> iter_rest h (next_bucket h b (first_elem ys)) = es"
  using assms(3,4)
proof (induction "length (buckets h) - b" arbitrary: b xs ys)
  case (Suc n)
  show ?case
  proof (cases ys)
    case (Cons e es)
    have "distinct (xs @ e # es)"
      using assms(1) Suc.prems Cons by (metis distinct_concat_iff nth_mem)
    then show ?thesis
      using Suc.prems Cons dropWhile_ne_distinct [of xs e es]
      by (simp add: first_elem_def hash_cur_def iter_ok_def iter_rest_def)
  next
    case Nil
    show ?thesis
    proof (cases "Suc b < length (buckets h)")
      case True
      have d: "drop (Suc b) (buckets h) = buckets h ! Suc b # drop (Suc (Suc b)) (buckets h)"
        using True by (simp add: Cons_nth_drop_Suc)
      have eq: "next_bucket h b (first_elem []) = next_bucket h (Suc b) (first_elem (buckets h ! Suc b))"
        using True assms(2) by (simp add: first_elem_def)
      have "n = length (buckets h) - Suc b" using Suc.hyps(2) by simp
      then show ?thesis
        using Suc.hyps(1) [of "Suc b" "[]" "buckets h ! Suc b"] True unfolding Nil d eq by simp
    next
      case False
      then show ?thesis using Nil assms(2) by (simp add: first_elem_def hash_cur_def)
    qed
  qed
qed simp

lemma hash_next_rest:
  assumes "hash_inv h" "iter_ok h i"
  shows "\<exists>i'. hash_next h i = Some i' \<and> (case iter_rest h i of
      [] \<Rightarrow> hash_cur i' = None
    | e # es \<Rightarrow> hash_cur i' = Some e \<and> iter_ok h i' \<and> iter_rest h i' = es)"
proof -
  have d: "distinct (concat (buckets h))" "length (buckets h) = unat (hash_bucket_cnt h)"
    "it_bucket i < length (buckets h)"
    using assms by (auto simp: hash_inv_def bucket_shape_def iter_ok_def)
  show ?thesis
  proof (cases "it_elem i")
    case It_head
    then show ?thesis
      using next_bucket_rest [OF d, of "[]" "buckets h ! it_bucket i"] d(3)
      by (simp add: hash_next_def iter_rest_def Cons_nth_drop_Suc [symmetric])
  next
    case (It_at e)
    let ?b = "buckets h ! it_bucket i"
    have e: "e \<in> set ?b" using assms(2) It_at by (simp add: iter_ok_def)
    have ne: "dropWhile ((\<noteq>) e) ?b \<noteq> []" using e by auto
    have "hd (dropWhile ((\<noteq>) e) ?b) = e" using hd_dropWhile [OF ne] by simp
    then have "dropWhile ((\<noteq>) e) ?b = e # tl (dropWhile ((\<noteq>) e) ?b)" using ne by (metis list.collapse)
    then have split: "?b = (takeWhile ((\<noteq>) e) ?b @ [e]) @ tl (dropWhile ((\<noteq>) e) ?b)"
      using takeWhile_dropWhile_id [of "(\<noteq>) e" ?b, symmetric] by simp
    have "hash_next h i = Some (next_bucket h (it_bucket i) (first_elem (tl (dropWhile ((\<noteq>) e) ?b))))"
      using It_at d(3) by (simp add: hash_next_def elem_after_dropWhile [OF e])
    moreover have "iter_rest h i = tl (dropWhile ((\<noteq>) e) ?b) @ concat (drop (Suc (it_bucket i)) (buckets h))"
      using It_at by (simp add: iter_rest_def)
    ultimately show ?thesis using next_bucket_rest [OF d split] by simp
  qed (use assms(2) in \<open>simp add: iter_ok_def\<close>)
qed

lemma hash_walk_rest:
  assumes "hash_inv h" "iter_ok h i"
  shows "hash_walk h i = Some (iter_rest h i)"
  using assms(2)
proof (induction "iter_rest h i" arbitrary: i)
  case Nil
  then show ?case using hash_next_rest [OF assms(1) Nil.prems] by (subst hash_walk.simps) auto
next
  case (Cons e es)
  obtain i' where i': "hash_next h i = Some i'" "hash_cur i' = Some e" "iter_ok h i'" "iter_rest h i' = es"
    using hash_next_rest [OF assms(1) Cons.prems] unfolding Cons.hyps(2) [symmetric] by auto
  then have "hash_walk h i' = Some es" using Cons.hyps(1) by simp
  then show ?case using i' Cons.hyps(2) by (subst hash_walk.simps) simp
qed

section \<open>Properties\<close>

lemma sample_table:
  "hash_inv \<lparr>hash_elem_cnt = 2, hash_bucket_cnt = 4, buckets = [[], [5], [], [7 :: nat]],
     hash_fn = of_nat, less_fn = (<)\<rparr>"
  by (auto simp: hash_inv_def hash_client_ok_def strict_weak_def equiv_by_def bucket_shape_def placed_def
      is_power_of_2_def turn_off_least_1bit_def find_bucket_def less_Suc_eq hash_elems_def)

text \<open>
  C28: \<open>hash_insert\<close> and \<open>hash_find\<close> obey the map laws.  On a table that satisfies the
  invariant \<open>hash_insert\<close> returns, keeps the invariant whether or not rehashing finds memory,
  returns the element equal to the new one if there is one and then changes nothing; otherwise a
  later \<open>hash_find\<close> returns the new element for every key equal to it and the previous result
  for every other key.
\<close>

theorem hash_insert_map:
  assumes "hash_inv h"
  shows "\<exists>r h'. hash_insert got h e = Some (r, h') \<and> hash_inv h' \<and> hash_find h e = Some r
    \<and> (\<forall>k. hash_find h' k = (if r = None \<and> equiv_by (less_fn h) e k then Some (Some e) else hash_find h k))"
proof -
  obtain r h' where r: "hash_insert got h e = Some (r, h')" "hash_find h e = Some r" "hash_inv h'"
    using ht.insert_law [OF assms] by blast
  then show ?thesis using ht.find_after_insert [OF assms r(1)] by auto
qed

theorem hash_insert_map_witness:
  "\<exists>r h'. hash_insert True \<lparr>hash_elem_cnt = 2, hash_bucket_cnt = 4, buckets = [[], [5], [], [7 :: nat]],
      hash_fn = of_nat, less_fn = (<)\<rparr> 9 = Some (r, h') \<and> hash_inv h'
    \<and> hash_find \<lparr>hash_elem_cnt = 2, hash_bucket_cnt = 4, buckets = [[], [5], [], [7 :: nat]],
      hash_fn = of_nat, less_fn = (<)\<rparr> 9 = Some r
    \<and> (\<forall>k. hash_find h' k = (if r = None \<and> equiv_by (<) 9 k then Some (Some 9)
         else hash_find \<lparr>hash_elem_cnt = 2, hash_bucket_cnt = 4, buckets = [[], [5], [], [7 :: nat]],
           hash_fn = of_nat, less_fn = (<)\<rparr> k))"
  using hash_insert_map [OF sample_table, of True 9] by simp

text \<open>
  C29: \<open>hash_delete\<close> returns the element equal to the given one (if any), after which no equal
  key is found and every other lookup is unchanged; \<open>hash_replace\<close> returns the old element and
  leaves the new one in its place.  Both keep the invariant, in particular the element count.
\<close>

theorem hash_delete_replace_map:
  assumes "hash_inv h"
  shows "(\<exists>r h'. hash_delete got h e = Some (r, h') \<and> hash_inv h' \<and> hash_find h e = Some r
      \<and> (\<forall>k. hash_find h' k = (if equiv_by (less_fn h) e k then Some None else hash_find h k)))
    \<and> (\<exists>r h'. hash_replace got h e = Some (r, h') \<and> hash_inv h' \<and> hash_find h e = Some r
      \<and> hash_elems h' = insert e (hash_elems h - set_option r))"
proof -
  obtain r h' where r: "hash_delete got h e = Some (r, h')" "hash_find h e = Some r" "hash_inv h'"
    using ht.delete_law [OF assms] by blast
  obtain q h2 where q: "hash_replace got h e = Some (q, h2)" "hash_inv h2" "found_in h e q"
    "hash_elems h2 = insert e (hash_elems h - set_option q)"
    using hash_replace_spec [OF assms] by blast
  have "hash_find h e = Some q" using q(3) by (intro ht.find_eqI [OF assms]) (simp add: found_in_def)
  then show ?thesis using ht.find_after_delete [OF assms r(1)] r q by auto
qed

theorem hash_delete_replace_map_witness:
  "\<exists>r h'. hash_delete False \<lparr>hash_elem_cnt = 2, hash_bucket_cnt = 4, buckets = [[], [5], [], [7 :: nat]],
      hash_fn = of_nat, less_fn = (<)\<rparr> 5 = Some (r, h') \<and> hash_inv h'
    \<and> (\<forall>k. hash_find h' k = (if equiv_by (<) 5 k then Some None
         else hash_find \<lparr>hash_elem_cnt = 2, hash_bucket_cnt = 4, buckets = [[], [5], [], [7 :: nat]],
           hash_fn = of_nat, less_fn = (<)\<rparr> k))"
  using hash_delete_replace_map [OF sample_table, of False 5] by auto

text \<open>
  Note: iterating with \<open>hash_first\<close> and \<open>hash_next\<close> until null terminates and visits every
  element of the table exactly once, in the order \<open>hash_apply\<close> uses.
\<close>

theorem hash_iteration_complete:
  assumes "hash_inv h"
  shows "hash_walk h (hash_first h) = Some (hash_apply h) \<and> distinct (hash_apply h)
    \<and> set (hash_apply h) = hash_elems h \<and> hash_size h = of_nat (card (hash_elems h))"
proof -
  have d: "distinct (concat (buckets h))" "hash_elem_cnt h = of_nat (length (concat (buckets h)))"
    "0 < length (buckets h)"
    using assms find_bucket_lt [of h] by (auto simp: hash_inv_def)
  have "iter_ok h (hash_first h)" using d(3) by (simp add: iter_ok_def hash_first_def)
  then have "hash_walk h (hash_first h) = Some (hash_apply h)"
    using hash_walk_rest [OF assms] by (simp add: iter_rest_def hash_first_def hash_apply_def)
  then show ?thesis
    using d distinct_card [OF d(1)] by (simp add: hash_apply_def hash_elems_def hash_size_def del: set_concat)
qed

theorem hash_iteration_complete_witness:
  "hash_walk \<lparr>hash_elem_cnt = 2, hash_bucket_cnt = 4, buckets = [[], [5], [], [7 :: nat]],
      hash_fn = of_nat, less_fn = (<)\<rparr> (hash_first \<lparr>hash_elem_cnt = 2, hash_bucket_cnt = 4,
      buckets = [[], [5], [], [7]], hash_fn = of_nat, less_fn = (<)\<rparr>) = Some [5, 7]"
  using hash_iteration_complete [OF sample_table] by (simp add: hash_apply_def)

text \<open>
  Note: the number of buckets \<open>rehash\<close> aims for is the largest power of two that is at most
  \<open>max 4 (elem_cnt / 2)\<close>; the bit-clearing loop that computes it always terminates.
\<close>

theorem rehash_bucket_count:
  "\<exists>m k. reduce_to_power_of_2 (if hash_elem_cnt h div 2 < 4 then 4 else hash_elem_cnt h div 2) = Some m
    \<and> unat m = 2 ^ k \<and> 2 ^ k \<le> max 4 (unat (hash_elem_cnt h) div 2)
    \<and> max 4 (unat (hash_elem_cnt h) div 2) < 2 ^ Suc k"
proof -
  let ?n = "if hash_elem_cnt h div 2 < 4 then 4 else hash_elem_cnt h div 2"
  have "unat ?n = max 4 (unat (hash_elem_cnt h) div 2)"
    by (auto simp: unat_div_distrib word_less_nat_alt)
  then show ?thesis using reduce_to_power_of_2_spec [of ?n] by (auto simp: unat_eq_0 [symmetric] simp del: unat_eq_0)
qed

end
