(* ===== verification/Arith64.thy ===== *)
theory Arith64
  imports Prelude "HOL-Library.Signed_Division"
begin

text \<open>
  64-bit division for the i386, \<open>src/lib/arithmetic.c\<close>.  The \<open>divl\<close> instruction traps when
  the divisor is zero or the quotient does not fit in 32 bits; the trap is \<open>None\<close>.  Signed
  values are 64-bit words read through \<open>sint\<close>, and conversions to a narrower type truncate.
\<close>

section \<open>Model\<close>

definition divl :: "u64 \<Rightarrow> u32 \<Rightarrow> u32 option" where
  "divl n d = (if d = 0 then None
     else let q = n div ucast d in if q < 0x100000000 then Some (ucast q) else None)"

text \<open>\<open>nlz\<close>: each step halves the width it still has to search.\<close>

definition nlz_step :: "u32 \<Rightarrow> nat \<Rightarrow> nat \<times> u32 \<Rightarrow> nat \<times> u32" where
  "nlz_step bound k = (\<lambda>(n, x). if x \<le> bound then (n + k, push_bit k x) else (n, x))"

definition nlz :: "u32 \<Rightarrow> nat" where
  "nlz x0 = (let (n, x) = nlz_step 0x3FFFFFFF 2 (nlz_step 0x0FFFFFFF 4 (nlz_step 0x00FFFFFF 8
       (nlz_step 0x0000FFFF 16 (0, x0)))) in
     if x \<le> 0x7FFFFFFF then n + 1 else n)"

definition udiv64 :: "u64 \<Rightarrow> u64 \<Rightarrow> u64 option" where
  "udiv64 n d =
     (if drop_bit 32 d = 0 then
        let b = 0x100000000;
            n1 = (ucast (drop_bit 32 n) :: u32);
            n0 = (ucast n :: u32);
            d0 = (ucast d :: u32)
        in do {
          q \<leftarrow> divl (b * ucast (n1 mod d0) + ucast n0) d0;
          Some (ucast q + b * ucast (n1 div d0)) }
      else if n < d then Some 0
      else
        let d1 = (ucast (drop_bit 32 d) :: u32);
            s = nlz d1
        in do {
          q0 \<leftarrow> divl (drop_bit 1 n) (ucast (drop_bit 32 (push_bit s d)));
          let q = (ucast (drop_bit (31 - s) q0) :: u64);
          Some (if n - (q - 1) * d < d then q - 1 else q) })"

definition umod64 :: "u64 \<Rightarrow> u64 \<Rightarrow> u32 option" where
  "umod64 n d = do { q \<leftarrow> udiv64 n d; Some (ucast (n - d * q)) }"

definition sdiv64 :: "u64 \<Rightarrow> u64 \<Rightarrow> u64 option" where
  "sdiv64 n d =
     (let n_abs = (if 0 \<le> sint n then n else - n);
          d_abs = (if 0 \<le> sint d then d else - d)
      in do {
        q_abs \<leftarrow> udiv64 n_abs d_abs;
        Some (if (sint n < 0) = (sint d < 0) then q_abs else - q_abs) })"

definition smod64 :: "u64 \<Rightarrow> u64 \<Rightarrow> u32 option" where
  "smod64 n d = do { q \<leftarrow> sdiv64 n d; Some (ucast (n - d * q)) }"

text \<open>The entry points for the compiler: the 32-bit results are extended to 64 bits again.\<close>

definition divdi3 :: "u64 \<Rightarrow> u64 \<Rightarrow> u64 option" where
  "divdi3 n d = sdiv64 n d"

definition moddi3 :: "u64 \<Rightarrow> u64 \<Rightarrow> u64 option" where
  "moddi3 n d = do { r \<leftarrow> smod64 n d; Some (scast r) }"

definition udivdi3 :: "u64 \<Rightarrow> u64 \<Rightarrow> u64 option" where
  "udivdi3 n d = udiv64 n d"

definition umoddi3 :: "u64 \<Rightarrow> u64 \<Rightarrow> u64 option" where
  "umoddi3 n d = do { r \<leftarrow> umod64 n d; Some (ucast r) }"

section \<open>Leading zeros\<close>

lemma pow2_mult: "a + b = c \<Longrightarrow> (2::nat) ^ a * 2 ^ b = 2 ^ c"
  by (auto simp: power_add)

lemma unat_push_bit:
  "unat x * 2 ^ k < 2 ^ LENGTH('a) \<Longrightarrow> unat (push_bit k (x :: 'a::len word)) = unat x * 2 ^ k"
  by (simp only: unsigned_push_bit_eq) (simp add: push_bit_eq_mult take_bit_nat_eq_self)

lemma nlz_step_spec:
  assumes "k \<le> 16" "unat bound = 2 ^ (32 - k) - 1" "2 ^ (32 - 2 * k) \<le> unat x" "unat x = unat x0 * 2 ^ n"
  obtains n' x' where "nlz_step bound k (n, x) = (n', x')" "2 ^ (32 - k) \<le> unat x'" "unat x' = unat x0 * 2 ^ n'"
    "n' \<le> n + k"
proof (cases "x \<le> bound")
  case True
  have pos: "(0::nat) < 2 ^ (32 - k)" by simp
  have "unat x \<le> 2 ^ (32 - k) - 1" using True unfolding word_le_nat_alt assms(2) .
  then have "unat x < 2 ^ (32 - k)" using pos by linarith
  then have lt: "unat x * 2 ^ k < 2 ^ (32 - k) * 2 ^ k" by simp
  have e: "(2::nat) ^ (32 - k) * 2 ^ k = 2 ^ 32" "(2::nat) ^ (32 - 2 * k) * 2 ^ k = 2 ^ (32 - k)"
    using assms(1) by (simp_all flip: power_add)
  have "unat (push_bit k x) = unat x * 2 ^ k" using lt e(1) unat_push_bit [of x k] by simp
  moreover have "2 ^ (32 - 2 * k) * 2 ^ k \<le> unat x * 2 ^ k" using assms(3) by simp
  ultimately show ?thesis
    using that [of "n + k" "push_bit k x"] True e(2) assms(4) by (simp add: nlz_step_def power_add)
next
  case False
  then have "2 ^ (32 - k) \<le> unat x" using assms(2) by (simp add: word_le_nat_alt)
  then show ?thesis using that [of n x] False assms(4) by (simp add: nlz_step_def)
qed

lemma nlz_spec:
  assumes "x \<noteq> 0"
  shows "2 ^ 31 \<le> unat x * 2 ^ nlz x" "unat x * 2 ^ nlz x < 2 ^ 32" "nlz x \<le> 31"
proof -
  have x: "2 ^ (32 - 2 * 16) \<le> unat x" using assms by (simp add: Suc_le_eq unat_gt_0)
  obtain n1 x1 where 1: "nlz_step 0x0000FFFF 16 (0, x) = (n1, x1)" "2 ^ (32 - 2 * 8) \<le> unat x1"
    "unat x1 = unat x * 2 ^ n1" "n1 \<le> 16"
    by (rule nlz_step_spec [of 16 "0x0000FFFF" x x 0]) (use x in simp_all)
  obtain n2 x2 where 2: "nlz_step 0x00FFFFFF 8 (n1, x1) = (n2, x2)" "2 ^ (32 - 2 * 4) \<le> unat x2"
    "unat x2 = unat x * 2 ^ n2" "n2 \<le> n1 + 8"
    by (rule nlz_step_spec [of 8 "0x00FFFFFF" x1 x n1]) (use 1 in simp_all)
  obtain n3 x3 where 3: "nlz_step 0x0FFFFFFF 4 (n2, x2) = (n3, x3)" "2 ^ (32 - 2 * 2) \<le> unat x3"
    "unat x3 = unat x * 2 ^ n3" "n3 \<le> n2 + 4"
    by (rule nlz_step_spec [of 4 "0x0FFFFFFF" x2 x n2]) (use 2 in simp_all)
  obtain n4 x4 where 4: "nlz_step 0x3FFFFFFF 2 (n3, x3) = (n4, x4)" "2 ^ (32 - 2) \<le> unat x4"
    "unat x4 = unat x * 2 ^ n4" "n4 \<le> n3 + 2"
    by (rule nlz_step_spec [of 2 "0x3FFFFFFF" x3 x n3]) (use 3 in simp_all)
  have n: "nlz x = (if x4 \<le> 0x7FFFFFFF then n4 + 1 else n4)"
    using 1(1) 2(1) 3(1) 4(1) by (simp add: nlz_def)
  show "nlz x \<le> 31" using n 1(4) 2(4) 3(4) 4(4) by auto
  show "2 ^ 31 \<le> unat x * 2 ^ nlz x" "unat x * 2 ^ nlz x < 2 ^ 32"
    using n 4(2,3) unat_lt2p [of x4] by (auto simp: word_le_nat_alt)
qed

section \<open>The quotient estimate\<close>

text \<open>
  With the divisor normalised to its upper 32 bits the estimate is the quotient or one more.
\<close>

lemma div_estimate_upper:
  fixes n d D :: nat
  assumes "D \<le> d" "0 < D" "n * (d - D) < D * d"
  shows "n div D \<le> n div d + 1"
proof (rule ccontr)
  let ?q = "n div D"
  assume "\<not> ?q \<le> n div d + 1"
  then have "n div d < ?q - 1" by simp
  then have "n < (?q - 1) * d" using assms(1,2) by (simp add: div_less_iff_less_mult)
  then have a: "n + d \<le> ?q * d" using \<open>n div d < ?q - 1\<close> by (cases ?q) auto
  have b: "?q * D \<le> n" by simp
  have "(n + d) * D \<le> ?q * d * D" using a by (rule mult_le_mono1)
  also have "\<dots> = (?q * D) * d" by simp
  also have "\<dots> \<le> n * d" using b by (rule mult_le_mono1)
  finally have "n * D + d * D \<le> n * d" by (simp add: algebra_simps)
  moreover have "n * (d - D) = n * d - n * D" by (simp add: diff_mult_distrib2)
  ultimately show False using assms(3) by (simp add: mult.commute)
qed

lemma quotient_estimate:
  fixes n d s :: nat
  assumes d: "2 ^ (63 - s) \<le> d" "d < 2 ^ (64 - s)" and s: "s \<le> 31" and n: "n < 2 ^ 64"
  defines "v \<equiv> d * 2 ^ s div 2 ^ 32"
  defines "q \<equiv> n div 2 div v div 2 ^ (31 - s)"
  shows "n div d \<le> q" "q \<le> n div d + 1" "n div 2 div v < 2 ^ 32" "0 < v"
proof -
  have p: "(2::nat) ^ (32 - s) * 2 ^ s = 2 ^ 32" "(2::nat) ^ (63 - s) * 2 ^ s = 2 ^ 63"
    using s by (simp_all flip: power_add)
  have v_eq: "v = d div 2 ^ (32 - s)"
    unfolding v_def p(1) [symmetric] by simp
  define D where "D = v * 2 ^ (32 - s)"
  have "2 ^ 31 * 2 ^ 32 \<le> d * 2 ^ s" using d(1) p(2) mult_le_mono1 [of "2 ^ (63 - s)" d "2 ^ s"] by simp
  then have v31: "2 ^ 31 \<le> v" by (simp add: v_def less_eq_div_iff_mult_less_eq)
  then show "0 < v" by simp
  have "n div 2 < 2 ^ 32 * 2 ^ 31" using n by simp
  also have "\<dots> \<le> 2 ^ 32 * v" using v31 by simp
  finally show "n div 2 div v < 2 ^ 32" using \<open>0 < v\<close> by (simp add: div_less_iff_less_mult)
  have q: "q = n div D"
  proof -
    have "32 - s = Suc (31 - s)" using s by simp
    then have "2 * (v * 2 ^ (31 - s)) = D" by (simp add: D_def)
    then show ?thesis by (simp add: q_def flip: div_mult2_eq) (metis mult.assoc)
  qed
  have D_le: "D \<le> d" "d - D < 2 ^ (32 - s)"
    by (simp_all add: D_def v_eq minus_div_mult_eq_mod)
  have D0: "0 < D" using \<open>0 < v\<close> by (simp add: D_def)
  show "n div d \<le> q" unfolding q using D_le(1) D0 by (rule div_le_mono2 [rotated])
  have D63: "2 ^ (63 - s) \<le> D"
  proof -
    have "2 ^ 31 * 2 ^ (32 - s) \<le> D" using v31 by (simp add: D_def)
    moreover have "(2::nat) ^ 31 * 2 ^ (32 - s) = 2 ^ (63 - s)" by (rule pow2_mult) (use s in simp)
    ultimately show ?thesis by simp
  qed
  have "n * (d - D) < D * d"
  proof (cases "s = 31")
    case True
    then have "d - D \<le> 1" using D_le(2) by simp
    then have "n * (d - D) \<le> n" by (metis mult.right_neutral mult_le_mono2)
    also have "\<dots> < 2 ^ 32 * 2 ^ 32" using n by simp
    also have "\<dots> \<le> D * d" using D63 d(1) True by (intro mult_le_mono) simp_all
    finally show ?thesis .
  next
    case False
    have "n * (d - D) < 2 ^ 64 * 2 ^ (32 - s)" using n D_le(2) by (intro mult_strict_mono') simp_all
    also have "\<dots> = 2 ^ (96 - s)" by (rule pow2_mult) (use s in simp)
    also have "\<dots> \<le> 2 ^ ((63 - s) + (63 - s))" using s False by (intro power_increasing) simp_all
    also have "\<dots> = 2 ^ (63 - s) * 2 ^ (63 - s)" by (rule power_add)
    also have "\<dots> \<le> D * d" using D63 d(1) by (rule mult_le_mono)
    finally show ?thesis .
  qed
  then show "q \<le> n div d + 1" unfolding q using D_le(1) D0 by (rule div_estimate_upper [rotated 2])
qed

section \<open>Unsigned division\<close>

lemma unat_ucast_32_64 [simp]: "unat (ucast (x :: u32) :: u64) = unat x"
  by (simp add: unsigned_ucast_eq take_bit_nat_eq_self_iff unat_lt2p [THEN less_le_trans])

lemma unat_ucast_64_32: "unat x < 2 ^ 32 \<Longrightarrow> unat (ucast (x :: u64) :: u32) = unat x"
  by (simp add: unsigned_ucast_eq take_bit_nat_eq_self)

lemma unat_drop_bit: "unat (drop_bit k (x :: 'a::len word)) = unat x div 2 ^ k"
  by (simp only: unsigned_drop_bit_eq) (simp add: drop_bit_eq_div take_bit_nat_eq_self unat_lt2p)

lemma divl_spec:
  assumes "d \<noteq> 0" "unat n div unat d < 2 ^ 32"
  shows "\<exists>q. divl n d = Some q \<and> unat q = unat n div unat d"
proof -
  have u: "unat (n div ucast d) = unat n div unat d" by (simp add: unat_div_distrib)
  then have "n div ucast d < 0x100000000" using assms(2) by (simp add: word_less_nat_alt)
  then show ?thesis using assms u by (simp add: divl_def Let_def unat_ucast_64_32)
qed

text \<open>Word arithmetic that stays below the word size is natural number arithmetic.\<close>

lemma unat_mult_no_wrap:
  "unat x * unat y < 2 ^ LENGTH('a) \<Longrightarrow> unat (x * y :: 'a::len word) = unat x * unat y"
  by (simp add: unat_word_ariths)

lemma unat_add_no_wrap:
  "unat x + unat y < 2 ^ LENGTH('a) \<Longrightarrow> unat (x + y :: 'a::len word) = unat x + unat y"
  by (simp add: unat_word_ariths)

lemma udiv64_small:
  assumes "drop_bit 32 d = 0" "d \<noteq> 0"
  shows "udiv64 n d = Some (n div d)"
proof -
  define n1 n0 d0 where "n1 = (ucast (drop_bit 32 n) :: u32)" and "n0 = (ucast n :: u32)" and "d0 = (ucast d :: u32)"
  define x where "x = (0x100000000 :: u64) * ucast (n1 mod d0) + ucast n0"
  have "unat d div 2 ^ 32 = 0" using assms(1) by (metis unat_drop_bit unat_0)
  then have "unat d < 2 ^ 32" by (simp add: div_eq_0_iff)
  then have d0: "unat d0 = unat d" by (simp add: d0_def unat_ucast_64_32)
  have d_pos: "0 < unat d" using assms(2) by (simp add: unat_gt_0)
  then have d_nz: "d0 \<noteq> 0" using d0 by (metis less_irrefl unat_0)
  have "unat n div 2 ^ 32 < 2 ^ 32" using unat_lt2p [of n] by (simp add: div_less_iff_less_mult)
  then have n1: "unat n1 = unat n div 2 ^ 32" by (simp add: n1_def unat_ucast_64_32 unat_drop_bit)
  have n0: "unat n0 = unat n mod 2 ^ 32" by (simp add: n0_def unsigned_ucast_eq take_bit_eq_mod)
  have r: "unat (n1 mod d0) = unat n1 mod unat d" by (simp add: unat_mod_distrib d0)
  have rlt: "unat n1 mod unat d < unat d" using d_pos by simp
  have xlt: "2 ^ 32 * (unat n1 mod unat d) + unat n0 < 2 ^ 32 * unat d"
  proof -
    have "2 ^ 32 * Suc (unat n1 mod unat d) \<le> 2 ^ 32 * unat d" using rlt by (intro mult_le_mono2) simp
    then show ?thesis using n0 by (simp add: algebra_simps)
  qed
  have bound: "2 ^ 32 * (unat n1 mod unat d) + unat n0 < 2 ^ 64"
    using xlt \<open>unat d < 2 ^ 32\<close> by simp
  have x: "unat x = 2 ^ 32 * (unat n1 mod unat d) + unat n0"
    using bound r by (simp add: x_def unat_add_no_wrap unat_mult_no_wrap)
  have q_eq: "unat n div unat d = 2 ^ 32 * (unat n1 div unat d) + unat x div unat d"
  proof -
    have "unat n = 2 ^ 32 * unat n1 + unat n0" by (simp add: n1 n0)
    also have "\<dots> = unat d * (2 ^ 32 * (unat n1 div unat d)) + unat x"
    proof -
      have "2 ^ 32 * (unat d * (unat n1 div unat d) + unat n1 mod unat d)
          = unat d * (2 ^ 32 * (unat n1 div unat d)) + 2 ^ 32 * (unat n1 mod unat d)"
        by (simp only: distrib_left mult.left_commute)
      then show ?thesis unfolding x mult_div_mod_eq by (simp only: add.assoc)
    qed
    finally have "unat n = unat d * (2 ^ 32 * (unat n1 div unat d)) + unat x" .
    then show ?thesis using d_pos by simp
  qed
  have "unat x div unat d0 < 2 ^ 32" using xlt x d0 by (simp add: div_less_iff_less_mult mult.commute)
  then obtain q where q: "divl x d0 = Some q" "unat q = unat x div unat d" using divl_spec [OF d_nz] d0 by metis
  have lt: "2 ^ 32 * (unat n1 div unat d) + unat x div unat d < 2 ^ 64"
    unfolding q_eq [symmetric] using le_less_trans [OF div_le_dividend unat_lt2p [of n]] by simp
  have "unat (ucast q + 0x100000000 * ucast (n1 div d0) :: u64) = unat n div unat d"
    using lt q(2) q_eq by (simp add: unat_add_no_wrap unat_mult_no_wrap unat_div_distrib d0)
  then have "ucast q + 0x100000000 * ucast (n1 div d0) = n div d" by (simp add: word_unat_eq_iff unat_div_distrib)
  then show ?thesis
    using assms(1) q(1) by (simp add: udiv64_def Let_def x_def n1_def n0_def d0_def)
qed

text \<open>The final correction: the estimate is the quotient or one more.\<close>

lemma correct_estimate:
  fixes n d q :: u64
  assumes "unat n div unat d \<le> unat q" "unat q \<le> unat n div unat d + 1" "1 \<le> unat n div unat d"
  shows "(if n - (q - 1) * d < d then q - 1 else q) = n div d"
proof -
  let ?m = "unat n div unat d"
  have q1: "unat (q - 1) = unat q - 1" using assms(1,3) by (simp add: unat_minus_one word_unat_eq_iff)
  have d0: "0 < unat d" using assms(3) by (cases "unat d = 0") auto
  have "(unat q - 1) * unat d \<le> ?m * unat d" using assms(2) by (intro mult_le_mono1) simp
  then have le: "(unat q - 1) * unat d \<le> unat n" by (meson div_times_less_eq_dividend le_trans)
  then have "unat ((q - 1) * d) = (unat q - 1) * unat d"
    using unat_lt2p [of n] by (simp add: unat_mult_no_wrap q1)
  then have r: "unat (n - (q - 1) * d) = unat n - (unat q - 1) * unat d"
    using le by (simp add: unat_sub word_le_nat_alt)
  consider "unat q = ?m + 1" | "unat q = ?m" using assms(1,2) by linarith
  then show ?thesis
  proof cases
    case 1
    then have "n - (q - 1) * d < d" using r d0 by (simp add: word_less_nat_alt minus_div_mult_eq_mod)
    then show ?thesis using 1 q1 by (simp add: word_unat_eq_iff unat_div_distrib)
  next
    case 2
    have "unat n - (?m - 1) * unat d = unat n mod unat d + unat d"
    proof -
      have "(?m - 1) * unat d = ?m * unat d - unat d" by (simp add: diff_mult_distrib)
      moreover have "unat d \<le> ?m * unat d" using assms(3) by simp
      ultimately show ?thesis using div_mult_mod_eq [of "unat n" "unat d"] by linarith
    qed
    then have "\<not> n - (q - 1) * d < d" using r 2 by (simp add: word_less_nat_alt)
    then show ?thesis using 2 by (simp add: word_unat_eq_iff unat_div_distrib)
  qed
qed

lemma udiv64_big:
  assumes "drop_bit 32 d \<noteq> 0"
  shows "udiv64 n d = Some (n div d)"
proof (cases "n < d")
  case True
  then show ?thesis using assms by (simp add: udiv64_def word_less_nat_alt word_unat_eq_iff unat_div_distrib)
next
  case False
  let ?d1 = "ucast (drop_bit 32 d) :: u32"
  define s where "s = nlz ?d1"
  have d1: "unat ?d1 = unat d div 2 ^ 32" "?d1 \<noteq> 0"
  proof -
    have "unat d div 2 ^ 32 < 2 ^ 32" using unat_lt2p [of d] by (simp add: div_less_iff_less_mult)
    then show e: "unat ?d1 = unat d div 2 ^ 32" by (simp add: unat_ucast_64_32 unat_drop_bit)
    then show "?d1 \<noteq> 0" using assms by (auto simp: word_unat_eq_iff unat_drop_bit)
  qed
  note nz = nlz_spec [OF d1(2), folded s_def]
  have p: "(2::nat) ^ (31 - s) * 2 ^ s = 2 ^ 31" "(2::nat) ^ (32 - s) * 2 ^ s = 2 ^ 32"
    using nz(3) by (simp_all flip: power_add)
  have lo: "2 ^ (63 - s) \<le> unat d"
  proof -
    have "2 ^ (31 - s) \<le> unat d div 2 ^ 32" 
      using nz(1) unfolding d1(1) p(1) [symmetric] by simp
    then have "2 ^ (31 - s) * 2 ^ 32 \<le> unat d" by (simp add: less_eq_div_iff_mult_less_eq)
    moreover have "(2::nat) ^ (31 - s) * 2 ^ 32 = 2 ^ (63 - s)" by (rule pow2_mult) (use nz(3) in simp)
    ultimately show ?thesis by simp
  qed
  have hi: "unat d < 2 ^ (64 - s)"
  proof -
    have "unat d div 2 ^ 32 < 2 ^ (32 - s)" 
      using nz(2) unfolding d1(1) p(2) [symmetric] by simp
    then have "unat d < 2 ^ (32 - s) * 2 ^ 32" by (simp add: div_less_iff_less_mult)
    moreover have "(2::nat) ^ (32 - s) * 2 ^ 32 = 2 ^ (64 - s)" by (rule pow2_mult) (use nz(3) in simp)
    ultimately show ?thesis by simp
  qed
  have "unat n < 2 ^ 64" using unat_lt2p [of n] by simp
  note est = quotient_estimate [OF lo hi nz(3) this]
  let ?v = "ucast (drop_bit 32 (push_bit s d)) :: u32"
  have sh: "unat d * 2 ^ s < 2 ^ 64"
  proof -
    have "unat d * 2 ^ s < 2 ^ (64 - s) * 2 ^ s" using hi by simp
    moreover have "(2::nat) ^ (64 - s) * 2 ^ s = 2 ^ 64" by (rule pow2_mult) (use nz(3) in simp)
    ultimately show ?thesis by simp
  qed
  have v: "unat ?v = unat d * 2 ^ s div 2 ^ 32" "?v \<noteq> 0"
  proof -
    have "unat d * 2 ^ s div 2 ^ 32 < 2 ^ 32" using sh by (simp add: div_less_iff_less_mult)
    then show e: "unat ?v = unat d * 2 ^ s div 2 ^ 32" using sh by (simp add: unat_ucast_64_32 unat_drop_bit unat_push_bit)
    then show "?v \<noteq> 0" using est(4) by (auto simp: word_unat_eq_iff)
  qed
  obtain q0 where q0: "divl (drop_bit 1 n) ?v = Some q0" "unat q0 = unat n div 2 div unat ?v"
    using divl_spec [OF v(2), of "drop_bit 1 n"] est(3) v(1) by (auto simp: unat_drop_bit)
  define q where "q = (ucast (drop_bit (31 - s) q0) :: u64)"
  have q: "unat n div unat d \<le> unat q" "unat q \<le> unat n div unat d + 1"
    using est(1,2) q0(2) v(1) by (simp_all add: q_def unat_drop_bit)
  have "1 \<le> unat n div unat d"
    using False assms by (simp add: word_less_nat_alt Suc_le_eq div_greater_zero_iff unat_gt_0) auto
  then have res: "(if n - (q - 1) * d < d then q - 1 else q) = n div d" using correct_estimate q by blast
  show ?thesis
    using assms False q0(1) res by (simp add: udiv64_def s_def [symmetric] q_def [symmetric])
qed

lemma udiv64_eq: "udiv64 n d = (if d = 0 then None else Some (n div d))"
proof (cases "d = 0")
  case True
  then show ?thesis by (simp add: udiv64_def divl_def Let_def)
next
  case False
  then show ?thesis using udiv64_small [of d n] udiv64_big [of d n] by (cases "drop_bit 32 d = 0") simp_all
qed

section \<open>Signed division\<close>

lemma abs_word: "(if 0 \<le> sint n then n else - n) = word_of_int \<bar>sint n\<bar>" for n :: "'a::len word"
  using arg_cong [OF of_int_sint [of n], of uminus] by (simp add: abs_if)

lemma uint_abs_word: "uint (word_of_int \<bar>sint n\<bar> :: u64) = \<bar>sint n\<bar>" for n :: u64
proof -
  have "- (2 ^ 63) \<le> sint n" "sint n < 2 ^ 63"
    using sint_greater_eq [of n] sint_less [of n] by simp_all
  then show ?thesis by (simp add: uint_word_of_int)
qed

lemma sdiv64_eq:
  assumes "d \<noteq> 0"
  shows "sdiv64 n d = Some (word_of_int (sint n sdiv sint d))"
proof -
  let ?n = "word_of_int \<bar>sint n\<bar> :: u64" and ?d = "word_of_int \<bar>sint d\<bar> :: u64"
  have "(word_of_int (sint d) :: u64) = d" by simp
  then have "sint d \<noteq> 0" using assms by (metis of_int_0)
  then have "uint ?d \<noteq> 0" unfolding uint_abs_word by simp
  then have "?d \<noteq> 0" by (metis unsigned_0)
  then have "udiv64 ?n ?d = Some (?n div ?d)" by (simp add: udiv64_eq)
  moreover have "?n div ?d = word_of_int (\<bar>sint n\<bar> div \<bar>sint d\<bar>)"
    by (simp add: word_div_def uint_abs_word)
  ultimately show ?thesis
    by (auto simp: sdiv64_def Let_def abs_word signed_divide_int_def sgn_if)
qed

section \<open>Properties\<close>

text \<open>
  C27: 64-bit unsigned division on a 32-bit machine is exact: \<open>udiv64\<close> (the compiler's
  \<open>__udivdi3\<close>) returns the quotient of every dividend by every non-zero divisor, including
  the divisors of more than 32 bits for which it estimates the quotient from the normalised upper
  half, and its \<open>divl\<close> instruction never traps; a zero divisor traps.
\<close>

theorem udivdi3_correct:
  "udivdi3 n d = (if d = 0 then None else Some (n div d))"
  by (simp add: udivdi3_def udiv64_eq)

text \<open>
  Note: signed 64-bit division (\<open>__divdi3\<close>) rounds towards zero, as C requires, for all
  operands with a non-zero divisor; the one quotient that does not fit wraps around.
\<close>

theorem divdi3_correct:
  assumes "d \<noteq> 0"
  shows "divdi3 n d = Some (word_of_int (sint n sdiv sint d))"
  by (simp add: divdi3_def sdiv64_eq assms)

theorem divdi3_correct_witness:
  "divdi3 (-7) 2 = Some (word_of_int (sint (-7 :: u64) sdiv sint (2 :: u64)))"
  by (rule divdi3_correct) simp

text \<open>
  Note: the remainder routines truncate.  \<open>umod64\<close> is declared to return 32 bits, so
  \<open>__umoddi3\<close> returns the remainder modulo \<open>2^32\<close>: right for every divisor up to \<open>2^32\<close>,
  wrong as soon as the remainder needs more than 32 bits.
\<close>

theorem umoddi3_truncates:
  assumes "d \<noteq> 0"
  shows "\<exists>r. umoddi3 n d = Some r \<and> unat r = (unat n mod unat d) mod 2 ^ 32
    \<and> (unat d \<le> 2 ^ 32 \<longrightarrow> r = n mod d)"
proof -
  have m: "n - d * (n div d) = n mod d" by (simp add: minus_mult_div_eq_mod)
  let ?r = "ucast (ucast (n mod d) :: u32) :: u64"
  have u: "unat ?r = (unat n mod unat d) mod 2 ^ 32"
    by (simp add: unsigned_ucast_eq take_bit_eq_mod unat_mod_distrib)
  have "?r = n mod d" if "unat d \<le> 2 ^ 32"
  proof -
    have "unat n mod unat d < unat d" using assms by (simp add: unat_gt_0)
    then have "unat n mod unat d < 2 ^ 32" using that by linarith
    then show ?thesis using u by (simp add: word_unat_eq_iff unat_mod_distrib)
  qed
  then show ?thesis using u assms by (simp add: umoddi3_def umod64_def udiv64_eq m)
qed

theorem umoddi3_truncates_witness:
  "\<exists>r. umoddi3 0x1FFFFFFFF 0x200000000 = Some r \<and> unat r = (0x1FFFFFFFF mod 0x200000000) mod 2 ^ 32
    \<and> unat r \<noteq> 0x1FFFFFFFF mod 0x200000000"
  using umoddi3_truncates [of "0x200000000" "0x1FFFFFFFF"] by auto

end
