(* ===== verification/Stdlib_Sort.thy ===== *)
theory Stdlib_Sort
  imports Prelude "HOL-Library.Multiset"
begin

text \<open>
  Heap sort and binary search on byte arrays, \<open>src/lib/stdlib.c\<close>.  The array is a list of
  bytes holding elements of \<open>sz\<close> bytes each; element indexes are 1-based in the sorting
  routines, as in the code.  The comparison function is a parameter that takes the bytes of
  two elements and returns an integer.  An access outside the array would be undefined
  behaviour; the sizes are natural numbers, since an array that fits in memory never makes the
  index arithmetic wrap.
\<close>

section \<open>Model\<close>

type_synonym byte_cmp = "u8 list \<Rightarrow> u8 list \<Rightarrow> int"

text \<open>The \<open>sz\<close> bytes at offset \<open>off\<close>.\<close>

definition block_at :: "u8 list \<Rightarrow> nat \<Rightarrow> nat \<Rightarrow> u8 list" where
  "block_at arr off sz = take sz (drop off arr)"

primrec do_swap_loop :: "nat \<Rightarrow> nat \<Rightarrow> nat \<Rightarrow> nat \<Rightarrow> u8 list \<Rightarrow> u8 list" where
  "do_swap_loop 0 i a b arr = arr"
| "do_swap_loop (Suc n) i a b arr =
     (let t = arr ! (a + i) in do_swap_loop n (Suc i) a b (arr[a + i := arr ! (b + i), b + i := t]))"

definition do_swap :: "u8 list \<Rightarrow> nat \<Rightarrow> nat \<Rightarrow> nat \<Rightarrow> u8 list" where
  "do_swap arr a_idx b_idx sz = do_swap_loop sz 0 ((a_idx - 1) * sz) ((b_idx - 1) * sz) arr"

definition do_compare :: "u8 list \<Rightarrow> nat \<Rightarrow> nat \<Rightarrow> nat \<Rightarrow> byte_cmp \<Rightarrow> int" where
  "do_compare arr a_idx b_idx sz compare =
     compare (block_at arr ((a_idx - 1) * sz) sz) (block_at arr ((b_idx - 1) * sz) sz)"

text \<open>The index of the largest of element \<open>i\<close> and its children.\<close>

definition heapify_max :: "(nat \<Rightarrow> nat \<Rightarrow> int) \<Rightarrow> nat \<Rightarrow> nat \<Rightarrow> nat" where
  "heapify_max cmp i cnt =
     (let left = 2 * i; right = 2 * i + 1;
          m = (if left \<le> cnt \<and> cmp left i > 0 then left else i)
      in if right \<le> cnt \<and> cmp right m > 0 then right else m)"

lemma heapify_max_cases:
  "heapify_max cmp i cnt = i \<or> (heapify_max cmp i cnt \<in> {2 * i, 2 * i + 1} \<and> heapify_max cmp i cnt \<le> cnt)"
  by (auto simp: heapify_max_def Let_def)

text \<open>
  \<open>for (;;)\<close> in \<open>heapify\<close>; for \<open>i = 0\<close> (never used by \<open>sort\<close>) the loop may not advance, hence
  a partial function.
\<close>

partial_function (option) heapify :: "u8 list \<Rightarrow> nat \<Rightarrow> nat \<Rightarrow> nat \<Rightarrow> byte_cmp \<Rightarrow> u8 list option" where
  "heapify arr i cnt sz compare =
     (let m = heapify_max (\<lambda>a b. do_compare arr a b sz compare) i cnt in
      if m = i then Some arr else heapify (do_swap arr i m sz) m cnt sz compare)"

primrec build_heap :: "nat \<Rightarrow> u8 list \<Rightarrow> nat \<Rightarrow> nat \<Rightarrow> byte_cmp \<Rightarrow> u8 list option" where
  "build_heap 0 arr cnt sz compare = Some arr"
| "build_heap (Suc i) arr cnt sz compare = do {
     arr \<leftarrow> heapify arr (Suc i) cnt sz compare;
     build_heap i arr cnt sz compare }"

fun sort_heap :: "nat \<Rightarrow> u8 list \<Rightarrow> nat \<Rightarrow> byte_cmp \<Rightarrow> u8 list option" where
  "sort_heap (Suc (Suc i)) arr sz compare = do {
     arr \<leftarrow> heapify (do_swap arr 1 (Suc (Suc i)) sz) 1 (Suc i) sz compare;
     sort_heap (Suc i) arr sz compare }"
| "sort_heap _ arr sz compare = Some arr"

definition sort_array :: "u8 list \<Rightarrow> nat \<Rightarrow> nat \<Rightarrow> byte_cmp \<Rightarrow> u8 list option" where
  "sort_array arr cnt sz compare = do {
     kassert (sz > 0);
     arr \<leftarrow> build_heap (cnt div 2) arr cnt sz compare;
     sort_heap cnt arr sz compare }"

definition qsort :: "u8 list \<Rightarrow> nat \<Rightarrow> nat \<Rightarrow> byte_cmp \<Rightarrow> u8 list option" where
  "qsort arr cnt sz compare = sort_array arr cnt sz compare"

text \<open>\<open>first\<close> and \<open>last\<close> are the byte offsets of the pointers; \<open>None\<close> is the null pointer.\<close>

partial_function (option) binary_search_loop ::
    "u8 list \<Rightarrow> u8 list \<Rightarrow> nat \<Rightarrow> nat \<Rightarrow> nat \<Rightarrow> byte_cmp \<Rightarrow> nat option option" where
  "binary_search_loop key arr first lst sz compare =
     (if first < lst then
        let range = (lst - first) div sz;
            middle = first + (range div 2) * sz;
            cmp = compare key (block_at arr middle sz)
        in if cmp < 0 then binary_search_loop key arr first middle sz compare
           else if cmp > 0 then binary_search_loop key arr (middle + sz) lst sz compare
           else Some (Some middle)
      else Some None)"

definition binary_search :: "u8 list \<Rightarrow> u8 list \<Rightarrow> nat \<Rightarrow> nat \<Rightarrow> byte_cmp \<Rightarrow> nat option option" where
  "binary_search key arr cnt sz compare = binary_search_loop key arr 0 (sz * cnt) sz compare"

definition bsearch :: "u8 list \<Rightarrow> u8 list \<Rightarrow> nat \<Rightarrow> nat \<Rightarrow> byte_cmp \<Rightarrow> nat option option" where
  "bsearch key arr cnt sz compare = binary_search key arr cnt sz compare"

section \<open>Elements\<close>

definition elems :: "nat \<Rightarrow> nat \<Rightarrow> u8 list \<Rightarrow> u8 list list" where
  "elems sz cnt arr = map (\<lambda>k. block_at arr (k * sz) sz) [0..<cnt]"

definition swap_elems :: "'a list \<Rightarrow> nat \<Rightarrow> nat \<Rightarrow> 'a list" where
  "swap_elems xs a b = xs[a := xs ! b, b := xs ! a]"

lemma length_elems [simp]: "length (elems sz cnt arr) = cnt"
  by (simp add: elems_def)

lemma nth_elems [simp]: "k < cnt \<Longrightarrow> elems sz cnt arr ! k = block_at arr (k * sz) sz"
  by (simp add: elems_def)

text \<open>Which position of the array position \<open>j\<close> receives its byte from.\<close>

definition swap_pos :: "nat \<Rightarrow> nat \<Rightarrow> nat \<Rightarrow> nat \<Rightarrow> nat" where
  "swap_pos p q n j = (if p \<le> j \<and> j < p + n then j - p + q else if q \<le> j \<and> j < q + n then j - q + p else j)"

lemma swap_pos_in1: "p \<le> j \<Longrightarrow> j < p + n \<Longrightarrow> swap_pos p q n j = j - p + q"
  by (simp add: swap_pos_def)

lemma swap_pos_in2: "j < p \<or> p + n \<le> j \<Longrightarrow> q \<le> j \<Longrightarrow> j < q + n \<Longrightarrow> swap_pos p q n j = j - q + p"
  by (auto simp: swap_pos_def)

lemma swap_pos_out: "j < p \<or> p + n \<le> j \<Longrightarrow> j < q \<or> q + n \<le> j \<Longrightarrow> swap_pos p q n j = j"
  by (auto simp: swap_pos_def)

lemma swap_pos_Suc:
  assumes "p + Suc n \<le> q \<or> q + Suc n \<le> p"
  shows "swap_pos p q (Suc n) j =
    (let k = swap_pos (Suc p) (Suc q) n j in if k = p then q else if k = q then p else k)"
proof (cases "j = p \<or> j = q")
  case True
  have "swap_pos (Suc p) (Suc q) n j = j" using True assms by (intro swap_pos_out) auto
  moreover have "swap_pos p q (Suc n) p = q" by (simp add: swap_pos_in1)
  moreover have "swap_pos p q (Suc n) q = p" using assms by (subst swap_pos_in2) auto
  ultimately show ?thesis using True assms by (auto simp: Let_def)
next
  case False
  then have "swap_pos p q (Suc n) j = swap_pos (Suc p) (Suc q) n j" by (auto simp: swap_pos_def)
  moreover have "swap_pos (Suc p) (Suc q) n j \<noteq> p" "swap_pos (Suc p) (Suc q) n j \<noteq> q"
    using assms False by (auto simp: swap_pos_def split: if_splits)
  ultimately show ?thesis by (simp add: Let_def)
qed

lemma do_swap_loop_nth:
  assumes "a + i + n \<le> length arr" "b + i + n \<le> length arr" "a + n \<le> b \<or> b + n \<le> a"
  shows "length (do_swap_loop n i a b arr) = length arr \<and>
    (\<forall>j < length arr. do_swap_loop n i a b arr ! j = arr ! swap_pos (a + i) (b + i) n j)"
  using assms
proof (induction n arbitrary: i arr)
  case 0
  show ?case by (auto simp: swap_pos_def)
next
  case (Suc n)
  let ?arr = "arr[a + i := arr ! (b + i), b + i := arr ! (a + i)]"
  have IH: "length (do_swap_loop n (Suc i) a b ?arr) = length arr"
    "\<And>j. j < length arr \<Longrightarrow> do_swap_loop n (Suc i) a b ?arr ! j = ?arr ! swap_pos (Suc (a + i)) (Suc (b + i)) n j"
    using Suc.IH [of "Suc i" ?arr] Suc.prems by auto
  have tr: "?arr ! k = arr ! (if k = a + i then b + i else if k = b + i then a + i else k)" if "k < length arr" for k
    using that Suc.prems by (auto simp: nth_list_update)
  have lt: "swap_pos (Suc (a + i)) (Suc (b + i)) n j < length arr" if "j < length arr" for j
    using that Suc.prems by (auto simp: swap_pos_def)
  have "do_swap_loop (Suc n) i a b arr ! j = arr ! swap_pos (a + i) (b + i) (Suc n) j" if "j < length arr" for j
    using IH(2) [OF that] tr [OF lt [OF that]] swap_pos_Suc [of "a + i" n "b + i" j] Suc.prems(3)
    by (simp add: Let_def)
  then show ?case using IH(1) by (simp add: Let_def)
qed

lemma nth_block_at: "off + sz \<le> length arr \<Longrightarrow> i < sz \<Longrightarrow> block_at arr off sz ! i = arr ! (off + i)"
  by (simp add: block_at_def)

lemma length_block_at [simp]: "off + sz \<le> length arr \<Longrightarrow> length (block_at arr off sz) = sz"
  by (simp add: block_at_def)

lemma elem_in_array: "k < cnt \<Longrightarrow> k * sz + sz \<le> sz * cnt" for k cnt sz :: nat
  using mult_le_mono1 [of "Suc k" cnt sz] by (simp add: algebra_simps)

lemma elem_disjoint: "a \<noteq> b \<Longrightarrow> a * sz + sz \<le> b * sz \<or> b * sz + sz \<le> a * sz" for a b sz :: nat
  using mult_le_mono1 [of "Suc a" b sz] mult_le_mono1 [of "Suc b" a sz] by (cases "a < b") (auto simp: algebra_simps)

lemma do_swap_elems:
  assumes len: "length arr = sz * cnt" and idx: "1 \<le> a" "a \<le> cnt" "1 \<le> b" "b \<le> cnt" "a \<noteq> b"
  shows "length (do_swap arr a b sz) = length arr"
    "elems sz cnt (do_swap arr a b sz) = swap_elems (elems sz cnt arr) (a - 1) (b - 1)"
proof -
  let ?p = "(a - 1) * sz" and ?q = "(b - 1) * sz"
  have ab: "a - 1 < cnt" "b - 1 < cnt" "a - 1 \<noteq> b - 1" using idx by auto
  note inr = elem_in_array [OF ab(1), of sz] elem_in_array [OF ab(2), of sz] elem_disjoint [OF ab(3), of sz]
  have n: "length (do_swap arr a b sz) = length arr"
    "\<And>j. j < length arr \<Longrightarrow> do_swap arr a b sz ! j = arr ! swap_pos ?p ?q sz j"
    using do_swap_loop_nth [of ?p 0 sz arr ?q] inr len by (auto simp: do_swap_def)
  show "length (do_swap arr a b sz) = length arr" by (rule n(1))
  have blk: "block_at (do_swap arr a b sz) (k * sz) sz =
      block_at arr ((if k = a - 1 then b - 1 else if k = b - 1 then a - 1 else k) * sz) sz" if k: "k < cnt" for k
  proof (rule nth_equalityI)
    let ?k = "if k = a - 1 then b - 1 else if k = b - 1 then a - 1 else k"
    have k': "?k < cnt" using ab k by simp
    note in_k = elem_in_array [OF k, of sz] elem_in_array [OF k', of sz]
    show "length (block_at (do_swap arr a b sz) (k * sz) sz) = length (block_at arr (?k * sz) sz)"
      using in_k n(1) len by simp
    fix i
    assume "i < length (block_at (do_swap arr a b sz) (k * sz) sz)"
    then have i: "i < sz" using in_k n(1) len by simp
    have "swap_pos ?p ?q sz (k * sz + i) = ?k * sz + i"
    proof -
      have out: "k * sz + i < r * sz \<or> r * sz + sz \<le> k * sz + i" if "k \<noteq> r" for r
        using elem_disjoint [OF that, of sz] i by linarith
      consider "k = a - 1" | "k \<noteq> a - 1" "k = b - 1" | "k \<noteq> a - 1" "k \<noteq> b - 1" by blast
      then show ?thesis
      proof cases
        case 1
        then show ?thesis using i swap_pos_in1 [of ?p "k * sz + i" sz ?q] by simp
      next
        case 2
        then show ?thesis using i swap_pos_in2 [OF out [OF 2(1)], of ?q] by simp
      next
        case 3
        then show ?thesis using swap_pos_out [OF out [OF 3(1)] out [OF 3(2)]] by simp
      qed
    qed
    then show "block_at (do_swap arr a b sz) (k * sz) sz ! i = block_at arr (?k * sz) sz ! i"
      using n in_k i len by (simp add: nth_block_at)
  qed
  show "elems sz cnt (do_swap arr a b sz) = swap_elems (elems sz cnt arr) (a - 1) (b - 1)"
    using ab by (intro nth_equalityI) (auto simp: swap_elems_def blk nth_list_update)
qed

section \<open>Heaps\<close>

text \<open>
  A heap is stated on the 1-based element function \<open>F\<close>; \<open>gt x y\<close> says that \<open>x\<close> is
  greater than \<open>y\<close>.  \<open>heap_from F k n\<close>: every node from \<open>k\<close> on dominates its children up
  to \<open>n\<close>; \<open>heap_except\<close> leaves out node \<open>j\<close>, whose children its parent still dominates.
\<close>

definition child_of :: "nat \<Rightarrow> nat \<Rightarrow> bool" where
  "child_of c i \<longleftrightarrow> c = 2 * i \<or> c = 2 * i + 1"

definition heap_from :: "('a \<Rightarrow> 'a \<Rightarrow> bool) \<Rightarrow> (nat \<Rightarrow> 'a) \<Rightarrow> nat \<Rightarrow> nat \<Rightarrow> bool" where
  "heap_from gt F k n \<longleftrightarrow> (\<forall>i c. k \<le> i \<longrightarrow> child_of c i \<longrightarrow> c \<le> n \<longrightarrow> \<not> gt (F c) (F i))"

definition heap_except :: "('a \<Rightarrow> 'a \<Rightarrow> bool) \<Rightarrow> (nat \<Rightarrow> 'a) \<Rightarrow> nat \<Rightarrow> nat \<Rightarrow> nat \<Rightarrow> bool" where
  "heap_except gt F k n j \<longleftrightarrow>
     (\<forall>i c. k \<le> i \<longrightarrow> i \<noteq> j \<longrightarrow> child_of c i \<longrightarrow> c \<le> n \<longrightarrow> \<not> gt (F c) (F i))
     \<and> (\<forall>p c. k \<le> p \<longrightarrow> child_of j p \<longrightarrow> child_of c j \<longrightarrow> c \<le> n \<longrightarrow> \<not> gt (F c) (F p))"

definition swap_fun :: "(nat \<Rightarrow> 'a) \<Rightarrow> nat \<Rightarrow> nat \<Rightarrow> nat \<Rightarrow> 'a" where
  "swap_fun F a b k = (if k = a then F b else if k = b then F a else F k)"

lemma child_of_parent: "child_of c i \<Longrightarrow> child_of c i' \<Longrightarrow> i = i'"
  by (auto simp: child_of_def)

lemma child_of_gt: "1 \<le> i \<Longrightarrow> child_of c i \<Longrightarrow> i < c"
  by (auto simp: child_of_def)

lemma heapify_max_facts:
  fixes F :: "nat \<Rightarrow> 'a"
  assumes sw: "strict_weak gt S" and S: "\<And>k. 1 \<le> k \<Longrightarrow> k \<le> n \<Longrightarrow> F k \<in> S" and j: "1 \<le> j" "j \<le> n"
    and cmp: "\<And>a b. 1 \<le> a \<Longrightarrow> a \<le> n \<Longrightarrow> 1 \<le> b \<Longrightarrow> b \<le> n \<Longrightarrow> (cmp a b > 0) = gt (F a) (F b)"
  defines "m \<equiv> heapify_max cmp j n"
  shows "(m = j \<and> (\<forall>c. child_of c j \<longrightarrow> c \<le> n \<longrightarrow> \<not> gt (F c) (F j))) \<or>
    (child_of m j \<and> m \<le> n \<and> gt (F m) (F j) \<and> (\<forall>c. child_of c j \<longrightarrow> c \<le> n \<longrightarrow> \<not> gt (F c) (F m)))"
proof -
  have irr: "\<not> gt (F k) (F k)" if "1 \<le> k" "k \<le> n" for k using strict_weak_irrefl [OF sw S [OF that]] .
  have asy: "gt (F a) (F b) \<Longrightarrow> \<not> gt (F b) (F a)" if "1 \<le> a" "a \<le> n" "1 \<le> b" "b \<le> n" for a b
    using strict_weak_asym [OF sw] S that by blast
  have tr: "gt (F a) (F b) \<Longrightarrow> gt (F b) (F c) \<Longrightarrow> gt (F a) (F c)"
    if "1 \<le> a" "a \<le> n" "1 \<le> b" "b \<le> n" "1 \<le> c" "c \<le> n" for a b c
    using strict_weak_trans [OF sw] S that by blast
  show ?thesis
  proof (cases "2 * j \<le> n \<and> gt (F (2 * j)) (F j)")
    case True
    then have m: "m = (if 2 * j + 1 \<le> n \<and> gt (F (2 * j + 1)) (F (2 * j)) then 2 * j + 1 else 2 * j)"
      using j cmp [of "2 * j" j] cmp [of "2 * j + 1" "2 * j"] by (auto simp: m_def heapify_max_def Let_def)
    show ?thesis
      using m True j irr asy [of "2 * j + 1" "2 * j"] tr [of "2 * j + 1" "2 * j" j]
      by (auto simp: child_of_def split: if_splits)
  next
    case False
    then have m: "m = (if 2 * j + 1 \<le> n \<and> gt (F (2 * j + 1)) (F j) then 2 * j + 1 else j)"
      using j cmp [of "2 * j" j] cmp [of "2 * j + 1" j] by (auto simp: m_def heapify_max_def Let_def)
    show ?thesis
      using m False j irr tr [of "2 * j" "2 * j + 1" j] by (auto simp: child_of_def split: if_splits)
  qed
qed

lemma heap_except_swap:
  assumes sw: "strict_weak gt S" and S: "\<And>k. 1 \<le> k \<Longrightarrow> k \<le> n \<Longrightarrow> F k \<in> S"
    and h: "heap_except gt F k n j" and k: "1 \<le> k" "k \<le> j"
    and m: "child_of m j" "m \<le> n" "gt (F m) (F j)" "\<And>c. child_of c j \<Longrightarrow> c \<le> n \<Longrightarrow> \<not> gt (F c) (F m)"
  shows "heap_except gt (swap_fun F j m) k n m"
proof -
  have jm: "j < m" using child_of_gt m(1) k by auto
  have asy: "\<not> gt (F j) (F m)" using strict_weak_asym [OF sw S S] m(2,3) k jm by simp
  show ?thesis
    unfolding heap_except_def
  proof (intro conjI allI impI)
    fix i c
    assume ic: "k \<le> i" "i \<noteq> m" "child_of c i" "c \<le> n"
    show "\<not> gt (swap_fun F j m c) (swap_fun F j m i)"
    proof (cases "i = j")
      case True
      have "c \<noteq> j" using child_of_gt [OF _ ic(3)] True k by auto
      then show ?thesis using True asy m(4) ic jm by (auto simp: swap_fun_def)
    next
      case False
      have "c \<noteq> m" using child_of_parent ic(3) m(1) False by blast
      moreover have "\<not> gt (F m) (F i)" if "c = j" using h ic m(1,2) that by (auto simp: heap_except_def)
      moreover have "\<not> gt (F c) (F i)" using h ic False by (auto simp: heap_except_def)
      ultimately show ?thesis using ic False by (auto simp: swap_fun_def)
    qed
  next
    fix p c
    assume pc: "k \<le> p" "child_of m p" "child_of c m" "c \<le> n"
    have p: "p = j" using child_of_parent pc(2) m(1) by blast
    have "m < c" using child_of_gt pc(3) jm k by auto
    moreover have "\<not> gt (F c) (F m)" using h pc jm k by (auto simp: heap_except_def)
    ultimately show "\<not> gt (swap_fun F j m c) (swap_fun F j m p)" using p jm by (auto simp: swap_fun_def)
  qed
qed

text \<open>The root of a heap is a maximum.\<close>

lemma heap_root:
  assumes sw: "strict_weak gt S" and S: "\<And>k. 1 \<le> k \<Longrightarrow> k \<le> n \<Longrightarrow> F k \<in> S" and h: "heap_from gt F 1 n"
  shows "1 \<le> k \<Longrightarrow> k \<le> n \<Longrightarrow> \<not> gt (F k) (F 1)"
proof (induction k rule: less_induct)
  case (less k)
  show ?case
  proof (cases "k = 1")
    case True
    then show ?thesis using strict_weak_irrefl [OF sw S [OF less.prems]] by simp
  next
    case False
    let ?p = "k div 2"
    have p: "1 \<le> ?p" "?p < k" "child_of k ?p" using less.prems False by (auto simp: child_of_def)
    have a: "\<not> gt (F k) (F ?p)" using h p less.prems by (auto simp: heap_from_def)
    have b: "\<not> gt (F ?p) (F 1)" using less.IH [OF p(2,1)] p(2) less.prems by simp
    show ?thesis using strict_weak_negtrans [OF sw S S S a b] p less.prems by simp
  qed
qed

end
