(* ===== verification/Stdlib_Heap.thy ===== *)
theory Stdlib_Heap
  imports Stdlib_Sort
begin

text \<open>
  Correctness of \<open>sort\<close>: building the heap, extracting its maxima, and the sorted result.
\<close>

section \<open>Sifting down\<close>

definition elem_fun :: "'a list \<Rightarrow> nat \<Rightarrow> 'a" where
  "elem_fun E k = E ! (k - 1)"

lemma heap_except_cong:
  assumes "\<And>k. 1 \<le> k \<Longrightarrow> k \<le> n \<Longrightarrow> F k = G k" "1 \<le> k" "heap_except gt F k n j"
  shows "heap_except gt G k n j"
proof -
  have le: "i \<le> n" if "k \<le> i" "child_of c i" "c \<le> n" for i c using child_of_gt [OF _ that(2)] that assms(2) by auto
  show ?thesis
    unfolding heap_except_def
  proof (intro conjI allI impI)
    fix i c
    assume "k \<le> i" "i \<noteq> j" "child_of c i" "c \<le> n"
    then show "\<not> gt (G c) (G i)"
      using assms le [of i c] child_of_gt [of i c] by (simp add: heap_except_def flip: assms(1))
  next
    fix p c
    assume a: "k \<le> p" "child_of j p" "child_of c j" "c \<le> n"
    then have "p < j" "j < c" using child_of_gt [of p j] child_of_gt [of j c] assms(2) by auto
    then show "\<not> gt (G c) (G p)"
      using assms a by (simp add: heap_except_def flip: assms(1))
  qed
qed

lemma elem_fun_swap:
  assumes "1 \<le> a" "a \<le> length E" "1 \<le> b" "b \<le> length E" "1 \<le> k" "k \<le> length E"
  shows "elem_fun (swap_elems E (a - 1) (b - 1)) k = swap_fun (elem_fun E) a b k"
  using assms by (auto simp: elem_fun_def swap_elems_def swap_fun_def nth_list_update)

lemma mset_swap_elems: "a < length E \<Longrightarrow> b < length E \<Longrightarrow> mset (swap_elems E a b) = mset E"
  by (simp add: swap_elems_def mset_swap)

lemma drop_swap_elems: "a < n \<Longrightarrow> b < n \<Longrightarrow> drop n (swap_elems E a b) = drop n E"
  by (simp add: swap_elems_def)

lemma heapify_spec:
  fixes compare :: byte_cmp
  defines "gt \<equiv> \<lambda>x y. compare x y > 0"
  assumes sw: "strict_weak gt S" and n: "n \<le> cnt" and k: "1 \<le> k"
  shows "length arr = sz * cnt \<Longrightarrow> set (elems sz cnt arr) \<subseteq> S \<Longrightarrow> k \<le> j \<Longrightarrow> j \<le> n
    \<Longrightarrow> heap_except gt (elem_fun (elems sz cnt arr)) k n j
    \<Longrightarrow> \<exists>arr'. heapify arr j n sz compare = Some arr' \<and> length arr' = length arr
       \<and> heap_from gt (elem_fun (elems sz cnt arr')) k n
       \<and> mset (elems sz cnt arr') = mset (elems sz cnt arr) \<and> drop n (elems sz cnt arr') = drop n (elems sz cnt arr)"
proof (induction "n - j" arbitrary: arr j rule: less_induct)
  case less
  let ?F = "elem_fun (elems sz cnt arr)"
  define m where "m = heapify_max (\<lambda>a b. do_compare arr a b sz compare) j n"
  have S: "?F k \<in> S" if "1 \<le> k" "k \<le> n" for k
  proof -
    have "?F k \<in> set (elems sz cnt arr)" unfolding elem_fun_def using that n by (intro nth_mem) simp
    then show ?thesis using less.prems(2) by blast
  qed
  have cmp: "(do_compare arr a b sz compare > 0) = gt (?F a) (?F b)" if "1 \<le> a" "a \<le> n" "1 \<le> b" "b \<le> n" for a b
    using that n by (simp add: do_compare_def gt_def elem_fun_def)
  have j: "1 \<le> j" using k less.prems(3) by simp
  have "(m = j \<and> (\<forall>c. child_of c j \<longrightarrow> c \<le> n \<longrightarrow> \<not> gt (?F c) (?F j))) \<or>
      (child_of m j \<and> m \<le> n \<and> gt (?F m) (?F j) \<and> (\<forall>c. child_of c j \<longrightarrow> c \<le> n \<longrightarrow> \<not> gt (?F c) (?F m)))"
    unfolding m_def by (rule heapify_max_facts [OF sw S j less.prems(4) cmp])
  then show ?case
  proof (elim disjE)
    assume m: "m = j \<and> (\<forall>c. child_of c j \<longrightarrow> c \<le> n \<longrightarrow> \<not> gt (?F c) (?F j))"
    then have "heap_from gt ?F k n"
      using less.prems(5) unfolding heap_except_def heap_from_def by metis
    then show ?thesis using m by (subst heapify.simps) (simp add: m_def Let_def)
  next
    assume m: "child_of m j \<and> m \<le> n \<and> gt (?F m) (?F j) \<and> (\<forall>c. child_of c j \<longrightarrow> c \<le> n \<longrightarrow> \<not> gt (?F c) (?F m))"
    let ?arr = "do_swap arr j m sz"
    have jm: "j < m" using m child_of_gt [OF j] by blast
    have sp: "length ?arr = sz * cnt" "elems sz cnt ?arr = swap_elems (elems sz cnt arr) (j - 1) (m - 1)"
      using do_swap_elems [of arr sz cnt j m] less.prems(1,4) n j jm m by auto
    have ix: "j - 1 < n" "m - 1 < n" using less.prems(4) m j jm by auto
    have ms: "mset (elems sz cnt ?arr) = mset (elems sz cnt arr)"
      unfolding sp(2) using ix n by (intro mset_swap_elems) simp_all
    have dr: "drop n (elems sz cnt ?arr) = drop n (elems sz cnt arr)"
      unfolding sp(2) using ix by (rule drop_swap_elems)
    have "heap_except gt (swap_fun ?F j m) k n m"
      using heap_except_swap [OF sw S less.prems(5) k less.prems(3)] m by blast
    moreover have "swap_fun ?F j m i = elem_fun (elems sz cnt ?arr) i" if "1 \<le> i" "i \<le> n" for i
      unfolding sp(2) by (rule elem_fun_swap [symmetric]) (use that n j jm m less.prems(4) in simp_all)
    ultimately have "heap_except gt (elem_fun (elems sz cnt ?arr)) k n m"
      using heap_except_cong [of n "swap_fun ?F j m" "elem_fun (elems sz cnt ?arr)" k gt m] k by blast
    moreover have "set (elems sz cnt ?arr) \<subseteq> S" using mset_eq_setD [OF ms] less.prems(2) by simp
    moreover have "n - m < n - j" "k \<le> m" "m \<le> n" using jm m less.prems(3,4) by auto
    ultimately obtain arr' where a: "heapify ?arr m n sz compare = Some arr'" "length arr' = length ?arr"
      "heap_from gt (elem_fun (elems sz cnt arr')) k n" "mset (elems sz cnt arr') = mset (elems sz cnt ?arr)"
      "drop n (elems sz cnt arr') = drop n (elems sz cnt ?arr)"
      using less.hyps [of m ?arr] sp(1) by blast
    have "heapify arr j n sz compare = heapify ?arr m n sz compare"
      using jm by (subst heapify.simps) (simp add: m_def Let_def)
    then show ?thesis using a sp(1) ms dr less.prems(1) by auto
  qed
qed

section \<open>Building the heap\<close>

lemma build_heap_spec:
  fixes compare :: byte_cmp
  defines "gt \<equiv> \<lambda>x y. compare x y > 0"
  assumes sw: "strict_weak gt S"
  shows "length arr = sz * cnt \<Longrightarrow> set (elems sz cnt arr) \<subseteq> S \<Longrightarrow> i \<le> cnt
    \<Longrightarrow> heap_from gt (elem_fun (elems sz cnt arr)) (Suc i) cnt
    \<Longrightarrow> \<exists>arr'. build_heap i arr cnt sz compare = Some arr' \<and> length arr' = length arr
       \<and> heap_from gt (elem_fun (elems sz cnt arr')) 1 cnt \<and> mset (elems sz cnt arr') = mset (elems sz cnt arr)"
proof (induction i arbitrary: arr)
  case (Suc i)
  have "heap_except gt (elem_fun (elems sz cnt arr)) (Suc i) cnt (Suc i)"
    unfolding heap_except_def
  proof (intro conjI allI impI)
    fix i' c
    assume "Suc i \<le> i'" "i' \<noteq> Suc i" "child_of c i'" "c \<le> cnt"
    then show "\<not> gt (elem_fun (elems sz cnt arr) c) (elem_fun (elems sz cnt arr) i')"
      using Suc.prems(4) by (simp add: heap_from_def)
  next
    fix p c
    assume "Suc i \<le> p" "child_of (Suc i) p"
    then show "\<not> gt (elem_fun (elems sz cnt arr) c) (elem_fun (elems sz cnt arr) p)"
      using child_of_gt [of p "Suc i"] by simp
  qed
  then obtain arr1 where a: "heapify arr (Suc i) cnt sz compare = Some arr1" "length arr1 = length arr"
    "heap_from gt (elem_fun (elems sz cnt arr1)) (Suc i) cnt" "mset (elems sz cnt arr1) = mset (elems sz cnt arr)"
    using heapify_spec [OF sw [unfolded gt_def], of cnt cnt "Suc i" arr sz "Suc i"] Suc.prems(1-3)
    unfolding gt_def by auto
  have "set (elems sz cnt arr1) \<subseteq> S" using mset_eq_setD [OF a(4)] Suc.prems(2) by simp
  then show ?case using Suc.IH [of arr1] a Suc.prems(1,3) by auto
qed simp

lemma no_children: "heap_from gt F (Suc (n div 2)) n"
  by (auto simp: heap_from_def child_of_def)

section \<open>Extracting the maxima\<close>

text \<open>
  Before the step for \<open>i\<close>: the first \<open>i\<close> elements form a heap, the rest is sorted and not
  smaller than any of them.
\<close>

definition extract_inv :: "('a \<Rightarrow> 'a \<Rightarrow> bool) \<Rightarrow> 'a list \<Rightarrow> nat \<Rightarrow> bool" where
  "extract_inv gt E i \<longleftrightarrow> i \<le> length E \<and> heap_from gt (elem_fun E) 1 i
     \<and> sorted_by (\<lambda>x y. gt y x) (drop i E) \<and> (\<forall>x\<in>set (take i E). \<forall>y\<in>set (drop i E). \<not> gt x y)"

lemma swap_ends:
  assumes "1 < i" "i \<le> length E"
  shows "drop (i - 1) (swap_elems E 0 (i - 1)) = E ! 0 # drop i E"
    "set (take (i - 1) (swap_elems E 0 (i - 1))) \<subseteq> set (take i E)"
proof -
  obtain k where i: "i = Suc k" "0 < k" using assms(1) by (cases i) auto
  have len: "k < length E" using assms(2) i by simp
  show "drop (i - 1) (swap_elems E 0 (i - 1)) = E ! 0 # drop i E"
    using i len by (simp add: swap_elems_def drop_update_swap Cons_nth_drop_Suc [symmetric])
  show "set (take (i - 1) (swap_elems E 0 (i - 1))) \<subseteq> set (take i E)"
  proof
    fix x
    assume "x \<in> set (take (i - 1) (swap_elems E 0 (i - 1)))"
    then obtain p where p: "p < k" "x = swap_elems E 0 k ! p"
      using i len by (auto simp: in_set_conv_nth swap_elems_def)
    moreover have "0 < length E" using len by linarith
    ultimately have "x = E ! (if p = 0 then k else p)" using i len by (auto simp: swap_elems_def nth_list_update)
    moreover have "(if p = 0 then k else p) < Suc k" using p by simp
    ultimately show "x \<in> set (take i E)" using i len
      by (metis Suc_leI length_take min.absorb2 nth_mem nth_take)
  qed
qed

lemma extract_inv_swap:
  assumes sw: "strict_weak gt S" and E: "set E \<subseteq> S" and inv: "extract_inv gt E i" and i: "1 < i"
  defines "E' \<equiv> swap_elems E 0 (i - 1)"
  shows "heap_except gt (elem_fun E') 1 (i - 1) 1" "sorted_by (\<lambda>x y. gt y x) (drop (i - 1) E')"
    "\<forall>x\<in>set (take (i - 1) E'). \<forall>y\<in>set (drop (i - 1) E'). \<not> gt x y"
proof -
  have len: "i \<le> length E" and h: "heap_from gt (elem_fun E) 1 i"
    and st: "sorted_by (\<lambda>x y. gt y x) (drop i E)" "\<forall>x\<in>set (take i E). \<forall>y\<in>set (drop i E). \<not> gt x y"
    using inv by (auto simp: extract_inv_def)
  note sw' = swap_ends [OF i len, folded E'_def]
  have max: "\<not> gt x (E ! 0)" if x: "x \<in> set (take i E)" for x
  proof -
    obtain p where p: "p < i" "x = E ! p" using x len by (auto simp: in_set_conv_nth)
    have "elem_fun E k \<in> S" if "1 \<le> k" "k \<le> i" for k
      using that len E nth_mem [of "k - 1" E] by (auto simp: elem_fun_def)
    from heap_root [OF sw this h, of "Suc p"] show ?thesis using p by (simp add: elem_fun_def)
  qed
  have "E ! 0 = take i E ! 0" "0 < length (take i E)" using i len by simp_all
  then have root: "E ! 0 \<in> set (take i E)" by (metis nth_mem)
  show "sorted_by (\<lambda>x y. gt y x) (drop (i - 1) E')"
    unfolding sw'(1) using st root by simp
  show "\<forall>x\<in>set (take (i - 1) E'). \<forall>y\<in>set (drop (i - 1) E'). \<not> gt x y"
    unfolding sw'(1) using st(2) sw'(2) max by auto
  have same: "elem_fun E' k = elem_fun E k" if "2 \<le> k" "k \<le> i - 1" for k
    using that len by (auto simp: E'_def elem_fun_def swap_elems_def nth_list_update)
  show "heap_except gt (elem_fun E') 1 (i - 1) 1"
    unfolding heap_except_def
  proof (intro conjI allI impI)
    fix j c
    assume a: "1 \<le> j" "j \<noteq> 1" "child_of c j" "c \<le> i - 1"
    then have "j < c" using child_of_gt by blast
    then show "\<not> gt (elem_fun E' c) (elem_fun E' j)" using a h same by (simp add: heap_from_def)
  next
    fix p c
    assume "1 \<le> p" "child_of 1 p"
    then show "\<not> gt (elem_fun E' c) (elem_fun E' p)" using child_of_gt [of p 1] by simp
  qed
qed

lemma sort_heap_spec:
  fixes compare :: byte_cmp
  defines "gt \<equiv> \<lambda>x y. compare x y > 0"
  assumes sw: "strict_weak gt S"
  shows "length arr = sz * cnt \<Longrightarrow> set (elems sz cnt arr) \<subseteq> S \<Longrightarrow> extract_inv gt (elems sz cnt arr) i
    \<Longrightarrow> \<exists>arr'. sort_heap i arr sz compare = Some arr' \<and> length arr' = length arr
       \<and> sorted_by (\<lambda>x y. gt y x) (elems sz cnt arr') \<and> mset (elems sz cnt arr') = mset (elems sz cnt arr)"
proof (induction i arbitrary: arr)
  case 0
  then show ?case by (simp add: extract_inv_def)
next
  case (Suc i)
  let ?E = "elems sz cnt arr"
  show ?case
  proof (cases i)
    case 0
    then have "sorted_by (\<lambda>x y. gt y x) (take 1 ?E @ drop 1 ?E)"
      using Suc.prems(3) unfolding sorted_by_simps extract_inv_def by (cases ?E) auto
    then show ?thesis using 0 by simp
  next
    case (Suc i')
    let ?arr = "do_swap arr 1 (Suc i) sz"
    have le: "Suc i \<le> cnt" using Suc.prems(3) by (simp add: extract_inv_def)
    have sp: "length ?arr = sz * cnt" "elems sz cnt ?arr = swap_elems ?E 0 i"
      using do_swap_elems [of arr sz cnt 1 "Suc i"] Suc.prems(1) le Suc by auto
    have ms: "mset (elems sz cnt ?arr) = mset ?E" unfolding sp(2) using le by (intro mset_swap_elems) auto
    note x = extract_inv_swap [OF sw Suc.prems(2,3), simplified, folded sp(2)]
    obtain arr1 where a: "heapify ?arr 1 i sz compare = Some arr1" "length arr1 = length ?arr"
      "heap_from gt (elem_fun (elems sz cnt arr1)) 1 i" "mset (elems sz cnt arr1) = mset (elems sz cnt ?arr)"
      "drop i (elems sz cnt arr1) = drop i (elems sz cnt ?arr)"
      using heapify_spec [OF sw [unfolded gt_def], of i cnt 1 ?arr sz 1] x(1) sp(1) le Suc mset_eq_setD [OF ms] Suc.prems(2)
      unfolding gt_def by auto
    have "mset (take i (elems sz cnt arr1)) = mset (take i (elems sz cnt ?arr))"
      using a(4,5) by (metis add_right_cancel append_take_drop_id mset_append)
    then have tk: "set (take i (elems sz cnt arr1)) = set (take i (elems sz cnt ?arr))" by (rule mset_eq_setD)
    have "extract_inv gt (elems sz cnt arr1) i"
      using x(2,3) a(3,5) tk le Suc by (simp add: extract_inv_def)
    moreover have "set (elems sz cnt arr1) \<subseteq> S" using mset_eq_setD [OF a(4)] mset_eq_setD [OF ms] Suc.prems(2) by simp
    ultimately show ?thesis using Suc.IH [of arr1] a ms sp(1) Suc.prems(1) Suc by auto
  qed
qed

lemma sort_array_spec:
  fixes compare :: byte_cmp
  assumes sw: "strict_weak (\<lambda>x y. compare x y > 0) (set (elems sz cnt arr))" and len: "length arr = sz * cnt" and sz: "0 < sz"
  shows "\<exists>arr'. sort_array arr cnt sz compare = Some arr' \<and> length arr' = length arr
    \<and> sorted_by (\<lambda>x y. compare y x > 0) (elems sz cnt arr') \<and> mset (elems sz cnt arr') = mset (elems sz cnt arr)"
proof -
  obtain arr1 where a: "build_heap (cnt div 2) arr cnt sz compare = Some arr1" "length arr1 = length arr"
    "heap_from (\<lambda>x y. compare x y > 0) (elem_fun (elems sz cnt arr1)) 1 cnt"
    "mset (elems sz cnt arr1) = mset (elems sz cnt arr)"
    using build_heap_spec [OF sw len order.refl div_le_dividend no_children] by blast
  have "extract_inv (\<lambda>x y. compare x y > 0) (elems sz cnt arr1) cnt" using a(3) by (simp add: extract_inv_def)
  moreover have "set (elems sz cnt arr1) \<subseteq> set (elems sz cnt arr)" using mset_eq_setD [OF a(4)] by simp
  ultimately show ?thesis
    using sort_heap_spec [OF sw, of arr1 sz cnt cnt] a len sz by (auto simp: sort_array_def)
qed

section \<open>Binary search\<close>

text \<open>The array is in order for the key: greater for it before, less after.\<close>

definition ordered_for :: "(nat \<Rightarrow> int) \<Rightarrow> nat \<Rightarrow> bool" where
  "ordered_for c cnt \<longleftrightarrow> (\<forall>i j. i < j \<longrightarrow> j < cnt \<longrightarrow> (c i < 0 \<longrightarrow> c j < 0) \<and> (c j > 0 \<longrightarrow> c i > 0))"

lemma binary_search_loop_spec:
  fixes compare :: byte_cmp and key arr :: "u8 list" and sz :: nat
  defines "c \<equiv> \<lambda>k. compare key (block_at arr (k * sz) sz)"
  assumes sz: "0 < sz" and ord: "ordered_for c cnt"
  shows "f \<le> l \<Longrightarrow> l \<le> cnt \<Longrightarrow> (\<And>k. k < f \<Longrightarrow> c k > 0) \<Longrightarrow> (\<And>k. l \<le> k \<Longrightarrow> k < cnt \<Longrightarrow> c k < 0)
    \<Longrightarrow> \<exists>r. binary_search_loop key arr (f * sz) (l * sz) sz compare = Some r \<and> (case r of
         Some off \<Rightarrow> \<exists>k < cnt. off = k * sz \<and> c k = 0
       | None \<Rightarrow> \<forall>k < cnt. c k \<noteq> 0)"
proof (induction "l - f" arbitrary: f l rule: less_induct)
  case less
  show ?case
  proof (cases "f < l")
    case False
    then have "f = l" using less.prems(1) by simp
    have "c k \<noteq> 0" if "k < cnt" for k
      using less.prems(3,4) [of k] that \<open>f = l\<close> by (cases "k < l") auto
    then show ?thesis using \<open>f = l\<close> by (subst binary_search_loop.simps) simp
  next
    case True
    define m where "m = f + (l - f) div 2"
    have m: "f \<le> m" "m < l" using True by (auto simp: m_def)
    have rng: "(l * sz - f * sz) div sz = l - f" using sz by (simp flip: diff_mult_distrib)
    have mid: "f * sz + (l - f) div 2 * sz = m * sz" by (simp add: m_def distrib_right)
    have step: "binary_search_loop key arr (f * sz) (l * sz) sz compare =
        (if c m < 0 then binary_search_loop key arr (f * sz) (m * sz) sz compare
         else if c m > 0 then binary_search_loop key arr (Suc m * sz) (l * sz) sz compare
         else Some (Some (m * sz)))"
      using True sz by (subst binary_search_loop.simps) (simp add: rng mid c_def Let_def add.commute)
    have mc: "m < cnt" using m less.prems(2) by simp
    consider "c m < 0" | "c m > 0" | "c m = 0" by linarith
    then show ?thesis
    proof cases
      case 1
      have "c k < 0" if "m \<le> k" "k < cnt" for k
        using ord [unfolded ordered_for_def, rule_format, of m k] 1 that by (cases "m = k") auto
      moreover have "m - f < l - f" using m by simp
      ultimately show ?thesis using less.hyps [of m f] less.prems(3) m mc unfolding step if_P [OF 1] by simp
    next
      case 2
      have "c k > 0" if "k < Suc m" for k
        using ord [unfolded ordered_for_def, rule_format, of k m] 2 that mc by (cases "m = k") auto
      moreover have "l - Suc m < l - f" "Suc m \<le> l" using m by simp_all
      moreover have nl: "\<not> c m < 0" using 2 by simp
      ultimately show ?thesis
        using less.hyps [of l "Suc m"] less.prems(2,4) unfolding step if_not_P [OF nl] if_P [OF 2] by simp
    next
      case 3
      then show ?thesis using step mc by auto
    qed
  qed
qed

section \<open>Properties\<close>

text \<open>
  C23: \<open>qsort\<close> (heap sort on raw bytes) sorts: for every comparison function that is a strict
  weak order on the elements, the call returns, the elements are in order, they are a permutation
  of the original ones, and the array keeps its length.
\<close>

theorem qsort_correct:
  assumes "strict_weak (\<lambda>x y. compare x y > 0) (set (elems sz cnt arr))" "length arr = sz * cnt" "0 < sz"
  shows "\<exists>arr'. qsort arr cnt sz compare = Some arr' \<and> length arr' = length arr
    \<and> sorted_by (\<lambda>x y. compare y x > 0) (elems sz cnt arr') \<and> mset (elems sz cnt arr') = mset (elems sz cnt arr)"
  unfolding qsort_def by (rule sort_array_spec [OF assms])

theorem qsort_correct_witness:
  "\<exists>arr'. qsort [3, 0, 1, 0, 2, 0] 3 2 (\<lambda>x y. uint (hd x) - uint (hd y)) = Some arr'
    \<and> length arr' = length [3, 0, 1, 0, 2, 0 :: u8]
    \<and> sorted_by (\<lambda>x y. uint (hd y) - uint (hd x) > 0) (elems 2 3 arr')
    \<and> mset (elems 2 3 arr') = mset (elems 2 3 [3, 0, 1, 0, 2, 0])"
proof -
  have sw: "strict_weak (\<lambda>x y. uint (hd x) - uint (hd y :: u8) > 0) S" for S by (auto simp: strict_weak_def)
  show ?thesis by (rule qsort_correct [OF sw]) simp_all
qed

text \<open>
  Note: \<open>bsearch\<close> terminates on every ordered array and is exact: a returned pointer is the
  address of an element equal to the key, and null is returned only when no element is.
\<close>

theorem bsearch_correct:
  fixes compare :: byte_cmp
  assumes "0 < sz" "ordered_for (\<lambda>k. compare key (block_at arr (k * sz) sz)) cnt"
  shows "\<exists>r. bsearch key arr cnt sz compare = Some r \<and> (case r of
      Some off \<Rightarrow> \<exists>k < cnt. off = k * sz \<and> compare key (block_at arr (k * sz) sz) = 0
    | None \<Rightarrow> \<forall>k < cnt. compare key (block_at arr (k * sz) sz) \<noteq> 0)"
  using binary_search_loop_spec [where sz = sz and compare = compare and key = key and arr = arr and cnt = cnt
      and f = 0 and l = cnt] assms
  by (simp add: bsearch_def binary_search_def mult.commute)

theorem bsearch_correct_witness:
  "\<exists>r. bsearch [5] [1, 3, 5, 9] 4 1 (\<lambda>x y. uint (hd x) - uint (hd y)) = Some r \<and> (case r of
      Some off \<Rightarrow> \<exists>k < 4. off = k * 1 \<and> uint (hd [5::u8]) - uint (hd (block_at [1, 3, 5, 9] (k * 1) 1)) = 0
    | None \<Rightarrow> \<forall>k < 4. uint (hd [5::u8]) - uint (hd (block_at [1, 3, 5, 9] (k * 1) 1)) \<noteq> 0)"
proof (rule bsearch_correct)
  have cases4: "j < 4 \<longleftrightarrow> j = 0 \<or> j = 1 \<or> j = 2 \<or> j = 3" "j < 3 \<longleftrightarrow> j = 0 \<or> j = 1 \<or> j = 2" for j :: nat by arith+
  show "ordered_for (\<lambda>k. uint (hd [5::u8]) - uint (hd (block_at [1, 3, 5, 9] (k * 1) 1))) 4"
    by (auto simp: ordered_for_def block_at_def cases4 less_2_cases_iff)
qed simp

end
