(* ===== verification/Kstring.thy ===== *)
theory Kstring
  imports Prelude
begin

text \<open>
  The string and memory functions of \<open>src/lib/string.c\<close>, on a byte-addressed memory.
  A null argument that the code asserts against and a scan that would never find a terminator
  are \<open>None\<close>.  Loops with a byte count recurse on it; loops that look for a terminator are
  partial functions.
\<close>

type_synonym mem = "ptr \<Rightarrow> u8"

section \<open>Blocks of memory\<close>

primrec copy_up :: "nat \<Rightarrow> mem \<Rightarrow> ptr \<Rightarrow> ptr \<Rightarrow> mem" where
  "copy_up 0 m dst src = m"
| "copy_up (Suc n) m dst src = copy_up n (m(dst := m src)) (dst + 1) (src + 1)"

text \<open>The descending loop, from one past the last byte.\<close>

primrec copy_down :: "nat \<Rightarrow> mem \<Rightarrow> ptr \<Rightarrow> ptr \<Rightarrow> mem" where
  "copy_down 0 m dst src = m"
| "copy_down (Suc n) m dst src = copy_down n (m(dst - 1 := m (src - 1))) (dst - 1) (src - 1)"

definition memcpy :: "mem \<Rightarrow> ptr \<Rightarrow> ptr \<Rightarrow> nat \<Rightarrow> (ptr \<times> mem) option" where
  "memcpy m dst src n = do {
     kassert (dst \<noteq> NULL \<or> n = 0);
     kassert (src \<noteq> NULL \<or> n = 0);
     Some (dst, copy_up n m dst src) }"

text \<open>The returned pointer is the local variable \<open>dst\<close>, which the ascending loop has moved.\<close>

definition memmove :: "mem \<Rightarrow> ptr \<Rightarrow> ptr \<Rightarrow> nat \<Rightarrow> (ptr \<times> mem) option" where
  "memmove m dst src n = do {
     kassert (dst \<noteq> NULL \<or> n = 0);
     kassert (src \<noteq> NULL \<or> n = 0);
     if dst < src then Some (dst + n, copy_up n m dst src)
     else Some (dst, copy_down n m (dst + n) (src + n)) }"

primrec memcmp_loop :: "nat \<Rightarrow> mem \<Rightarrow> ptr \<Rightarrow> ptr \<Rightarrow> int" where
  "memcmp_loop 0 m a b = 0"
| "memcmp_loop (Suc n) m a b =
     (if m a \<noteq> m b then (if m a > m b then 1 else -1) else memcmp_loop n m (a + 1) (b + 1))"

definition memcmp :: "mem \<Rightarrow> ptr \<Rightarrow> ptr \<Rightarrow> nat \<Rightarrow> int option" where
  "memcmp m a b n = do {
     kassert (a \<noteq> NULL \<or> n = 0);
     kassert (b \<noteq> NULL \<or> n = 0);
     Some (memcmp_loop n m a b) }"

primrec memchr_loop :: "nat \<Rightarrow> mem \<Rightarrow> ptr \<Rightarrow> u8 \<Rightarrow> ptr" where
  "memchr_loop 0 m blk ch = NULL"
| "memchr_loop (Suc n) m blk ch = (if m blk = ch then blk else memchr_loop n m (blk + 1) ch)"

definition memchr :: "mem \<Rightarrow> ptr \<Rightarrow> u8 \<Rightarrow> nat \<Rightarrow> ptr option" where
  "memchr m blk ch n = do {
     kassert (blk \<noteq> NULL \<or> n = 0);
     Some (memchr_loop n m blk ch) }"

primrec memset_loop :: "nat \<Rightarrow> mem \<Rightarrow> ptr \<Rightarrow> u8 \<Rightarrow> mem" where
  "memset_loop 0 m dst v = m"
| "memset_loop (Suc n) m dst v = memset_loop n (m(dst := v)) (dst + 1) v"

definition memset :: "mem \<Rightarrow> ptr \<Rightarrow> u8 \<Rightarrow> nat \<Rightarrow> (ptr \<times> mem) option" where
  "memset m dst v n = do {
     kassert (dst \<noteq> NULL \<or> n = 0);
     Some (dst, memset_loop n m dst v) }"

section \<open>Strings\<close>

partial_function (option) strcmp_loop :: "mem \<Rightarrow> ptr \<Rightarrow> ptr \<Rightarrow> (ptr \<times> ptr) option" where
  "strcmp_loop m a b = (if m a \<noteq> 0 \<and> m a = m b then strcmp_loop m (a + 1) (b + 1) else Some (a, b))"

definition strcmp :: "mem \<Rightarrow> ptr \<Rightarrow> ptr \<Rightarrow> int option" where
  "strcmp m a b = do {
     kassert (a \<noteq> NULL);
     kassert (b \<noteq> NULL);
     (a, b) \<leftarrow> strcmp_loop m a b;
     Some (if m a < m b then -1 else if m a > m b then 1 else 0) }"

partial_function (option) strchr_loop :: "mem \<Rightarrow> ptr \<Rightarrow> u8 \<Rightarrow> ptr option" where
  "strchr_loop m s c = (if m s = c then Some s else if m s = 0 then Some NULL else strchr_loop m (s + 1) c)"

definition strchr :: "mem \<Rightarrow> ptr \<Rightarrow> u8 \<Rightarrow> ptr option" where
  "strchr m s c = do { kassert (s \<noteq> NULL); strchr_loop m s c }"

partial_function (option) strcspn_loop :: "mem \<Rightarrow> ptr \<Rightarrow> ptr \<Rightarrow> nat \<Rightarrow> nat option" where
  "strcspn_loop m s stop len =
     (if m (s + len) \<noteq> 0 then do {
        r \<leftarrow> strchr m stop (m (s + len));
        if r \<noteq> NULL then Some len else strcspn_loop m s stop (len + 1) }
      else Some len)"

definition strcspn :: "mem \<Rightarrow> ptr \<Rightarrow> ptr \<Rightarrow> nat option" where
  "strcspn m s stop = strcspn_loop m s stop 0"

partial_function (option) strpbrk :: "mem \<Rightarrow> ptr \<Rightarrow> ptr \<Rightarrow> ptr option" where
  "strpbrk m s stop =
     (if m s \<noteq> 0 then do {
        r \<leftarrow> strchr m stop (m s);
        if r \<noteq> NULL then Some s else strpbrk m (s + 1) stop }
      else Some NULL)"

partial_function (option) strrchr_loop :: "mem \<Rightarrow> ptr \<Rightarrow> u8 \<Rightarrow> ptr \<Rightarrow> ptr option" where
  "strrchr_loop m s c p =
     (if m s \<noteq> 0 then strrchr_loop m (s + 1) c (if m s = c then s else p) else Some p)"

definition strrchr :: "mem \<Rightarrow> ptr \<Rightarrow> u8 \<Rightarrow> ptr option" where
  "strrchr m s c = strrchr_loop m s c NULL"

partial_function (option) strspn_loop :: "mem \<Rightarrow> ptr \<Rightarrow> ptr \<Rightarrow> nat \<Rightarrow> nat option" where
  "strspn_loop m s skip len =
     (if m (s + len) \<noteq> 0 then do {
        r \<leftarrow> strchr m skip (m (s + len));
        if r = NULL then Some len else strspn_loop m s skip (len + 1) }
      else Some len)"

definition strspn :: "mem \<Rightarrow> ptr \<Rightarrow> ptr \<Rightarrow> nat option" where
  "strspn m s skip = strspn_loop m s skip 0"

partial_function (option) strlen_loop :: "mem \<Rightarrow> ptr \<Rightarrow> ptr option" where
  "strlen_loop m p = (if m p \<noteq> 0 then strlen_loop m (p + 1) else Some p)"

definition strlen :: "mem \<Rightarrow> ptr \<Rightarrow> nat option" where
  "strlen m s = do { kassert (s \<noteq> NULL); p \<leftarrow> strlen_loop m s; Some (p - s) }"

text \<open>The loop of \<open>strnlen\<close>; the first argument is \<open>maxlen - length\<close>.\<close>

primrec strnlen_loop :: "nat \<Rightarrow> mem \<Rightarrow> ptr \<Rightarrow> nat \<Rightarrow> nat" where
  "strnlen_loop 0 m s len = len"
| "strnlen_loop (Suc n) m s len = (if m (s + len) \<noteq> 0 then strnlen_loop n m s (len + 1) else len)"

definition strnlen :: "mem \<Rightarrow> ptr \<Rightarrow> nat \<Rightarrow> nat" where
  "strnlen m s maxlen = strnlen_loop maxlen m s 0"

text \<open>\<open>strstr\<close>: the first argument counts the positions left to try.\<close>

primrec strstr_loop :: "nat \<Rightarrow> mem \<Rightarrow> ptr \<Rightarrow> ptr \<Rightarrow> nat \<Rightarrow> nat \<Rightarrow> ptr option" where
  "strstr_loop 0 m haystack needle needle_len i = Some NULL"
| "strstr_loop (Suc n) m haystack needle needle_len i = do {
     c \<leftarrow> memcmp m (haystack + i) needle needle_len;
     if c = 0 then Some (haystack + i) else strstr_loop n m haystack needle needle_len (i + 1) }"

definition strstr :: "mem \<Rightarrow> ptr \<Rightarrow> ptr \<Rightarrow> ptr option" where
  "strstr m haystack needle = do {
     haystack_len \<leftarrow> strlen m haystack;
     needle_len \<leftarrow> strlen m needle;
     if haystack_len \<ge> needle_len
     then strstr_loop (haystack_len - needle_len + 1) m haystack needle needle_len 0
     else Some NULL }"

definition strlcpy :: "mem \<Rightarrow> ptr \<Rightarrow> ptr \<Rightarrow> nat \<Rightarrow> (nat \<times> mem) option" where
  "strlcpy m dst src n = do {
     kassert (dst \<noteq> NULL);
     kassert (src \<noteq> NULL);
     src_len \<leftarrow> strlen m src;
     if n > 0 then do {
       let dst_len = (if src_len < n - 1 then src_len else n - 1);
       (_, m) \<leftarrow> memcpy m dst src dst_len;
       Some (src_len, m(dst + dst_len := 0)) }
     else Some (src_len, m) }"

definition strlcat :: "mem \<Rightarrow> ptr \<Rightarrow> ptr \<Rightarrow> nat \<Rightarrow> (nat \<times> mem) option" where
  "strlcat m dst src n = do {
     kassert (dst \<noteq> NULL);
     kassert (src \<noteq> NULL);
     src_len \<leftarrow> strlen m src;
     dst_len \<leftarrow> strlen m dst;
     if n > 0 \<and> dst_len < n then do {
       let copy_cnt = (if src_len < n - dst_len - 1 then src_len else n - dst_len - 1);
       (_, m) \<leftarrow> memcpy m (dst + dst_len) src copy_cnt;
       Some (src_len + dst_len, m(dst + dst_len + copy_cnt := 0)) }
     else Some (src_len + dst_len, m) }"

section \<open>Tokens\<close>

text \<open>Skipping delimiters: \<open>Inl\<close> the end of the string, \<open>Inr\<close> the start of a token.\<close>

partial_function (option) strtok_skip :: "mem \<Rightarrow> ptr \<Rightarrow> ptr \<Rightarrow> (ptr + ptr) option" where
  "strtok_skip m delimiters s = do {
     r \<leftarrow> strchr m delimiters (m s);
     if r \<noteq> NULL then
       (if m s = 0 then Some (Inl s) else strtok_skip m delimiters (s + 1))
     else Some (Inr s) }"

partial_function (option) strtok_scan :: "mem \<Rightarrow> ptr \<Rightarrow> ptr \<Rightarrow> ptr option" where
  "strtok_scan m delimiters s = do {
     r \<leftarrow> strchr m delimiters (m s);
     if r = NULL then strtok_scan m delimiters (s + 1) else Some s }"

text \<open>The result is the token (or null), the saved position and the memory.\<close>

definition strtok_r :: "mem \<Rightarrow> ptr \<Rightarrow> ptr \<Rightarrow> ptr \<Rightarrow> (ptr \<times> ptr \<times> mem) option" where
  "strtok_r m s delimiters save = do {
     kassert (delimiters \<noteq> NULL);
     let s = (if s = NULL then save else s);
     kassert (s \<noteq> NULL);
     k \<leftarrow> strtok_skip m delimiters s;
     (case k of
        Inl e \<Rightarrow> Some (NULL, e, m)
      | Inr token \<Rightarrow> do {
          s \<leftarrow> strtok_scan m delimiters token;
          if m s \<noteq> 0 then Some (token, s + 1, m(s := 0)) else Some (token, s, m) }) }"

text \<open>The documented idiom: tokens until null.\<close>

partial_function (option) strtok_all :: "mem \<Rightarrow> ptr \<Rightarrow> ptr \<Rightarrow> ptr \<Rightarrow> (ptr list \<times> mem) option" where
  "strtok_all m s delimiters save = do {
     (token, save, m) \<leftarrow> strtok_r m s delimiters save;
     if token = NULL then Some ([], m)
     else do { (ts, m) \<leftarrow> strtok_all m NULL delimiters save; Some (token # ts, m) } }"

end
