(* ===== verification/Kstring_Correct.thy ===== *)
theory Kstring_Correct
  imports Kstring
begin

text \<open>
  What the string functions compute: block copies with and without overlap, bounded string
  copies, and tokenisation.
\<close>

section \<open>Copying blocks\<close>

definition copied :: "mem \<Rightarrow> ptr \<Rightarrow> ptr \<Rightarrow> nat \<Rightarrow> mem" where
  "copied m dst src n = (\<lambda>a. if dst \<le> a \<and> a < dst + n then m (src + (a - dst)) else m a)"

lemma copy_up_copied: "dst \<le> src \<or> src + n \<le> dst \<Longrightarrow> copy_up n m dst src = copied m dst src n"
proof (induction n arbitrary: m dst src)
  case (Suc n)
  have IH: "copy_up n (m(dst := m src)) (Suc dst) (Suc src) = copied (m(dst := m src)) (Suc dst) (Suc src) n"
    using Suc.IH [of "Suc dst" "Suc src"] Suc.prems by auto
  show ?case
  proof
    fix a
    consider "a = dst" | "dst < a" "a < dst + Suc n" | "a < dst \<or> dst + Suc n \<le> a" by linarith
    then show "copy_up (Suc n) m dst src a = copied m dst src (Suc n) a"
    proof cases
      case 2
      then have "Suc src + (a - Suc dst) = src + (a - dst)" "src + (a - dst) \<noteq> dst" using Suc.prems by auto
      then show ?thesis using 2 IH by (simp add: copied_def del: add_Suc)
    qed (use IH in \<open>auto simp: copied_def\<close>)
  qed
qed (auto simp: copied_def fun_eq_iff)

lemma copy_down_copied: "src \<le> dst \<or> dst + n \<le> src \<Longrightarrow> copy_down n m (dst + n) (src + n) = copied m dst src n"
proof (induction n arbitrary: m)
  case (Suc n)
  let ?m = "m(dst + n := m (src + n))"
  have IH: "copy_down n ?m (dst + n) (src + n) = copied ?m dst src n" using Suc.IH Suc.prems by auto
  show ?case
  proof
    fix a
    consider "a = dst + n" | "dst \<le> a" "a < dst + n" | "a < dst \<or> dst + Suc n \<le> a" by linarith
    then show "copy_down (Suc n) m (dst + Suc n) (src + Suc n) a = copied m dst src (Suc n) a"
    proof cases
      case 2
      then have "src + (a - dst) \<noteq> dst + n" using Suc.prems by auto
      then show ?thesis using 2 IH by (simp add: copied_def)
    qed (use IH in \<open>auto simp: copied_def\<close>)
  qed
qed (auto simp: copied_def fun_eq_iff)

lemma memset_loop_eq: "memset_loop n m dst v = (\<lambda>a. if dst \<le> a \<and> a < dst + n then v else m a)"
  by (induction n arbitrary: m dst) (auto simp: fun_eq_iff)

section \<open>Strings in memory\<close>

definition str_at :: "mem \<Rightarrow> ptr \<Rightarrow> u8 list \<Rightarrow> bool" where
  "str_at m p cs \<longleftrightarrow> p \<noteq> NULL \<and> (\<forall>i < length cs. m (p + i) = cs ! i) \<and> 0 \<notin> set cs \<and> m (p + length cs) = 0"

lemma str_at_Nil: "str_at m p [] \<longleftrightarrow> p \<noteq> NULL \<and> m p = 0"
  by (simp add: str_at_def)

lemma str_at_Cons: "str_at m p (c # cs) \<longleftrightarrow> p \<noteq> NULL \<and> m p = c \<and> c \<noteq> 0 \<and> str_at m (p + 1) cs"
  by (auto simp: str_at_def All_less_Suc2 less_Suc_eq_0_disj)

lemma str_at_append: "str_at m p (xs @ ys) \<Longrightarrow> str_at m (p + length xs) ys"
proof (induction xs arbitrary: p)
  case (Cons x xs)
  then show ?case using Cons.IH [of "p + 1"] by (simp add: str_at_Cons)
qed simp

lemma str_at_cong:
  "str_at m p cs \<Longrightarrow> (\<And>a. p \<le> a \<Longrightarrow> a \<le> p + length cs \<Longrightarrow> m' a = m a) \<Longrightarrow> str_at m' p cs"
  by (simp add: str_at_def)

lemma strlen_str_at: "str_at m p cs \<Longrightarrow> strlen m p = Some (length cs)"
proof -
  have "str_at m p cs \<Longrightarrow> strlen_loop m p = Some (p + length cs)" for p
  proof (induction cs arbitrary: p)
    case Nil
    then show ?case by (subst strlen_loop.simps) (simp add: str_at_Nil)
  next
    case (Cons c cs)
    then show ?case by (subst strlen_loop.simps) (simp add: str_at_Cons)
  qed
  then show "str_at m p cs \<Longrightarrow> strlen m p = Some (length cs)" by (simp add: strlen_def str_at_def)
qed

lemma strchr_str_at:
  assumes "str_at m p cs"
  shows "\<exists>r. strchr m p c = Some r \<and> (r = NULL \<longleftrightarrow> c \<notin> set cs \<and> c \<noteq> 0)"
proof -
  have "str_at m p cs \<Longrightarrow> \<exists>r. strchr_loop m p c = Some r \<and> (r = NULL \<longleftrightarrow> c \<notin> set cs \<and> c \<noteq> 0)" for p
  proof (induction cs arbitrary: p)
    case Nil
    then show ?case by (subst strchr_loop.simps) (auto simp: str_at_Nil)
  next
    case (Cons x cs)
    then show ?case
      using Cons.IH [of "p + 1"] by (subst strchr_loop.simps) (auto simp: str_at_Cons)
  qed
  then show ?thesis using assms by (simp add: strchr_def str_at_def)
qed

section \<open>Tokens\<close>

function tokens :: "('a \<Rightarrow> bool) \<Rightarrow> 'a list \<Rightarrow> 'a list list" where
  "tokens D [] = []"
| "tokens D (c # cs) =
     (if D c then tokens D cs else (c # takeWhile (\<lambda>x. \<not> D x) cs) # tokens D (dropWhile (\<lambda>x. \<not> D x) cs))"
  by pat_completeness auto
termination
  by (relation "measure (\<lambda>(D, cs). length cs)") (auto simp: length_dropWhile_le le_imp_less_Suc)

lemma strtok_skip_spec:
  assumes d: "str_at m d ds"
  shows "str_at m s cs \<Longrightarrow> strtok_skip m d s =
    Some (if dropWhile (\<lambda>c. c \<in> set ds) cs = [] then Inl (s + length cs)
          else Inr (s + length (takeWhile (\<lambda>c. c \<in> set ds) cs)))"
proof (induction cs arbitrary: s)
  case Nil
  then show ?case
    using strchr_str_at [OF d, of 0] by (subst strtok_skip.simps) (auto simp: str_at_Nil)
next
  case (Cons c cs)
  obtain r where r: "strchr m d c = Some r" "r = NULL \<longleftrightarrow> c \<notin> set ds \<and> c \<noteq> 0"
    using strchr_str_at [OF d, of c] by blast
  show ?case
    using Cons r by (subst strtok_skip.simps) (auto simp: str_at_Cons)
qed

lemma strtok_scan_spec:
  assumes d: "str_at m d ds"
  shows "str_at m s cs \<Longrightarrow> strtok_scan m d s = Some (s + length (takeWhile (\<lambda>c. c \<notin> set ds) cs))"
proof (induction cs arbitrary: s)
  case Nil
  then show ?case
    using strchr_str_at [OF d, of 0] by (subst strtok_scan.simps) (auto simp: str_at_Nil)
next
  case (Cons c cs)
  obtain r where r: "strchr m d c = Some r" "r = NULL \<longleftrightarrow> c \<notin> set ds \<and> c \<noteq> 0"
    using strchr_str_at [OF d, of c] by blast
  show ?case
    using Cons r by (subst strtok_scan.simps) (auto simp: str_at_Cons)
qed

lemma tokens_skip: "tokens D (dropWhile D cs) = tokens D cs"
  by (induction cs) auto

lemma tokens_tl: "cs \<noteq> [] \<Longrightarrow> D (hd cs) \<Longrightarrow> tokens D cs = tokens D (tl cs)"
  by (cases cs) auto

lemma str_at_token_end:
  assumes "str_at m t (tok @ rest)" "rest = [] \<longrightarrow> m' = m" "rest \<noteq> [] \<longrightarrow> m' = m(t + length tok := 0)"
  shows "str_at m' t tok"
  using assms by (cases rest) (auto simp: str_at_def nth_append)

text \<open>One call, on the string \<open>cs\<close> left to tokenise.\<close>

lemma strtok_r_step:
  assumes d: "str_at m d ds" and s: "str_at m s cs" and s0: "s' = s \<or> (s' = NULL \<and> save = s)"
  defines "D \<equiv> \<lambda>c. c \<in> set ds"
  shows "if tokens D cs = [] then \<exists>e. strtok_r m s' d save = Some (NULL, e, m)
    else \<exists>t save' m' cs'. strtok_r m s' d save = Some (t, save', m') \<and> t \<noteq> NULL \<and> s \<le> t
      \<and> str_at m' t (hd (tokens D cs)) \<and> str_at m' save' cs' \<and> tokens D cs' = tl (tokens D cs)
      \<and> (t + length (hd (tokens D cs)) < save' \<or> cs' = []) \<and> s \<le> save' \<and> save' + length cs' = s + length cs
      \<and> length cs' < length cs \<and> (\<forall>a. a < s \<or> s + length cs < a \<longrightarrow> m' a = m a)"
proof -
  have sel: "(if s' = NULL then save else s') = s" "s \<noteq> NULL" "d \<noteq> NULL"
    using s0 s d by (auto simp: str_at_def)
  let ?pre = "takeWhile D cs" and ?r = "dropWhile D cs"
  let ?tok = "takeWhile (\<lambda>c. \<not> D c) ?r" and ?post = "dropWhile (\<lambda>c. \<not> D c) ?r"
  note skip = strtok_skip_spec [OF d s, folded D_def]
  show ?thesis
  proof (cases "?r = []")
    case True
    then have "tokens D cs = []" using tokens_skip [of D cs] by (metis tokens.simps(1))
    then show ?thesis using skip sel True by (simp add: strtok_r_def Let_def)
  next
    case False
    then obtain c r' where r: "?r = c # r'" "\<not> D c" by (metis dropWhile_eq_Cons_conv neq_Nil_conv)
    have tk: "tokens D cs = ?tok # tokens D ?post" using tokens_skip [of D cs] r by simp
    define t where "t = s + length ?pre"
    have st: "str_at m t ?r" unfolding t_def using str_at_append [of m s ?pre ?r] s by simp
    have scan: "strtok_scan m d t = Some (t + length ?tok)"
      using strtok_scan_spec [OF d st] by (simp add: D_def)
    have len: "length cs = length ?pre + length ?tok + length ?post"
      by (metis length_append takeWhile_dropWhile_id add.assoc)
    have split: "?r = ?tok @ ?post" by simp
    have endp: "str_at m (t + length ?tok) ?post" using str_at_append [of m t ?tok ?post] st by simp
    have tok1: "0 < length ?tok" using r by simp
    have call: "strtok_r m s' d save = (if m (t + length ?tok) \<noteq> 0
        then Some (t, t + length ?tok + 1, m(t + length ?tok := 0)) else Some (t, t + length ?tok, m))"
      using skip sel False scan by (simp add: strtok_r_def Let_def t_def)
    have t0: "t \<noteq> NULL" "s \<le> t" using sel(2) by (auto simp: t_def)
    show ?thesis
    proof (cases "?post")
      case Nil
      have "m (t + length ?tok) = 0" using endp Nil by (simp add: str_at_Nil)
      moreover have "str_at m t ?tok" using st split unfolding Nil by simp
      moreover have "str_at m (t + length ?tok) []" using endp Nil by simp
      ultimately have "strtok_r m s' d save = Some (t, t + length ?tok, m) \<and> t \<noteq> NULL \<and> s \<le> t
          \<and> str_at m t (hd (tokens D cs)) \<and> str_at m (t + length ?tok) [] \<and> tokens D [] = tl (tokens D cs)
          \<and> (t + length (hd (tokens D cs)) < t + length ?tok \<or> ([]::u8 list) = []) \<and> s \<le> t + length ?tok
          \<and> t + length ?tok + length ([]::u8 list) = s + length cs \<and> length ([]::u8 list) < length cs
          \<and> (\<forall>a. a < s \<or> s + length cs < a \<longrightarrow> m a = m a)"
        using call tk t0 tok1 len Nil by (simp add: t_def)
      then show ?thesis using tk by (simp only: list.distinct if_False) blast
    next
      case (Cons x xs)
      let ?m = "m(t + length ?tok := 0)" and ?p = "t + length ?tok + 1"
      have x: "m (t + length ?tok) \<noteq> 0" "D x" using endp Cons hd_dropWhile [of "\<lambda>c. \<not> D c" ?r] by (auto simp: str_at_Cons)
      have tokm: "str_at ?m t ?tok" by (rule str_at_token_end [of m t ?tok ?post]) (use st split Cons in auto)
      have "str_at m ?p xs" using endp Cons by (simp add: str_at_Cons)
      then have rest: "str_at ?m ?p xs" by (rule str_at_cong) simp
      have "strtok_r m s' d save = Some (t, ?p, ?m) \<and> t \<noteq> NULL \<and> s \<le> t
          \<and> str_at ?m t (hd (tokens D cs)) \<and> str_at ?m ?p xs \<and> tokens D xs = tl (tokens D cs)
          \<and> (t + length (hd (tokens D cs)) < ?p \<or> xs = []) \<and> s \<le> ?p
          \<and> ?p + length xs = s + length cs \<and> length xs < length cs
          \<and> (\<forall>a. a < s \<or> s + length cs < a \<longrightarrow> ?m a = m a)"
        using call tk t0 len Cons x tokm rest by (simp add: t_def)
      then show ?thesis using tk by (simp only: list.distinct if_False) blast
    qed
  qed
qed

lemma strtok_all_spec:
  assumes "str_at m d ds" "str_at m s cs" "s' = s \<or> (s' = NULL \<and> save = s)"
    and "d + length ds < s \<or> s + length cs < d"
  shows "\<exists>ps m'. strtok_all m s' d save = Some (ps, m')
    \<and> list_all2 (str_at m') ps (tokens (\<lambda>c. c \<in> set ds) cs)
    \<and> (\<forall>a. a < s \<or> s + length cs < a \<longrightarrow> m' a = m a) \<and> (cs = [] \<longrightarrow> m' = m)"
  using assms
proof (induction "length cs" arbitrary: m s s' save cs rule: less_induct)
  case less
  let ?T = "tokens (\<lambda>c. c \<in> set ds) cs"
  note step = strtok_r_step [OF less.prems(1-3)]
  show ?case
  proof (cases "?T = []")
    case True
    then show ?thesis using step by (subst strtok_all.simps) auto
  next
    case False
    then obtain t save1 m1 cs1 where c: "strtok_r m s' d save = Some (t, save1, m1)" "t \<noteq> NULL" "s \<le> t"
      "str_at m1 t (hd ?T)" "str_at m1 save1 cs1" "tokens (\<lambda>c. c \<in> set ds) cs1 = tl ?T"
      "t + length (hd ?T) < save1 \<or> cs1 = []" "s \<le> save1" "save1 + length cs1 = s + length cs" "length cs1 < length cs"
      "\<forall>a. a < s \<or> s + length cs < a \<longrightarrow> m1 a = m a"
      using step by auto
    have d1: "str_at m1 d ds" using c(11) less.prems(1,4) by (elim str_at_cong) auto
    obtain ps m2 where ih: "strtok_all m1 NULL d save1 = Some (ps, m2)" "list_all2 (str_at m2) ps (tl ?T)"
      "\<forall>a. a < save1 \<or> save1 + length cs1 < a \<longrightarrow> m2 a = m1 a" "cs1 = [] \<longrightarrow> m2 = m1"
      using less.hyps [OF c(10) d1 c(5), of NULL save1] c(6,8,9) less.prems(4) by auto
    have "str_at m2 t (hd ?T)"
    proof (cases "cs1 = []")
      case False
      then show ?thesis using c(4,7) ih(3) by (elim str_at_cong) auto
    qed (use c(4) ih(4) in simp)
    then have "list_all2 (str_at m2) (t # ps) ?T" using ih(2) False by (cases ?T) auto
    moreover have "strtok_all m s' d save = Some (t # ps, m2)"
      using c(1,2) ih(1) by (subst strtok_all.simps) simp
    moreover have "m2 a = m a" if "a < s \<or> s + length cs < a" for a
      using that ih(3) c(8,9,11) by auto
    ultimately show ?thesis using False by fastforce
  qed
qed

section \<open>Properties\<close>

text \<open>
  Note: \<open>memmove\<close> copies correctly for every overlap: afterwards the destination holds what the
  source held before, and no other byte has changed.  The returned pointer is the destination
  only when the copy runs downwards; when \<open>dst < src\<close> it is one past the copied block.
\<close>

theorem memmove_correct:
  assumes "dst \<noteq> NULL" "src \<noteq> NULL"
  shows "\<exists>p m'. memmove m dst src n = Some (p, m') \<and> (\<forall>i < n. m' (dst + i) = m (src + i))
    \<and> (\<forall>a. a < dst \<or> dst + n \<le> a \<longrightarrow> m' a = m a) \<and> p = (if dst < src then dst + n else dst)"
  using assms by (auto simp: memmove_def copy_up_copied copy_down_copied copied_def)

theorem memmove_correct_witness:
  "\<exists>p m'. memmove of_nat 100 104 10 = Some (p, m') \<and> (\<forall>i < 10. m' (100 + i) = (of_nat (104 + i) :: u8))
    \<and> (\<forall>a. a < 100 \<or> 100 + 10 \<le> a \<longrightarrow> m' a = of_nat a) \<and> p = (if (100::ptr) < 104 then 100 + 10 else 100)"
  by (rule memmove_correct) simp_all

text \<open>
  C31: calling \<open>strtok_r\<close> until it returns null, as the comment shows, terminates and returns
  exactly the tokens of the string, in order: the maximal runs of non-delimiters.  Each returned
  pointer is, at the end, a terminated string equal to its token, and only bytes of the tokenised
  string are written.
\<close>

theorem strtok_r_tokens:
  assumes "str_at m d ds" "str_at m s cs" "d + length ds < s \<or> s + length cs < d"
  shows "\<exists>ps m'. strtok_all m s d save = Some (ps, m')
    \<and> list_all2 (str_at m') ps (tokens (\<lambda>c. c \<in> set ds) cs)
    \<and> (\<forall>a. a < s \<or> s + length cs < a \<longrightarrow> m' a = m a)"
  using strtok_all_spec [OF assms(1,2) _ assms(3), of s save] by auto

theorem strtok_r_tokens_witness:
  "\<exists>ps m'. strtok_all (\<lambda>a. if a = 10 then 32 else if a = 101 \<or> a = 102 then 65 else if a = 104 then 66
        else if a \<in> {100, 103} then 32 else 0) 100 10 NULL = Some (ps, m')
    \<and> list_all2 (str_at m') ps (tokens (\<lambda>c. c \<in> set [32]) [32, 65, 65, 32, 66])
    \<and> (\<forall>a. a < 100 \<or> 100 + length [32, 65, 65, 32, 66 :: u8] < a \<longrightarrow>
         m' a = (if a = 10 then 32 else if a = 101 \<or> a = 102 then 65 else if a = 104 then 66
           else if a \<in> {100, 103} then 32 else 0))"
  by (rule strtok_r_tokens) (simp_all add: str_at_def less_Suc_eq)

text \<open>
  Note: \<open>strlcpy\<close> never writes outside its \<open>size\<close> bytes, returns the length of the source,
  and (for a non-zero size and a buffer apart from the source) leaves a terminated copy of at most
  \<open>size - 1\<close> characters in the buffer.
\<close>

theorem strlcpy_correct:
  assumes "str_at m src cs" "dst \<noteq> NULL" "0 < n" "dst + n \<le> src \<or> src + length cs < dst"
  shows "\<exists>m'. strlcpy m dst src n = Some (length cs, m') \<and> str_at m' dst (take (n - 1) cs)
    \<and> (\<forall>a. a < dst \<or> dst + n \<le> a \<longrightarrow> m' a = m a)"
proof -
  let ?k = "min (length cs) (n - 1)"
  have k: "(if length cs < n - 1 then length cs else n - 1) = ?k" by simp
  have "dst \<le> src \<or> src + ?k \<le> dst" using assms(4) by auto
  then have cp: "copy_up ?k m dst src = copied m dst src ?k" by (rule copy_up_copied)
  let ?m = "(copied m dst src ?k)(dst + ?k := 0)"
  have call: "strlcpy m dst src n = Some (length cs, ?m)"
  proof -
    have "src \<noteq> NULL" using assms(1) by (simp add: str_at_def)
    then show ?thesis
      using assms(2,3) strlen_str_at [OF assms(1)] unfolding strlcpy_def memcpy_def
      by (simp add: Let_def k [simplified] cp [simplified])
  qed
  have "str_at ?m dst (take (n - 1) cs)"
    using assms(1,2) by (auto simp: str_at_def copied_def min_def dest: in_set_takeD)
  moreover have "?m a = m a" if "a < dst \<or> dst + n \<le> a" for a using that assms(3) by (auto simp: copied_def)
  ultimately show ?thesis using call by blast
qed

theorem strlcpy_correct_witness:
  "\<exists>m'. strlcpy (\<lambda>a. if a = 50 \<or> a = 51 then 65 else 0) 10 50 2 = Some (length [65, 65 :: u8], m')
    \<and> str_at m' 10 (take (2 - 1) [65, 65])
    \<and> (\<forall>a. a < 10 \<or> 10 + 2 \<le> a \<longrightarrow> m' a = (if a = 50 \<or> a = 51 then 65 else 0))"
  by (rule strlcpy_correct) (simp_all add: str_at_def less_Suc_eq)

end
