(* ===== verification/Kthread.thy ===== *)
theory Kthread
  imports Klist
begin

text \<open>
  Kernel threads and the scheduler: \<open>threads/thread.c\<close>, \<open>threads/thread.h\<close>, the interrupt
  level of \<open>threads/interrupt.c\<close> and the part of \<open>userprog/process.c\<close>, \<open>userprog/pagedir.c\<close>
  and \<open>userprog/tss.c\<close> that a context switch runs.

  The kernel state is one record.  Threads are identified with the address of their page; the
  lists linked through \<open>elem\<close> and \<open>allelem\<close> are sequences of threads.  A kernel stack is
  represented by what the thread still has to do when it is resumed, a list of segments; a segment
  runs without being interrupted by another thread, because the code has interrupts off there or
  because it is a single access.  A failed assertion is \<open>None\<close>.
\<close>

section \<open>State\<close>

datatype thread_status = THREAD_RUNNING | THREAD_READY | THREAD_BLOCKED | THREAD_DYING

datatype seg =
    Set_level bool              \<comment> \<open>\<open>intr_set_level (old_level)\<close>\<close>
  | Down_test ptr bool          \<comment> \<open>the loop of \<open>sema_down\<close>, with the saved level\<close>
  | Sema_down ptr               \<comment> \<open>a call of \<open>sema_down\<close>\<close>
  | Sema_up ptr                 \<comment> \<open>a call of \<open>sema_up\<close>\<close>
  | Lock_acquire ptr            \<comment> \<open>a call of \<open>lock_acquire\<close>\<close>
  | Lock_taken ptr              \<comment> \<open>\<open>lock_acquire\<close> after \<open>sema_down\<close>\<close>
  | Lock_release ptr            \<comment> \<open>a call of \<open>lock_release\<close>\<close>
  | Broadcast ptr ptr           \<comment> \<open>the loop of \<open>cond_broadcast\<close>\<close>
  | Block_now                   \<comment> \<open>\<open>timer_sleep\<close> from \<open>intr_disable\<close> on\<close>
  | Take_tid ptr                \<comment> \<open>\<open>next_tid++\<close> for a new thread\<close>
  | Create_rest ptr ptr         \<comment> \<open>\<open>thread_create\<close> after \<open>allocate_tid\<close>\<close>
  | Thread_start ptr            \<comment> \<open>\<open>kernel_thread\<close> up to the call of the function\<close>
  | Intr_return                 \<comment> \<open>return from an interrupt\<close>

record thread =
  t_tid :: int
  t_status :: thread_status
  t_name :: "u8 list"
  t_stack :: nat
  t_priority :: int
  blocked_ticks :: int
  t_nice :: int
  recent_cpu :: int
  t_pagedir :: ptr
  t_parent :: ptr
  in_syscall :: bool
  t_magic :: u32
  t_cont :: "seg list"

record semaphore =
  sema_value :: u32
  waiters :: "ptr list"

record kernel =
  threads :: "ptr \<Rightarrow> thread option"
  ready_list :: "ptr list"
  all_list :: "ptr list"
  blocked_list :: "ptr list"
  idle_thread :: ptr
  initial_thread :: ptr
  cur :: ptr
  intr_on :: bool
  in_external_intr :: bool
  yield_on_return :: bool
  ticks :: int
  thread_ticks :: u32
  idle_ticks :: int
  kernel_ticks :: int
  user_ticks :: int
  next_tid :: int
  semas :: "ptr \<Rightarrow> semaphore"
  lock_holder :: "ptr \<Rightarrow> ptr"
  cond_waiters :: "ptr \<Rightarrow> ptr list"
  kheap :: lheap
  cr3 :: ptr
  tss_esp0 :: nat
  init_page_dir :: ptr

definition THREAD_MAGIC :: u32 where "THREAD_MAGIC = 0xcd6abf4b"
definition PRI_MIN :: int where "PRI_MIN = 0"
definition PRI_DEFAULT :: int where "PRI_DEFAULT = 31"
definition PRI_MAX :: int where "PRI_MAX = 63"
definition TIME_SLICE :: u32 where "TIME_SLICE = 4"
definition TID_ERROR :: int where "TID_ERROR = -1"
definition pgsize :: nat where "pgsize = 4096"

text \<open>The values of 64-bit and 32-bit signed C expressions, with wrap-around.\<close>

definition s64 :: "int \<Rightarrow> int" where
  "s64 x = sint (word_of_int x :: u64)"

definition tid_wrap :: "int \<Rightarrow> int" where
  "tid_wrap x = sint (word_of_int x :: u32)"

text \<open>Where \<open>struct thread\<close> has its list of held locks and \<open>struct lock\<close> its element of it.\<close>

definition locks_list :: "ptr \<Rightarrow> ptr" where "locks_list t = t + 68"
definition lock_elem :: "ptr \<Rightarrow> ptr" where "lock_elem l = l + 24"
definition lock_sema :: "ptr \<Rightarrow> ptr" where "lock_sema l = l + 4"

definition upd_thread :: "ptr \<Rightarrow> (thread \<Rightarrow> thread) \<Rightarrow> kernel \<Rightarrow> kernel option" where
  "upd_thread p f k = (case threads k p of
     Some t \<Rightarrow> Some (k\<lparr>threads := (threads k)(p \<mapsto> f t)\<rparr>) | None \<Rightarrow> None)"

definition push_cont :: "ptr \<Rightarrow> seg list \<Rightarrow> kernel \<Rightarrow> kernel option" where
  "push_cont p segs k = upd_thread p (\<lambda>t. t\<lparr>t_cont := segs @ t_cont t\<rparr>) k"

section \<open>The interrupt level\<close>

definition intr_get_level :: "kernel \<Rightarrow> bool" where
  "intr_get_level k = intr_on k"

definition intr_context :: "kernel \<Rightarrow> bool" where
  "intr_context k = in_external_intr k"

definition intr_enable :: "kernel \<Rightarrow> (bool \<times> kernel) option" where
  "intr_enable k = do {
     kassert (\<not> intr_context k);
     Some (intr_on k, k\<lparr>intr_on := True\<rparr>) }"

definition intr_disable :: "kernel \<Rightarrow> bool \<times> kernel" where
  "intr_disable k = (intr_on k, k\<lparr>intr_on := False\<rparr>)"

definition intr_set_level :: "bool \<Rightarrow> kernel \<Rightarrow> kernel option" where
  "intr_set_level level k =
     (if level then do { (_, k) \<leftarrow> intr_enable k; Some k } else Some (snd (intr_disable k)))"

definition intr_yield_on_return :: "kernel \<Rightarrow> kernel option" where
  "intr_yield_on_return k = do { kassert (intr_context k); Some (k\<lparr>yield_on_return := True\<rparr>) }"

section \<open>Threads\<close>

definition is_thread :: "kernel \<Rightarrow> ptr \<Rightarrow> bool" where
  "is_thread k p \<longleftrightarrow> p \<noteq> NULL \<and> (case threads k p of Some t \<Rightarrow> t_magic t = THREAD_MAGIC | None \<Rightarrow> False)"

definition running_thread :: "kernel \<Rightarrow> ptr" where
  "running_thread k = cur k"

definition thread_current :: "kernel \<Rightarrow> ptr option" where
  "thread_current k = do {
     let p = running_thread k;
     kassert (is_thread k p);
     t \<leftarrow> threads k p;
     kassert (t_status t = THREAD_RUNNING);
     Some p }"

definition thread_tid :: "kernel \<Rightarrow> int option" where
  "thread_tid k = do { p \<leftarrow> thread_current k; t \<leftarrow> threads k p; Some (t_tid t) }"

definition thread_name :: "kernel \<Rightarrow> u8 list option" where
  "thread_name k = do { p \<leftarrow> thread_current k; t \<leftarrow> threads k p; Some (t_name t) }"

definition thread_get_priority :: "kernel \<Rightarrow> int option" where
  "thread_get_priority k = do { p \<leftarrow> thread_current k; t \<leftarrow> threads k p; Some (t_priority t) }"

definition thread_set_priority :: "int \<Rightarrow> kernel \<Rightarrow> kernel option" where
  "thread_set_priority new_priority k = do {
     p \<leftarrow> thread_current k;
     upd_thread p (\<lambda>t. t\<lparr>t_priority := new_priority\<rparr>) k }"

definition set_thread_blocked_ticks :: "ptr \<Rightarrow> int \<Rightarrow> kernel \<Rightarrow> kernel option" where
  "set_thread_blocked_ticks p n k = upd_thread p (\<lambda>t. t\<lparr>blocked_ticks := n\<rparr>) k"

text \<open>The BSD scheduler interface is not implemented in the source: constant results.\<close>

definition thread_set_nice :: "int \<Rightarrow> kernel \<Rightarrow> kernel" where "thread_set_nice nice k = k"
definition thread_get_nice :: "kernel \<Rightarrow> int" where "thread_get_nice k = 0"
definition thread_get_load_avg :: "kernel \<Rightarrow> int" where "thread_get_load_avg k = 0"
definition thread_get_recent_cpu :: "kernel \<Rightarrow> int" where "thread_get_recent_cpu k = 0"

definition threads_ready :: "kernel \<Rightarrow> nat" where
  "threads_ready k = length (ready_list k)"

fun lookup_tid_loop :: "kernel \<Rightarrow> int \<Rightarrow> ptr list \<Rightarrow> ptr option" where
  "lookup_tid_loop k tid [] = Some NULL"
| "lookup_tid_loop k tid (p # ps) = do {
     t \<leftarrow> threads k p;
     if t_tid t = tid then Some p else lookup_tid_loop k tid ps }"

definition lookup_tid :: "kernel \<Rightarrow> int \<Rightarrow> ptr option" where
  "lookup_tid k tid = lookup_tid_loop k tid (all_list k)"

definition thread_foreach :: "(ptr \<Rightarrow> 's \<Rightarrow> 's) \<Rightarrow> kernel \<Rightarrow> 's \<Rightarrow> 's option" where
  "thread_foreach func k s = do { kassert (\<not> intr_get_level k); Some (fold func (all_list k) s) }"

section \<open>Switching\<close>

definition pagedir_activate :: "ptr \<Rightarrow> kernel \<Rightarrow> kernel" where
  "pagedir_activate pd k = k\<lparr>cr3 := (if pd = NULL then init_page_dir k else pd)\<rparr>"

definition tss_update :: "kernel \<Rightarrow> kernel option" where
  "tss_update k = do { p \<leftarrow> thread_current k; Some (k\<lparr>tss_esp0 := p + pgsize\<rparr>) }"

definition process_activate :: "kernel \<Rightarrow> kernel option" where
  "process_activate k = do {
     p \<leftarrow> thread_current k;
     t \<leftarrow> threads k p;
     tss_update (pagedir_activate (t_pagedir t) k) }"

definition next_thread_to_run :: "kernel \<Rightarrow> ptr \<times> kernel" where
  "next_thread_to_run k =
     (if ready_list k = [] then (idle_thread k, k)
      else (hd (ready_list k), k\<lparr>ready_list := tl (ready_list k)\<rparr>))"

text \<open>\<open>palloc_free_page\<close> of a thread's page: the thread is gone.\<close>

definition thread_schedule_tail :: "ptr \<Rightarrow> kernel \<Rightarrow> kernel option" where
  "thread_schedule_tail prev k = do {
     kassert (\<not> intr_get_level k);
     k \<leftarrow> upd_thread (running_thread k) (\<lambda>t. t\<lparr>t_status := THREAD_RUNNING\<rparr>) k;
     k \<leftarrow> process_activate (k\<lparr>thread_ticks := 0\<rparr>);
     if prev \<noteq> NULL then do {
       t \<leftarrow> threads k prev;
       if t_status t = THREAD_DYING \<and> prev \<noteq> initial_thread k then do {
         kassert (prev \<noteq> running_thread k);
         Some (k\<lparr>threads := (threads k)(prev := None)\<rparr>) }
       else Some k }
     else Some k }"

definition schedule :: "kernel \<Rightarrow> kernel option" where
  "schedule k = do {
     let c = running_thread k;
     let (next, k) = next_thread_to_run k;
     kassert (\<not> intr_get_level k);
     t \<leftarrow> threads k c;
     kassert (t_status t \<noteq> THREAD_RUNNING);
     kassert (is_thread k next);
     thread_schedule_tail (if c \<noteq> next then c else NULL) (k\<lparr>cur := next\<rparr>) }"

definition thread_block :: "kernel \<Rightarrow> kernel option" where
  "thread_block k = do {
     kassert (\<not> intr_context k);
     kassert (\<not> intr_get_level k);
     p \<leftarrow> thread_current k;
     k \<leftarrow> upd_thread p (\<lambda>t. t\<lparr>t_status := THREAD_BLOCKED\<rparr>) k;
     schedule k }"

definition thread_unblock :: "ptr \<Rightarrow> kernel \<Rightarrow> kernel option" where
  "thread_unblock p k = do {
     kassert (is_thread k p);
     let (old_level, k) = intr_disable k;
     t \<leftarrow> threads k p;
     kassert (t_status t = THREAD_BLOCKED);
     k \<leftarrow> upd_thread p (\<lambda>t. t\<lparr>t_status := THREAD_READY\<rparr>) (k\<lparr>ready_list := ready_list k @ [p]\<rparr>);
     intr_set_level old_level k }"

definition thread_yield :: "kernel \<Rightarrow> kernel option" where
  "thread_yield k = do {
     p \<leftarrow> thread_current k;
     kassert (\<not> intr_context k);
     let (old_level, k) = intr_disable k;
     let k = (if p \<noteq> idle_thread k then k\<lparr>ready_list := ready_list k @ [p]\<rparr> else k);
     k \<leftarrow> upd_thread p (\<lambda>t. t\<lparr>t_status := THREAD_READY\<rparr>) k;
     k \<leftarrow> push_cont p [Set_level old_level] k;
     schedule k }"

text \<open>
  \<open>process_exit\<close> of \<open>userprog/process.c\<close>.  The pages that \<open>pagedir_destroy\<close> and \<open>free\<close> give back are memory, which
  is not part of this state; theory Pagedir_Free is about them.
\<close>

definition process_exit :: "kernel \<Rightarrow> kernel option" where
  "process_exit k = do {
     p \<leftarrow> thread_current k;
     t \<leftarrow> threads k p;
     let pd = t_pagedir t;
     if pd \<noteq> NULL then do {
       k \<leftarrow> upd_thread p (\<lambda>t. t\<lparr>t_pagedir := NULL\<rparr>) k;
       Some (pagedir_activate NULL k) }
     else Some k }"

definition thread_exit :: "kernel \<Rightarrow> kernel option" where
  "thread_exit k = do {
     kassert (\<not> intr_context k);
     k \<leftarrow> process_exit k;
     let (_, k) = intr_disable k;
     p \<leftarrow> thread_current k;
     kassert (p \<in> set (all_list k));
     k \<leftarrow> upd_thread p (\<lambda>t. t\<lparr>t_status := THREAD_DYING, t_cont := []\<rparr>)
            (k\<lparr>all_list := remove1 p (all_list k)\<rparr>);
     schedule k }"

section \<open>Creation\<close>

definition init_thread :: "ptr \<Rightarrow> u8 list \<Rightarrow> int \<Rightarrow> kernel \<Rightarrow> kernel option" where
  "init_thread p name priority k = do {
     kassert (p \<noteq> NULL);
     kassert (PRI_MIN \<le> priority \<and> priority \<le> PRI_MAX);
     parent \<leftarrow> (if length (all_list k) > 0 then thread_current k else Some NULL);
     h \<leftarrow> list_init (kheap k) (locks_list p);
     let t = \<lparr>t_tid = 0, t_status = THREAD_BLOCKED, t_name = take 15 name, t_stack = p + pgsize,
       t_priority = priority, blocked_ticks = 0, t_nice = 0, recent_cpu = 0, t_pagedir = NULL,
       t_parent = parent, in_syscall = False, t_magic = THREAD_MAGIC, t_cont = []\<rparr>;
     Some (k\<lparr>threads := (threads k)(p \<mapsto> t), kheap := h, all_list := all_list k @ [p]\<rparr>) }"

definition alloc_frame :: "ptr \<Rightarrow> nat \<Rightarrow> kernel \<Rightarrow> kernel option" where
  "alloc_frame p sz k = do {
     kassert (is_thread k p);
     kassert (sz mod 4 = 0);
     upd_thread p (\<lambda>t. t\<lparr>t_stack := t_stack t - sz\<rparr>) k }"

text \<open>The stack frames of \<open>kernel_thread\<close>, \<open>switch_entry\<close> and \<open>switch_threads\<close>.\<close>

definition create_rest :: "ptr \<Rightarrow> ptr \<Rightarrow> kernel \<Rightarrow> kernel option" where
  "create_rest p function k = do {
     let (old_level, k) = intr_disable k;
     k \<leftarrow> alloc_frame p 12 k;
     k \<leftarrow> alloc_frame p 4 k;
     k \<leftarrow> alloc_frame p 28 k;
     k \<leftarrow> push_cont p [Thread_start function] k;
     k \<leftarrow> intr_set_level old_level k;
     thread_unblock p k }"

definition take_tid :: "ptr \<Rightarrow> kernel \<Rightarrow> kernel option" where
  "take_tid p k = do {
     k' \<leftarrow> upd_thread p (\<lambda>t. t\<lparr>t_tid := next_tid k\<rparr>) k;
     Some (k'\<lparr>next_tid := tid_wrap (next_tid k + 1)\<rparr>) }"

text \<open>
  \<open>thread_create\<close> with the page \<open>palloc_get_page\<close> returned: \<open>allocate_tid\<close> takes the tid lock,
  which may block, so the rest is left on the creator's stack.  The first component is the value
  returned at once, \<open>TID_ERROR\<close>; otherwise the call returns the new thread's tid when the segments
  have run.
\<close>

definition thread_create :: "ptr \<Rightarrow> ptr \<Rightarrow> u8 list \<Rightarrow> int \<Rightarrow> ptr \<Rightarrow> kernel \<Rightarrow> (int option \<times> kernel) option" where
  "thread_create tid_lock page name priority function k = do {
     kassert (function \<noteq> NULL);
     if page = NULL then Some (Some TID_ERROR, k)
     else do {
       k \<leftarrow> init_thread page name priority k;
       c \<leftarrow> thread_current k;
       k \<leftarrow> push_cont c [Lock_acquire tid_lock, Take_tid page, Lock_release tid_lock,
              Create_rest page function] k;
       Some (None, k) } }"

text \<open>\<open>kernel_thread\<close> up to the call of the thread's function.\<close>

definition kernel_thread :: "ptr \<Rightarrow> kernel \<Rightarrow> kernel option" where
  "kernel_thread function k = do {
     kassert (function \<noteq> NULL);
     (_, k) \<leftarrow> intr_enable k;
     Some k }"

section \<open>Ticks\<close>

definition thread_tick :: "kernel \<Rightarrow> kernel option" where
  "thread_tick k = do {
     p \<leftarrow> thread_current k;
     t \<leftarrow> threads k p;
     let k = (if p = idle_thread k then k\<lparr>idle_ticks := s64 (idle_ticks k + 1)\<rparr>
              else if t_pagedir t \<noteq> NULL then k\<lparr>user_ticks := s64 (user_ticks k + 1)\<rparr>
              else k\<lparr>kernel_ticks := s64 (kernel_ticks k + 1)\<rparr>);
     let k = k\<lparr>thread_ticks := thread_ticks k + 1\<rparr>;
     if thread_ticks k \<ge> TIME_SLICE then intr_yield_on_return k else Some k }"

fun repeated_check_blocked_list :: "int \<Rightarrow> ptr list \<Rightarrow> kernel \<Rightarrow> kernel option" where
  "repeated_check_blocked_list n [] k = Some k"
| "repeated_check_blocked_list n (p # ps) k = do {
     t \<leftarrow> threads k p;
     if blocked_ticks t \<le> n then do {
       k \<leftarrow> thread_unblock p (k\<lparr>blocked_list := ps\<rparr>);
       repeated_check_blocked_list n ps k }
     else Some k }"

definition unblock_thread_with_enough_ticks :: "int \<Rightarrow> kernel \<Rightarrow> kernel option" where
  "unblock_thread_with_enough_ticks n k = repeated_check_blocked_list n (blocked_list k) k"

end
