(* ===== verification/Fixed_Point.thy ===== *)
theory Fixed_Point
  imports Prelude "HOL-Library.Signed_Division"
begin

text \<open>
  The 17.14 fixed-point macros of \<open>threads/fixed-point.h\<close>.  A value of type \<open>fp\<close> is a signed
  32-bit integer; sums and products are taken in 32 bits (64 bits where the macro casts) with
  wrap-around, division truncates towards zero.  A division that traps (by zero, or \<open>INT_MIN / -1\<close>)
  is \<open>None\<close>.
\<close>

section \<open>Model\<close>

type_synonym fp = int

definition s32 :: "int \<Rightarrow> int" where
  "s32 x = sint (word_of_int x :: u32)"

definition fp_F :: int where "fp_F = 2 ^ 14"

definition fp_is_positive :: "fp \<Rightarrow> bool" where
  "fp_is_positive x \<longleftrightarrow> drop_bit 31 x = 0"

definition fp_int_to_fp :: "int \<Rightarrow> fp" where
  "fp_int_to_fp n = s32 (n * fp_F)"

definition fp_x_to_integer_round_to_zero :: "fp \<Rightarrow> int" where
  "fp_x_to_integer_round_to_zero x = x sdiv fp_F"

definition fp_x_to_integer_round_to_nearest :: "fp \<Rightarrow> int" where
  "fp_x_to_integer_round_to_nearest x =
     (if fp_is_positive x then s32 (x + fp_F sdiv 2) sdiv fp_F else s32 (x - fp_F sdiv 2) sdiv fp_F)"

definition fp_add :: "fp \<Rightarrow> fp \<Rightarrow> fp" where "fp_add x y = s32 (x + y)"
definition fp_sub :: "fp \<Rightarrow> fp \<Rightarrow> fp" where "fp_sub x y = s32 (x - y)"
definition fp_add_fp_and_int :: "fp \<Rightarrow> int \<Rightarrow> fp" where "fp_add_fp_and_int x n = s32 (x + s32 (n * fp_F))"
definition fp_sub_n_from_x :: "fp \<Rightarrow> int \<Rightarrow> fp" where "fp_sub_n_from_x x n = s32 (x - s32 (n * fp_F))"
definition fp_multi :: "fp \<Rightarrow> fp \<Rightarrow> fp" where "fp_multi x y = s32 ((x * y) sdiv fp_F)"
definition fp_multi_fp_int :: "fp \<Rightarrow> int \<Rightarrow> fp" where "fp_multi_fp_int x n = s32 (x * n)"

definition fp_divide :: "fp \<Rightarrow> fp \<Rightarrow> fp option" where
  "fp_divide x y = (if y = 0 then None else Some (s32 ((x * fp_F) sdiv y)))"

definition fp_divide_x_by_n :: "fp \<Rightarrow> int \<Rightarrow> fp option" where
  "fp_divide_x_by_n x n = (if n = 0 \<or> x = - (2 ^ 31) \<and> n = -1 then None else Some (x sdiv n))"

definition fp_frac :: "int \<Rightarrow> int \<Rightarrow> fp option" where
  "fp_frac d n = fp_divide_x_by_n (fp_int_to_fp d) n"

section \<open>Truncating division\<close>

abbreviation int32 :: "int \<Rightarrow> bool" where
  "int32 x \<equiv> - (2 ^ 31) \<le> x \<and> x < 2 ^ 31"

lemma s32_id: "int32 x \<Longrightarrow> s32 x = x"
  by (simp add: s32_def signed_of_int signed_take_bit_int_eq_self)

lemma sdiv_trunc:
  fixes a b :: int
  assumes "0 < b"
  shows "\<bar>b * (a sdiv b)\<bar> \<le> \<bar>a\<bar> \<and> \<bar>a - b * (a sdiv b)\<bar> < b \<and> (0 \<le> a \<longrightarrow> b * (a sdiv b) \<le> a) \<and> (a \<le> 0 \<longrightarrow> a \<le> b * (a sdiv b))"
proof -
  define q r where "q = \<bar>a\<bar> div b" and "r = \<bar>a\<bar> mod b"
  have e: "a sdiv b = sgn a * q" using assms by (simp add: signed_divide_int_def sgn_mult q_def)
  have m: "b * q + r = \<bar>a\<bar>" "0 \<le> r" "r < b" "0 \<le> b * q"
    using assms by (simp_all add: q_def r_def pos_imp_zdiv_nonneg_iff)
  consider "a = 0" | "0 < a" | "a < 0" by linarith
  then show ?thesis
  proof cases
    case 1 then show ?thesis using assms e by simp
  next
    case 2 then show ?thesis using m e by auto
  next
    case 3
    then have "a sdiv b = - q" using e by simp
    then show ?thesis using m 3 by auto
  qed
qed

lemma sdiv_error:
  fixes a b :: int
  assumes "b \<noteq> 0"
  shows "\<bar>a - b * (a sdiv b)\<bar> < \<bar>b\<bar>"
proof (cases "0 < b")
  case False
  have "a sdiv b = - (a sdiv (- b))" by (auto simp: signed_divide_int_def sgn_mult)
  then show ?thesis using sdiv_trunc [of "- b" a] False assms by simp
qed (use sdiv_trunc [of b a] in simp)

lemma sdiv_cancel: "0 < b \<Longrightarrow> (a * b) sdiv b = (a :: int)"
  by (auto simp: signed_divide_int_def sgn_mult abs_mult sgn_if zero_less_mult_iff mult_less_0_iff)

lemma sdiv_between:
  fixes a b n :: int
  assumes "0 < b" "n * b \<le> a" "a < n * b + b" "0 \<le> n"
  shows "a sdiv b = n"
proof -
  have "0 \<le> a" using assms by (meson mult_nonneg_nonneg order.trans less_imp_le)
  moreover have "a div b = n" using assms by (intro int_div_pos_eq [of a b n "a - n * b"]) (auto simp: algebra_simps)
  ultimately show ?thesis using assms(1) by (cases "a = 0") (auto simp: signed_divide_int_def sgn_mult)
qed

lemma fp_positive: "int32 x \<Longrightarrow> fp_is_positive x \<longleftrightarrow> 0 \<le> x"
  by (auto simp: fp_is_positive_def drop_bit_eq_div zdiv_eq_0_iff)

section \<open>Properties\<close>

text \<open>
  Note: converting an integer of 17 bits plus sign to fixed point and back, by truncation or by
  rounding, gives the integer again, and adding such an integer is adding its conversion.
\<close>

theorem fp_int_roundtrip:
  assumes "- (2 ^ 17) < n" "n < 2 ^ 17"
  shows "fp_x_to_integer_round_to_zero (fp_int_to_fp n) = n \<and> fp_x_to_integer_round_to_nearest (fp_int_to_fp n) = n
    \<and> fp_add_fp_and_int x n = fp_add x (fp_int_to_fp n) \<and> fp_frac n 1 = Some (fp_int_to_fp n)"
proof -
  have r: "int32 (n * fp_F)" "int32 (n * fp_F + 2 ^ 13) \<or> n < 0" "int32 (n * fp_F - 2 ^ 13) \<or> 0 \<le> n" using assms by (auto simp: fp_F_def)
  have c: "fp_int_to_fp n = n * fp_F" using r(1) by (simp add: fp_int_to_fp_def s32_id)
  have h: "fp_F sdiv 2 = 2 ^ 13" by (simp add: fp_F_def signed_divide_int_def)
  have p: "0 < fp_F" by (simp add: fp_F_def)
  have "fp_x_to_integer_round_to_nearest (n * fp_F) = n"
  proof (cases "0 \<le> n")
    case True
    then have "(n * fp_F + 2 ^ 13) sdiv fp_F = n" by (intro sdiv_between p) (simp_all add: fp_F_def)
    then show ?thesis using True r fp_positive [OF r(1)] p by (simp add: fp_x_to_integer_round_to_nearest_def h s32_id zero_le_mult_iff)
  next
    case False
    have "(- (n * fp_F - 2 ^ 13)) sdiv fp_F = - n" using False by (intro sdiv_between p) (simp_all add: fp_F_def)
    then have "(n * fp_F - 2 ^ 13) sdiv fp_F = n" by (simp add: signed_divide_int_def sgn_if split: if_splits)
    then show ?thesis using False r fp_positive [OF r(1)] p by (simp add: fp_x_to_integer_round_to_nearest_def h s32_id zero_le_mult_iff)
  qed
  then show ?thesis using c r(1) sdiv_cancel [OF p] s32_id [OF r(1)] assms
    by (simp add: fp_x_to_integer_round_to_zero_def fp_add_fp_and_int_def fp_add_def fp_frac_def fp_divide_x_by_n_def
      signed_divide_int_def fp_F_def sgn_if)
qed

theorem fp_int_roundtrip_witness:
  "fp_x_to_integer_round_to_nearest (fp_int_to_fp (- 131071)) = - 131071"
  using fp_int_roundtrip [of "- 131071"] by simp

text \<open>
  Note: the error of the fixed-point operations is below one unit of the last place: rounding to
  nearest is off by at most one half, a product and a quotient that fit in 32 bits by less than
  one unit.
\<close>

theorem fp_rounding_error:
  assumes "\<bar>x\<bar> < 2 ^ 31 - fp_F" "\<bar>x * y\<bar> < 2 ^ 45"
  shows "2 * \<bar>fp_F * fp_x_to_integer_round_to_nearest x - x\<bar> \<le> fp_F
    \<and> \<bar>fp_F * fp_multi x y - x * y\<bar> < fp_F
    \<and> (y \<noteq> 0 \<and> int32 ((x * fp_F) sdiv y) \<longrightarrow> (\<exists>q. fp_divide x y = Some q \<and> \<bar>y * q - x * fp_F\<bar> < \<bar>y\<bar>))"
proof -
  have F: "fp_F = 16384" "fp_F sdiv 2 = 8192" by (simp_all add: fp_F_def signed_divide_int_def)
  have i: "int32 x" "int32 (x + 8192)" "int32 (x - 8192)" using assms(1) by (auto simp: F)
  have "2 * \<bar>fp_F * fp_x_to_integer_round_to_nearest x - x\<bar> \<le> fp_F"
  proof (cases "0 \<le> x")
    case True
    then have "fp_x_to_integer_round_to_nearest x = (x + 8192) sdiv 16384"
      using fp_positive [OF i(1)] i(2) by (simp add: fp_x_to_integer_round_to_nearest_def F s32_id)
    then show ?thesis using sdiv_trunc [of 16384 "x + 8192"] True by (auto simp: F)
  next
    case False
    then have "fp_x_to_integer_round_to_nearest x = (x - 8192) sdiv 16384"
      using fp_positive [OF i(1)] i(3) by (simp add: fp_x_to_integer_round_to_nearest_def F s32_id)
    then show ?thesis using sdiv_trunc [of 16384 "x - 8192"] False by (auto simp: F)
  qed
  moreover have "\<bar>fp_F * fp_multi x y - x * y\<bar> < fp_F"
  proof -
    have "\<bar>16384 * ((x * y) sdiv 16384)\<bar> < 2 ^ 45" using sdiv_trunc [of 16384 "x * y"] assms(2) by linarith
    then have "int32 ((x * y) sdiv 16384)" by auto
    then show ?thesis using sdiv_trunc [of 16384 "x * y"] by (simp add: fp_multi_def F s32_id abs_minus_commute)
  qed
  moreover have "y \<noteq> 0 \<and> int32 ((x * fp_F) sdiv y) \<longrightarrow> (\<exists>q. fp_divide x y = Some q \<and> \<bar>y * q - x * fp_F\<bar> < \<bar>y\<bar>)"
    using sdiv_error [of y "x * fp_F"] by (auto simp: fp_divide_def s32_id abs_minus_commute)
  ultimately show ?thesis by blast
qed

theorem fp_rounding_error_witness:
  "fp_x_to_integer_round_to_nearest 24576 = 2 \<and> \<bar>fp_F * fp_multi 24576 3 - 24576 * 3\<bar> < fp_F"
  using fp_rounding_error [of 24576 3]
  by (simp add: fp_F_def fp_x_to_integer_round_to_nearest_def fp_is_positive_def s32_def signed_divide_int_def drop_bit_eq_div)

text \<open>
  The running thread's \<open>recent_cpu\<close>, which the timer interrupt increments by one each tick and
  nothing decreases, overflows after 131072 ticks.
\<close>

lemma recent_cpu_overflow: "fp_add_fp_and_int (fp_int_to_fp 131071) 1 = - (2 ^ 31)"
  by (simp add: fp_add_fp_and_int_def fp_int_to_fp_def fp_F_def s32_def)

end
