(* ===== verification/Ksynch.thy ===== *)
theory Ksynch
  imports Kthread Fixed_Point
begin

text \<open>
  Semaphores, locks and condition variables, \<open>threads/synch.c\<close>, the timer of
  \<open>devices/timer.c\<close> as far as it concerns threads, and the dispatch of an external interrupt
  (\<open>intr_handler\<close> of \<open>threads/interrupt.c\<close>).  A call that may block leaves the rest of its
  work as segments on the stack of the calling thread.
\<close>

section \<open>Semaphores\<close>

definition upd_sema :: "ptr \<Rightarrow> (semaphore \<Rightarrow> semaphore) \<Rightarrow> kernel \<Rightarrow> kernel" where
  "upd_sema s f k = k\<lparr>semas := (semas k)(s := f (semas k s))\<rparr>"

definition sema_init :: "ptr \<Rightarrow> u32 \<Rightarrow> kernel \<Rightarrow> kernel option" where
  "sema_init s v k = do {
     kassert (s \<noteq> NULL);
     Some (upd_sema s (\<lambda>_. \<lparr>sema_value = v, waiters = []\<rparr>) k) }"

text \<open>One turn of the loop of \<open>sema_down\<close>, with interrupts off.\<close>

definition sema_down_test :: "ptr \<Rightarrow> bool \<Rightarrow> kernel \<Rightarrow> kernel option" where
  "sema_down_test s old_level k =
     (if sema_value (semas k s) = 0 then do {
        p \<leftarrow> thread_current k;
        k \<leftarrow> push_cont p [Down_test s old_level] (upd_sema s (\<lambda>x. x\<lparr>waiters := waiters x @ [p]\<rparr>) k);
        thread_block k }
      else intr_set_level old_level (upd_sema s (\<lambda>x. x\<lparr>sema_value := sema_value x - 1\<rparr>) k))"

definition sema_down :: "ptr \<Rightarrow> kernel \<Rightarrow> kernel option" where
  "sema_down s k = do {
     kassert (s \<noteq> NULL);
     kassert (\<not> intr_context k);
     let (old_level, k) = intr_disable k;
     sema_down_test s old_level k }"

definition sema_try_down :: "ptr \<Rightarrow> kernel \<Rightarrow> (bool \<times> kernel) option" where
  "sema_try_down s k = do {
     kassert (s \<noteq> NULL);
     let (old_level, k) = intr_disable k;
     let success = sema_value (semas k s) > 0;
     k \<leftarrow> intr_set_level old_level
            (if success then upd_sema s (\<lambda>x. x\<lparr>sema_value := sema_value x - 1\<rparr>) k else k);
     Some (success, k) }"

definition sema_up :: "ptr \<Rightarrow> kernel \<Rightarrow> kernel option" where
  "sema_up s k = do {
     kassert (s \<noteq> NULL);
     let (old_level, k) = intr_disable k;
     k \<leftarrow> (case waiters (semas k s) of
            [] \<Rightarrow> Some k
          | p # ps \<Rightarrow> thread_unblock p (upd_sema s (\<lambda>x. x\<lparr>waiters := ps\<rparr>) k));
     intr_set_level old_level (upd_sema s (\<lambda>x. x\<lparr>sema_value := sema_value x + 1\<rparr>) k) }"

section \<open>Locks\<close>

definition lock_init :: "ptr \<Rightarrow> kernel \<Rightarrow> kernel option" where
  "lock_init l k = do {
     kassert (l \<noteq> NULL);
     sema_init (lock_sema l) 1 (k\<lparr>lock_holder := (lock_holder k)(l := NULL)\<rparr>) }"

definition lock_held_by_current_thread :: "ptr \<Rightarrow> kernel \<Rightarrow> bool option" where
  "lock_held_by_current_thread l k = do {
     kassert (l \<noteq> NULL);
     p \<leftarrow> thread_current k;
     Some (lock_holder k l = p) }"

text \<open>The part of \<open>lock_acquire\<close> before \<open>sema_down\<close>, which is left on the stack.\<close>

definition lock_acquire :: "ptr \<Rightarrow> kernel \<Rightarrow> kernel option" where
  "lock_acquire l k = do {
     kassert (l \<noteq> NULL);
     kassert (\<not> intr_context k);
     held \<leftarrow> lock_held_by_current_thread l k;
     if held then Some k
     else do {
       p \<leftarrow> thread_current k;
       h \<leftarrow> list_push_back (kheap k) (locks_list p) (lock_elem l);
       push_cont p [Sema_down (lock_sema l), Lock_taken l] (k\<lparr>kheap := h\<rparr>) } }"

definition lock_taken :: "ptr \<Rightarrow> kernel \<Rightarrow> kernel option" where
  "lock_taken l k = do {
     p \<leftarrow> thread_current k;
     Some (k\<lparr>lock_holder := (lock_holder k)(l := p)\<rparr>) }"

definition lock_try_acquire :: "ptr \<Rightarrow> kernel \<Rightarrow> (bool \<times> kernel) option" where
  "lock_try_acquire l k = do {
     kassert (l \<noteq> NULL);
     held \<leftarrow> lock_held_by_current_thread l k;
     kassert (\<not> held);
     (success, k) \<leftarrow> sema_try_down (lock_sema l) k;
     if success then do { k \<leftarrow> lock_taken l k; Some (True, k) } else Some (False, k) }"

text \<open>\<open>lock_release\<close> up to the call of \<open>sema_up\<close>.\<close>

definition lock_release :: "ptr \<Rightarrow> kernel \<Rightarrow> kernel option" where
  "lock_release l k = do {
     kassert (l \<noteq> NULL);
     held \<leftarrow> lock_held_by_current_thread l k;
     kassert held;
     p \<leftarrow> thread_current k;
     (_, h) \<leftarrow> list_remove (kheap k) (lock_elem l);
     push_cont p [Sema_up (lock_sema l)] (k\<lparr>kheap := h, lock_holder := (lock_holder k)(l := NULL)\<rparr>) }"

section \<open>Condition variables\<close>

definition cond_init :: "ptr \<Rightarrow> kernel \<Rightarrow> kernel option" where
  "cond_init c k = do {
     kassert (c \<noteq> NULL);
     Some (k\<lparr>cond_waiters := (cond_waiters k)(c := [])\<rparr>) }"

text \<open>\<open>w\<close> is the address of the semaphore of \<open>waiter\<close>, on the stack of the calling thread.\<close>

definition cond_wait :: "ptr \<Rightarrow> ptr \<Rightarrow> ptr \<Rightarrow> kernel \<Rightarrow> kernel option" where
  "cond_wait c l w k = do {
     kassert (c \<noteq> NULL);
     kassert (l \<noteq> NULL);
     kassert (\<not> intr_context k);
     held \<leftarrow> lock_held_by_current_thread l k;
     kassert held;
     k \<leftarrow> sema_init w 0 k;
     p \<leftarrow> thread_current k;
     push_cont p [Lock_release l, Sema_down w, Lock_acquire l]
       (k\<lparr>cond_waiters := (cond_waiters k)(c := cond_waiters k c @ [w])\<rparr>) }"

definition cond_signal :: "ptr \<Rightarrow> ptr \<Rightarrow> kernel \<Rightarrow> kernel option" where
  "cond_signal c l k = do {
     kassert (c \<noteq> NULL);
     kassert (l \<noteq> NULL);
     kassert (\<not> intr_context k);
     held \<leftarrow> lock_held_by_current_thread l k;
     kassert held;
     (case cond_waiters k c of
        [] \<Rightarrow> Some k
      | w # ws \<Rightarrow> do {
          p \<leftarrow> thread_current k;
          push_cont p [Sema_up w] (k\<lparr>cond_waiters := (cond_waiters k)(c := ws)\<rparr>) }) }"

text \<open>The loop test of \<open>cond_broadcast\<close>: signal one waiter, then test again.\<close>

definition cond_broadcast :: "ptr \<Rightarrow> ptr \<Rightarrow> kernel \<Rightarrow> kernel option" where
  "cond_broadcast c l k = do {
     kassert (c \<noteq> NULL);
     kassert (l \<noteq> NULL);
     (if cond_waiters k c = [] then Some k
      else do {
        p \<leftarrow> thread_current k;
        k \<leftarrow> push_cont p [Broadcast c l] k;
        cond_signal c l k }) }"

section \<open>The timer\<close>

definition compare_thread :: "kernel \<Rightarrow> ptr \<Rightarrow> ptr \<Rightarrow> bool" where
  "compare_thread k p q \<longleftrightarrow> (case (threads k p, threads k q) of
     (Some t1, Some t2) \<Rightarrow> blocked_ticks t1 < blocked_ticks t2 | _ \<Rightarrow> False)"

definition timer_ticks :: "kernel \<Rightarrow> int" where
  "timer_ticks k = ticks k"

definition timer_elapsed :: "int \<Rightarrow> kernel \<Rightarrow> int" where
  "timer_elapsed thn k = s64 (timer_ticks k - thn)"

text \<open>
  \<open>timer_sleep\<close> up to \<open>intr_disable\<close>: the running thread is entered in the list of sleepers
  (\<open>list_insert_ordered\<close>) while interrupts are still on.  The search and the insertion are one step here.
\<close>

definition timer_sleep :: "int \<Rightarrow> kernel \<Rightarrow> kernel option" where
  "timer_sleep n k = do {
     let start = timer_ticks k;
     kassert (intr_get_level k);
     p \<leftarrow> thread_current k;
     k \<leftarrow> set_thread_blocked_ticks p (s64 (n + start)) k;
     push_cont p [Block_now]
       (k\<lparr>blocked_list := takeWhile (\<lambda>q. \<not> compare_thread k p q) (blocked_list k) @
          p # dropWhile (\<lambda>q. \<not> compare_thread k p q) (blocked_list k)\<rparr>) }"

definition block_now :: "kernel \<Rightarrow> kernel option" where
  "block_now k = do {
     let (old_level, k) = intr_disable k;
     p \<leftarrow> thread_current k;
     k \<leftarrow> push_cont p [Set_level old_level] k;
     thread_block k }"

definition timer_interrupt :: "kernel \<Rightarrow> kernel option" where
  "timer_interrupt k = do {
     let k = k\<lparr>ticks := s64 (ticks k + 1)\<rparr>;
     k \<leftarrow> unblock_thread_with_enough_ticks (ticks k) k;
     p \<leftarrow> thread_current k;
     k \<leftarrow> upd_thread p (\<lambda>t. if t_status t = THREAD_RUNNING then t\<lparr>recent_cpu := fp_add_fp_and_int (recent_cpu t) 1\<rparr> else t) k;
     thread_tick k }"

text \<open>
  An external interrupt taken while interrupts are on: the processor turns them off, the handler
  runs, and the thread yields on return when the handler asked for it; the return turns
  interrupts on again.
\<close>

definition external_interrupt :: "(kernel \<Rightarrow> kernel option) \<Rightarrow> kernel \<Rightarrow> kernel option" where
  "external_interrupt handler k = do {
     p \<leftarrow> thread_current k;
     k \<leftarrow> push_cont p [Intr_return] (k\<lparr>intr_on := False\<rparr>);
     kassert (\<not> intr_get_level k);
     kassert (\<not> intr_context k);
     k \<leftarrow> handler (k\<lparr>in_external_intr := True, yield_on_return := False\<rparr>);
     kassert (\<not> intr_get_level k);
     kassert (intr_context k);
     let k = k\<lparr>in_external_intr := False\<rparr>;
     if yield_on_return k then thread_yield k else Some k }"

section \<open>Running a segment\<close>

fun run_seg :: "seg \<Rightarrow> kernel \<Rightarrow> kernel option" where
  "run_seg (Set_level b) k = intr_set_level b k"
| "run_seg (Down_test s b) k = sema_down_test s b k"
| "run_seg (Sema_down s) k = sema_down s k"
| "run_seg (Sema_up s) k = sema_up s k"
| "run_seg (Lock_acquire l) k = lock_acquire l k"
| "run_seg (Lock_taken l) k = lock_taken l k"
| "run_seg (Lock_release l) k = lock_release l k"
| "run_seg (Broadcast c l) k = cond_broadcast c l k"
| "run_seg Block_now k = block_now k"
| "run_seg (Take_tid p) k = take_tid p k"
| "run_seg (Create_rest p f) k = create_rest p f k"
| "run_seg (Thread_start f) k = kernel_thread f k"
| "run_seg Intr_return k = Some (k\<lparr>intr_on := True\<rparr>)"

text \<open>The running thread does the next thing on its stack.\<close>

definition resume :: "kernel \<Rightarrow> kernel option" where
  "resume k = do {
     t \<leftarrow> threads k (cur k);
     (case t_cont t of
        [] \<Rightarrow> None
      | s # ss \<Rightarrow> do { k \<leftarrow> upd_thread (cur k) (\<lambda>t. t\<lparr>t_cont := ss\<rparr>) k; run_seg s k }) }"

text \<open>
  \<open>thread_init\<close>: the boot code becomes the first thread.  The tid lock is free, so the segments
  of \<open>allocate_tid\<close> run one after the other.
\<close>

fun resume_n :: "nat \<Rightarrow> kernel \<Rightarrow> kernel option" where
  "resume_n 0 k = Some k"
| "resume_n (Suc n) k = do { k \<leftarrow> resume k; resume_n n k }"

definition thread_init :: "ptr \<Rightarrow> ptr \<Rightarrow> kernel \<Rightarrow> kernel option" where
  "thread_init tid_lock p k = do {
     kassert (\<not> intr_get_level k);
     k \<leftarrow> lock_init tid_lock k;
     let k = k\<lparr>ready_list := [], all_list := [], blocked_list := [], initial_thread := p, cur := p\<rparr>;
     k \<leftarrow> init_thread p [0x6d, 0x61, 0x69, 0x6e] PRI_DEFAULT k;
     k \<leftarrow> upd_thread p (\<lambda>t. t\<lparr>t_status := THREAD_RUNNING\<rparr>) k;
     k \<leftarrow> push_cont p [Lock_acquire tid_lock, Take_tid p, Lock_release tid_lock] k;
     resume_n 6 k }"

text \<open>
  \<open>thread_start\<close>: what follows \<open>thread_create\<close> is on the stack below its segments.  The parameters
  are the tid lock, the local semaphore, the page for the idle thread and the address of \<open>idle\<close>.
\<close>

definition thread_start :: "ptr \<Rightarrow> ptr \<Rightarrow> ptr \<Rightarrow> ptr \<Rightarrow> kernel \<Rightarrow> kernel option" where
  "thread_start tid_lock idle_started page idle k = do {
     k \<leftarrow> sema_init idle_started 0 k;
     p \<leftarrow> thread_current k;
     k \<leftarrow> push_cont p [Set_level True, Sema_down idle_started] k;
     (_, k) \<leftarrow> thread_create tid_lock page [0x69, 0x64, 0x6c, 0x65] PRI_MIN idle k;
     Some k }"

text \<open>The start of the idle thread, and one turn of its loop.\<close>

definition idle_start :: "ptr \<Rightarrow> kernel \<Rightarrow> kernel option" where
  "idle_start idle_started k = do {
     p \<leftarrow> thread_current k;
     push_cont p [Sema_up idle_started] (k\<lparr>idle_thread := p\<rparr>) }"

definition idle_turn :: "kernel \<Rightarrow> kernel option" where
  "idle_turn k = do {
     let (_, k) = intr_disable k;
     p \<leftarrow> thread_current k;
     k \<leftarrow> push_cont p [Intr_return] k;
     thread_block k }"

end
