(* ===== verification/Ksched_Spec.thy ===== *)
theory Ksched_Spec
  imports Ksynch
begin

text \<open>
  An abstract scheduler, and its invariant.  The abstract state has, for every live thread, its
  status and what is left on its stack, and the lists a thread can be on: the ready list, the
  list of sleepers, the waiters of each semaphore, and the threads whose creation a stack still
  has to finish.  In \<open>threads/thread.h\<close> one link element serves the ready list, the sleepers and
  the semaphores, so the invariant has to say that a thread is at one place at most.
\<close>

section \<open>The abstract state\<close>

record sview =
  v_stat :: "ptr \<Rightarrow> thread_status option"
  v_cont :: "ptr \<Rightarrow> seg list"
  v_cur :: ptr
  v_idle :: ptr
  v_ready :: "ptr list"
  v_asleep :: "ptr list"
  v_wait :: "ptr \<Rightarrow> ptr list"
  v_val :: "ptr \<Rightarrow> u32"
  v_holder :: "ptr \<Rightarrow> ptr"
  v_cond :: "ptr \<Rightarrow> ptr list"
  v_all :: "ptr list"
  v_on :: bool
  v_ext :: bool

datatype place = Ready | Asleep | Waiting ptr | Nascent ptr

fun created :: "seg list \<Rightarrow> ptr list" where
  "created [] = []"
| "created (Create_rest p f # ss) = p # created ss"
| "created (_ # ss) = created ss"

fun places :: "sview \<Rightarrow> place \<Rightarrow> ptr list" where
  "places v Ready = v_ready v"
| "places v Asleep = v_asleep v"
| "places v (Waiting s) = v_wait v s"
| "places v (Nascent q) = created (v_cont v q)"

text \<open>Every thread is at one place at most, and once.\<close>

definition placed :: "(place \<Rightarrow> ptr list) \<Rightarrow> bool" where
  "placed f \<longleftrightarrow> (\<forall>l. distinct (f l)) \<and> (\<forall>l l' p. p \<in> set (f l) \<longrightarrow> p \<in> set (f l') \<longrightarrow> l = l')"

text \<open>The segments an idle thread can have on its stack.\<close>

fun idle_seg :: "seg \<Rightarrow> bool" where
  "idle_seg (Set_level b) = True"
| "idle_seg (Sema_up s) = True"
| "idle_seg (Thread_start f) = True"
| "idle_seg Intr_return = True"
| "idle_seg _ = False"

text \<open>
  The running thread is in the list of sleepers already, on its way to \<open>intr_disable\<close> in \<open>timer_sleep\<close>;
  the timer interrupt may have come in between.
\<close>

definition sleeping_window :: "sview \<Rightarrow> ptr \<Rightarrow> bool" where
  "sleeping_window v p \<longleftrightarrow> p = v_cur v \<and> (v_cont v p = [Block_now] \<or> v_cont v p = [Intr_return, Block_now])"

definition core_inv :: "sview \<Rightarrow> bool" where
  "core_inv v \<longleftrightarrow>
     placed (places v)
     \<and> (\<forall>p. p \<in> set (v_ready v) \<longleftrightarrow> v_stat v p = Some THREAD_READY \<and> p \<noteq> v_idle v)
     \<and> (\<forall>l p. l \<noteq> Ready \<longrightarrow> p \<in> set (places v l) \<longrightarrow>
          v_stat v p = Some THREAD_BLOCKED \<or> l = Asleep \<and> sleeping_window v p)
     \<and> (\<forall>p. v_stat v p = Some THREAD_BLOCKED \<longrightarrow> p = v_idle v \<or> (\<exists>l. p \<in> set (places v l)))
     \<and> v_stat v (v_idle v) \<noteq> None \<and> (\<forall>l. v_idle v \<notin> set (places v l))
     \<and> (\<forall>s \<in> set (v_cont v (v_idle v)). idle_seg s)
     \<and> (\<forall>p. Block_now \<in> set (v_cont v p) \<longrightarrow>
          sleeping_window v p \<and> p \<in> set (v_asleep v) \<and> v_stat v p = Some THREAD_RUNNING)
     \<and> (\<forall>p. v_stat v p = None \<longrightarrow> v_cont v p = [])
     \<and> (\<forall>p. v_stat v p = Some THREAD_RUNNING \<longrightarrow> p = v_cur v)
     \<and> (\<forall>p. v_stat v p \<noteq> Some THREAD_DYING)"

definition sched_inv :: "sview \<Rightarrow> bool" where
  "sched_inv v \<longleftrightarrow> core_inv v \<and> v_stat v (v_cur v) = Some THREAD_RUNNING"

text \<open>Between the change of the running thread's status and the switch, no thread runs.\<close>

definition switch_inv :: "sview \<Rightarrow> bool" where
  "switch_inv v \<longleftrightarrow> core_inv v \<and> v_stat v (v_cur v) \<noteq> Some THREAD_RUNNING"

section \<open>The abstract operations\<close>

definition a_next :: "sview \<Rightarrow> ptr" where
  "a_next v = (if v_ready v = [] then v_idle v else hd (v_ready v))"

definition a_schedule :: "sview \<Rightarrow> sview" where
  "a_schedule v = v\<lparr>v_stat := (v_stat v)(a_next v \<mapsto> THREAD_RUNNING), v_cur := a_next v, v_ready := tl (v_ready v)\<rparr>"

definition a_push :: "ptr \<Rightarrow> seg list \<Rightarrow> sview \<Rightarrow> sview" where
  "a_push p ss v = v\<lparr>v_cont := (v_cont v)(p := ss @ v_cont v p)\<rparr>"

definition a_pop :: "sview \<Rightarrow> sview" where
  "a_pop v = v\<lparr>v_cont := (v_cont v)(v_cur v := tl (v_cont v (v_cur v)))\<rparr>"

definition a_set :: "ptr \<Rightarrow> thread_status \<Rightarrow> sview \<Rightarrow> sview" where
  "a_set p st v = v\<lparr>v_stat := (v_stat v)(p \<mapsto> st)\<rparr>"

definition a_unblock :: "ptr \<Rightarrow> sview \<Rightarrow> sview" where
  "a_unblock p v = a_set p THREAD_READY (v\<lparr>v_ready := v_ready v @ [p]\<rparr>)"

definition a_block :: "sview \<Rightarrow> sview" where
  "a_block v = a_schedule (a_set (v_cur v) THREAD_BLOCKED v)"

definition a_wait :: "ptr \<Rightarrow> sview \<Rightarrow> sview" where
  "a_wait s v = v\<lparr>v_wait := (v_wait v)(s := v_wait v s @ [v_cur v])\<rparr>"

definition a_yield :: "bool \<Rightarrow> sview \<Rightarrow> sview" where
  "a_yield b v = a_schedule (a_push (v_cur v) [Set_level b] (a_set (v_cur v) THREAD_READY
     (if v_cur v = v_idle v then v else v\<lparr>v_ready := v_ready v @ [v_cur v]\<rparr>)))"

definition a_exit :: "sview \<Rightarrow> sview" where
  "a_exit v = a_schedule (v\<lparr>v_stat := (v_stat v)(v_cur v := None), v_cont := (v_cont v)(v_cur v := [])\<rparr>)"

lemmas a_defs = a_next_def a_schedule_def a_push_def a_pop_def a_set_def a_unblock_def a_block_def
  a_wait_def a_yield_def a_exit_def

section \<open>The operations keep the invariant\<close>

lemma created_append [simp]: "created (xs @ ys) = created xs @ created ys"
  by (induction xs rule: created.induct) auto

lemma created_tl: "set (created (tl ss)) \<subseteq> set (created ss)"
  by (induction ss rule: created.induct) auto

lemma distinct_created_tl: "distinct (created ss) \<Longrightarrow> distinct (created (tl ss))"
  by (induction ss rule: created.induct) auto

lemma all_place: "(\<forall>l. P l) \<longleftrightarrow> P Ready \<and> P Asleep \<and> (\<forall>s. P (Waiting s)) \<and> (\<forall>q. P (Nascent q))"
  by (metis place.exhaust)

lemma places_simps [simp]:
  "places (v\<lparr>v_stat := x\<rparr>) = places v"
  "places (v\<lparr>v_cur := y\<rparr>) = places v"
  "places (v\<lparr>v_val := z\<rparr>) = places v"
  "places (v\<lparr>v_holder := h\<rparr>) = places v"
  "places (v\<lparr>v_cond := ww\<rparr>) = places v"
  "places (v\<lparr>v_all := r\<rparr>) = places v"
  "places (v\<lparr>v_on := b\<rparr>) = places v"
  "places (v\<lparr>v_ext := b\<rparr>) = places v"
  "places (v\<lparr>v_ready := r\<rparr>) = (places v)(Ready := r)"
  "places (v\<lparr>v_asleep := r\<rparr>) = (places v)(Asleep := r)"
  "places (v\<lparr>v_wait := (v_wait v)(s := r)\<rparr>) = (places v)(Waiting s := r)"
  "places (v\<lparr>v_cont := (v_cont v)(q := ss)\<rparr>) = (places v)(Nascent q := created ss)"
  by (auto simp: fun_eq_iff all_place)

lemma placed_add:
  assumes "placed f" "\<And>l. p \<notin> set (f l)" "distinct xs" "set xs = insert p (set (f l))"
  shows "placed (f(l := xs))"
  using assms unfolding placed_def by (auto split: if_splits)

lemma placed_sub:
  assumes "placed f" "distinct xs" "set xs \<subseteq> set (f l)"
  shows "placed (f(l := xs))"
  using assms unfolding placed_def by (auto split: if_splits)

lemma placed_unique: "placed f \<Longrightarrow> p \<in> set (f l) \<Longrightarrow> p \<in> set (f l') \<Longrightarrow> l = l'"
  by (auto simp: placed_def)

lemma core_inv_rules:
  assumes "core_inv v"
  shows core_placed: "placed (places v)"
    and core_ready: "p \<in> set (v_ready v) \<longleftrightarrow> v_stat v p = Some THREAD_READY \<and> p \<noteq> v_idle v"
    and core_queued: "l \<noteq> Ready \<Longrightarrow> p \<in> set (places v l) \<Longrightarrow>
          v_stat v p = Some THREAD_BLOCKED \<or> l = Asleep \<and> sleeping_window v p"
    and core_blocked: "v_stat v p = Some THREAD_BLOCKED \<Longrightarrow> p \<noteq> v_idle v \<Longrightarrow> \<exists>l. p \<in> set (places v l)"
    and core_idle: "v_stat v (v_idle v) \<noteq> None" "v_idle v \<notin> set (places v l)"
      "s \<in> set (v_cont v (v_idle v)) \<Longrightarrow> idle_seg s"
    and core_window: "Block_now \<in> set (v_cont v p) \<Longrightarrow>
          sleeping_window v p \<and> p \<in> set (v_asleep v) \<and> v_stat v p = Some THREAD_RUNNING"
    and core_none: "v_stat v p = None \<Longrightarrow> v_cont v p = []"
    and core_running: "v_stat v p = Some THREAD_RUNNING \<Longrightarrow> p = v_cur v"
    and core_dying: "v_stat v p \<noteq> Some THREAD_DYING"
  using assms unfolding core_inv_def by blast+

lemma core_invI:
  assumes "placed (places v)"
    and "\<And>p. p \<in> set (v_ready v) \<longleftrightarrow> v_stat v p = Some THREAD_READY \<and> p \<noteq> v_idle v"
    and "\<And>l p. l \<noteq> Ready \<Longrightarrow> p \<in> set (places v l) \<Longrightarrow>
          v_stat v p = Some THREAD_BLOCKED \<or> l = Asleep \<and> sleeping_window v p"
    and "\<And>p. v_stat v p = Some THREAD_BLOCKED \<Longrightarrow> p \<noteq> v_idle v \<Longrightarrow> \<exists>l. p \<in> set (places v l)"
    and "v_stat v (v_idle v) \<noteq> None" "\<And>l. v_idle v \<notin> set (places v l)"
      "\<And>s. s \<in> set (v_cont v (v_idle v)) \<Longrightarrow> idle_seg s"
    and "\<And>p. Block_now \<in> set (v_cont v p) \<Longrightarrow>
          sleeping_window v p \<and> p \<in> set (v_asleep v) \<and> v_stat v p = Some THREAD_RUNNING"
    and "\<And>p. v_stat v p = None \<Longrightarrow> v_cont v p = []"
    and "\<And>p. v_stat v p = Some THREAD_RUNNING \<Longrightarrow> p = v_cur v"
    and "\<And>p. v_stat v p \<noteq> Some THREAD_DYING"
  shows "core_inv v"
  using assms unfolding core_inv_def by blast

lemma core_inv_frame [simp]:
  "core_inv (v\<lparr>v_val := z\<rparr>) = core_inv v" "core_inv (v\<lparr>v_holder := h\<rparr>) = core_inv v"
  "core_inv (v\<lparr>v_all := r\<rparr>) = core_inv v" "core_inv (v\<lparr>v_on := b\<rparr>) = core_inv v"
  "core_inv (v\<lparr>v_ext := b\<rparr>) = core_inv v" "core_inv (v\<lparr>v_cond := ww\<rparr>) = core_inv v"
  by (simp_all add: core_inv_def sleeping_window_def)

text \<open>Threads that run, and the idle thread, are on no list.\<close>

lemma cur_not_placed:
  assumes "core_inv v" "v_stat v (v_cur v) = Some THREAD_RUNNING" "Block_now \<notin> set (v_cont v (v_cur v))"
  shows "v_cur v \<notin> set (places v l)"
proof (cases "l = Ready")
  case True
  then show ?thesis using core_ready [OF assms(1)] assms(2) by simp
next
  case False
  then show ?thesis using core_queued [OF assms(1) False, of "v_cur v"] assms(2,3)
    by (auto simp: sleeping_window_def)
qed

lemma schedule_inv:
  assumes "switch_inv v"
  shows "sched_inv (a_schedule v)"
proof -
  have c: "core_inv v" and nr: "v_stat v (v_cur v) \<noteq> Some THREAD_RUNNING"
    using assms by (auto simp: switch_inv_def)
  have nor: "v_stat v p \<noteq> Some THREAD_RUNNING" for p using core_running [OF c, of p] nr by auto
  have nob: "Block_now \<notin> set (v_cont v p)" for p using core_window [OF c, of p] nor [of p] by auto
  have n: "a_next v \<in> set (v_ready v) \<or> a_next v = v_idle v" by (simp add: a_next_def)
  have d: "distinct (v_ready v)" using core_placed [OF c] unfolding placed_def by (metis places.simps(1))
  then have r: "set (tl (v_ready v)) = set (v_ready v) - {a_next v}"
    using core_idle(2) [OF c, of Ready] by (cases "v_ready v") (auto simp: a_next_def)
  have q: "l \<noteq> Ready \<Longrightarrow> p \<in> set (places v l) \<Longrightarrow> v_stat v p = Some THREAD_BLOCKED \<and> p \<noteq> a_next v" for l p
    using core_queued [OF c, of l p] nob [of p] n core_idle(2) [OF c, of l] core_ready [OF c, of p]
    by (auto simp: sleeping_window_def)
  have "core_inv (a_schedule v)"
  proof (rule core_invI, goal_cases)
    case 1 show ?case using placed_sub [OF core_placed [OF c], of "tl (v_ready v)" Ready] d r
      by (auto simp: a_schedule_def distinct_tl)
  next
    case (2 p) show ?case using core_ready [OF c, of p] r by (auto simp: a_schedule_def)
  next
    case (3 l p) then show ?case using q [of l p] by (simp add: a_schedule_def)
  next
    case (4 p)
    then have p: "p \<noteq> a_next v" "v_stat v p = Some THREAD_BLOCKED" "p \<noteq> v_idle v"
      by (auto simp: a_schedule_def split: if_splits)
    then obtain l where "p \<in> set (places v l)" using core_blocked [OF c] by blast
    moreover from this have "l \<noteq> Ready" using core_ready [OF c, of p] p by auto
    ultimately show ?case by (intro exI [of _ l]) (simp add: a_schedule_def)
  next
    case 5 show ?case using core_idle(1) [OF c] by (auto simp: a_schedule_def)
  next
    case (6 l) show ?case using core_idle(2) [OF c, of l] core_idle(2) [OF c, of Ready] r
      by (cases "l = Ready") (auto simp: a_schedule_def)
  next
    case (7 s) then show ?case using core_idle(3) [OF c] by (simp add: a_schedule_def)
  next
    case (8 p) then show ?case using nob [of p] by (simp add: a_schedule_def)
  next
    case (9 p) then show ?case using core_none [OF c, of p] by (simp add: a_schedule_def split: if_splits)
  next
    case (10 p) then show ?case using nor [of p] by (simp add: a_schedule_def split: if_splits)
  next
    case (11 p) then show ?case using core_dying [OF c, of p] by (simp add: a_schedule_def)
  qed
  then show ?thesis by (simp add: sched_inv_def a_schedule_def)
qed

text \<open>One thread \<open>a\<close> changes its status and its place.\<close>

lemma core_change:
  assumes c: "core_inv v" and pl: "placed (places v')"
    and others: "\<And>l p. p \<noteq> a \<Longrightarrow> p \<in> set (places v' l) \<longleftrightarrow> p \<in> set (places v l)"
      "\<And>p. p \<noteq> a \<Longrightarrow> v_stat v' p = v_stat v p" "\<And>p. p \<noteq> a \<Longrightarrow> Block_now \<notin> set (v_cont v p)"
    and same: "v_idle v' = v_idle v" "v_cur v' = v_cur v" "a \<noteq> v_idle v"
    and cont: "\<And>p. Block_now \<notin> set (v_cont v' p)" "v_cont v' (v_idle v) = v_cont v (v_idle v)"
      "\<And>p. v_stat v' p = None \<Longrightarrow> v_cont v' p = []"
    and a: "a \<in> set (v_ready v') \<longleftrightarrow> v_stat v' a = Some THREAD_READY"
      "(\<exists>l. l \<noteq> Ready \<and> a \<in> set (places v' l)) \<longleftrightarrow> v_stat v' a = Some THREAD_BLOCKED"
      "v_stat v' a = Some THREAD_RUNNING \<Longrightarrow> a = v_cur v" "v_stat v' a \<noteq> Some THREAD_DYING"
  shows "core_inv v'"
proof (rule core_invI, goal_cases)
  case 1 show ?case by (rule pl)
next
  case (2 p) show ?case using core_ready [OF c, of p] others(1) [of p Ready] others(2) [of p] a(1) same(1,3)
    by (cases "p = a") auto
next
  case (3 l p) then show ?case
    using core_queued [OF c, of l p] others(1) [of p l] others(2,3) [of p] a(2) same(2)
    by (cases "p = a") (auto simp: sleeping_window_def)
next
  case (4 p) then show ?case using core_blocked [OF c, of p] others(1,2) [of p] a(2) same(1)
    by (cases "p = a") auto
next
  case 5 show ?case using core_idle(1) [OF c] others(2) same by simp
next
  case (6 l) show ?case using core_idle(2) [OF c, of l] others(1) [of "v_idle v" l] same by auto
next
  case (7 s) then show ?case using core_idle(3) [OF c] cont(2) same(1) by simp
next
  case (8 p) then show ?case using cont(1) [of p] by simp
next
  case (9 p) then show ?case using cont(3) by simp
next
  case (10 p) then show ?case using core_running [OF c, of p] others(2) [of p] a(3) same(2) by (cases "p = a") auto
next
  case (11 p) then show ?case using core_dying [OF c, of p] others(2) [of p] a(4) by (cases "p = a") auto
qed

text \<open>Only the stack of the running thread changes.\<close>

lemma core_cont:
  assumes c: "core_inv v" and no: "Block_now \<notin> set (v_cont v (v_cur v))" "Block_now \<notin> set ss"
    and ss: "created ss = created (v_cont v (v_cur v))" "v_cur v = v_idle v \<Longrightarrow> (\<forall>s \<in> set ss. idle_seg s)"
      "v_stat v (v_cur v) \<noteq> None"
  shows "core_inv (v\<lparr>v_cont := (v_cont v)(v_cur v := ss)\<rparr>)" (is "core_inv ?v")
proof -
  have nob: "Block_now \<notin> set (v_cont v p)" for p
    using core_window [OF c, of p] no by (auto simp: sleeping_window_def)
  have pl: "places ?v = places v" using ss(1) by (simp add: fun_eq_iff)
  show ?thesis
  proof (rule core_invI, goal_cases)
    case 1 show ?case using core_placed [OF c] pl by simp
  next
    case (2 p) show ?case using core_ready [OF c, of p] by simp
  next
    case (3 l p) then show ?case using core_queued [OF c, of l p] nob [of p] unfolding pl
      by (auto simp: sleeping_window_def)
  next
    case (4 p) then show ?case using core_blocked [OF c, of p] unfolding pl by simp
  next
    case 5 show ?case using core_idle(1) [OF c] by simp
  next
    case (6 l) show ?case using core_idle(2) [OF c, of l] unfolding pl by simp
  next
    case (7 s) then show ?case using core_idle(3) [OF c, of s] ss(2) by (auto split: if_splits)
  next
    case (8 p) then show ?case using nob [of p] no by (auto split: if_splits)
  next
    case (9 p) then show ?case using core_none [OF c, of p] ss(3) by auto
  next
    case (10 p) then show ?case using core_running [OF c, of p] by simp
  next
    case (11 p) then show ?case using core_dying [OF c, of p] by simp
  qed
qed

text \<open>An interrupt in the window comes and goes.\<close>

lemma core_cont_window:
  assumes c: "core_inv v" and b: "Block_now \<in> set (v_cont v (v_cur v))" and ss: "ss = [Block_now] \<or> ss = [Intr_return, Block_now]"
  shows "core_inv (v\<lparr>v_cont := (v_cont v)(v_cur v := ss)\<rparr>)" (is "core_inv ?v")
proof -
  have w: "v_cont v (v_cur v) = [Block_now] \<or> v_cont v (v_cur v) = [Intr_return, Block_now]" "v_cur v \<in> set (v_asleep v)"
    "v_stat v (v_cur v) = Some THREAD_RUNNING" using core_window [OF c b] by (auto simp: sleeping_window_def)
  have ni: "v_cur v \<noteq> v_idle v" using core_idle(2) [OF c, of Asleep] w(2) by auto
  have pl: "places ?v = places v" using w(1) ss by (auto simp: fun_eq_iff all_place)
  show ?thesis
  proof (rule core_invI, goal_cases)
    case 1 show ?case using core_placed [OF c] pl by simp
  next
    case (2 p) show ?case using core_ready [OF c, of p] by simp
  next
    case (3 l p) then show ?case using core_queued [OF c, of l p] ss unfolding pl by (auto simp: sleeping_window_def)
  next
    case (4 p) then show ?case using core_blocked [OF c, of p] unfolding pl by simp
  next
    case 5 show ?case using core_idle(1) [OF c] by simp
  next
    case (6 l) show ?case using core_idle(2) [OF c, of l] unfolding pl by simp
  next
    case (7 s) then show ?case using core_idle(3) [OF c, of s] ni by (auto split: if_splits)
  next
    case (8 p) then show ?case using core_window [OF c, of p] w ss by (auto simp: sleeping_window_def split: if_splits)
  next
    case (9 p) then show ?case using core_none [OF c, of p] w(3) by auto
  next
    case (10 p) then show ?case using core_running [OF c, of p] by simp
  next
    case (11 p) then show ?case using core_dying [OF c, of p] by simp
  qed
qed

text \<open>Only the status of the idle thread changes.\<close>

lemma core_idle_status:
  assumes c: "core_inv v" and no: "\<And>p. Block_now \<notin> set (v_cont v p)" and st: "st \<noteq> THREAD_RUNNING" "st \<noteq> THREAD_DYING"
  shows "core_inv (a_set (v_idle v) st v)"
proof (rule core_invI, goal_cases)
  case 1 show ?case using core_placed [OF c] by (simp add: a_set_def)
next
  case (2 p) show ?case using core_ready [OF c, of p] by (auto simp: a_set_def)
next
  case (3 l p) then show ?case using core_queued [OF c, of l p] no [of p] core_idle(2) [OF c, of l]
    by (auto simp: a_set_def sleeping_window_def)
next
  case (4 p) then show ?case using core_blocked [OF c, of p] by (simp add: a_set_def)
next
  case 5 show ?case by (simp add: a_set_def)
next
  case (6 l) show ?case using core_idle(2) [OF c, of l] by (simp add: a_set_def)
next
  case (7 s) then show ?case using core_idle(3) [OF c] by (simp add: a_set_def)
next
  case (8 p) then show ?case using no [of p] by (simp add: a_set_def)
next
  case (9 p) then show ?case using core_none [OF c, of p] by (simp add: a_set_def split: if_splits)
next
  case (10 p) then show ?case using core_running [OF c, of p] st by (simp add: a_set_def split: if_splits)
next
  case (11 p) then show ?case using core_dying [OF c, of p] st by (simp add: a_set_def)
qed

end
