(* ===== verification/Ksched_Inv.thy ===== *)
theory Ksched_Inv
  imports Ksched_Spec
begin

text \<open>
  Every operation of the abstract scheduler keeps the invariant.  The operations come in the
  combinations in which the code runs them without interruption.
\<close>

lemma sched_core: "sched_inv v \<Longrightarrow> core_inv v"
  and sched_running: "sched_inv v \<Longrightarrow> v_stat v (v_cur v) = Some THREAD_RUNNING"
  by (auto simp: sched_inv_def)

lemma sched_inv_frame [simp]:
  "sched_inv (v\<lparr>v_val := z\<rparr>) = sched_inv v" "sched_inv (v\<lparr>v_holder := h\<rparr>) = sched_inv v"
  "sched_inv (v\<lparr>v_all := r\<rparr>) = sched_inv v" "sched_inv (v\<lparr>v_on := b\<rparr>) = sched_inv v"
  "sched_inv (v\<lparr>v_ext := b\<rparr>) = sched_inv v" "sched_inv (v\<lparr>v_cond := ww\<rparr>) = sched_inv v"
  by (simp_all add: sched_inv_def)

lemma no_window:
  assumes "sched_inv v" "Block_now \<notin> set (v_cont v (v_cur v))"
  shows "Block_now \<notin> set (v_cont v p)"
  using core_window [OF sched_core [OF assms(1)], of p] assms(2) by (auto simp: sleeping_window_def)

lemma placed_live:
  assumes "sched_inv v" "p \<in> set (places v l)"
  shows "v_stat v p \<noteq> None"
proof (cases "l = Ready")
  case True
  then show ?thesis using core_ready [OF sched_core [OF assms(1)], of p] assms(2) by simp
next
  case False
  then show ?thesis using core_queued [OF sched_core [OF assms(1)] False assms(2)] sched_running [OF assms(1)]
    by (auto simp: sleeping_window_def)
qed

lemma cur_nowhere:
  assumes "sched_inv v" "Block_now \<notin> set (v_cont v (v_cur v))"
  shows "v_cur v \<notin> set (places v l)"
  using cur_not_placed [OF sched_core [OF assms(1)] sched_running [OF assms(1)] assms(2)] .

lemma place_distinct: "sched_inv v \<Longrightarrow> distinct (places v l)"
  using core_placed [OF sched_core] by (simp add: placed_def)

lemma place_unique: "sched_inv v \<Longrightarrow> p \<in> set (places v l) \<Longrightarrow> p \<in> set (places v l') \<Longrightarrow> l = l'"
  using placed_unique [OF core_placed [OF sched_core]] by blast

lemma queued_blocked:
  assumes "sched_inv v" "Block_now \<notin> set (v_cont v (v_cur v))" "l \<noteq> Ready" "p \<in> set (places v l)"
  shows "v_stat v p = Some THREAD_BLOCKED"
  using core_queued [OF sched_core [OF assms(1)] assms(3,4)] assms(2) by (auto simp: sleeping_window_def)

section \<open>The stack of the running thread\<close>

lemma pop_inv:
  assumes "sched_inv v" "v_cont v (v_cur v) = s # ss" "s \<noteq> Block_now" "created [s] = []"
  shows "sched_inv (a_pop v)"
proof (cases "Block_now \<in> set (s # ss)")
  case True
  then have "Block_now \<in> set (v_cont v (v_cur v))" "ss = [Block_now]"
    using core_window [OF sched_core [OF assms(1)], of "v_cur v"] assms(2,3) by (auto simp: sleeping_window_def)
  then show ?thesis
    using core_cont_window [OF sched_core [OF assms(1)], of ss] sched_running [OF assms(1)] assms(2)
    by (auto simp: a_pop_def sched_inv_def)
next
  case False
  moreover have "created ss = created (s # ss)" using assms(4) created_append [of "[s]" ss] by simp
  moreover have "\<forall>x \<in> set ss. idle_seg x" if "v_cur v = v_idle v"
    using core_idle(3) [OF sched_core [OF assms(1)]] assms(2) that by (metis list.set_intros(2))
  ultimately show ?thesis
    using core_cont [OF sched_core [OF assms(1)], of ss] sched_running [OF assms(1)] assms(2)
    by (auto simp: a_pop_def sched_inv_def)
qed

lemma push_window:
  assumes "sched_inv v" "v_cont v (v_cur v) = [Block_now]"
  shows "sched_inv (a_push (v_cur v) [Intr_return] v)"
  using core_cont_window [OF sched_core [OF assms(1)], of "[Intr_return, Block_now]"] sched_running [OF assms(1)] assms(2)
  by (auto simp: a_push_def sched_inv_def)

lemma push_inv:
  assumes "sched_inv v" "Block_now \<notin> set (v_cont v (v_cur v))" "Block_now \<notin> set ss" "created ss = []"
    "v_cur v = v_idle v \<Longrightarrow> \<forall>s\<in>set ss. idle_seg s"
  shows "sched_inv (a_push (v_cur v) ss v)"
  using core_cont [OF sched_core [OF assms(1)], of "ss @ v_cont v (v_cur v)"] sched_running [OF assms(1)] assms
    core_idle(3) [OF sched_core [OF assms(1)]]
  by (auto simp: a_push_def sched_inv_def)

section \<open>Blocking\<close>

lemma wait_switch:
  assumes v: "sched_inv v" "Block_now \<notin> set (v_cont v (v_cur v))" "v_cur v \<noteq> v_idle v"
  shows "switch_inv (a_set (v_cur v) THREAD_BLOCKED (a_push (v_cur v) [Down_test s b] (a_wait s v)))" (is "switch_inv ?v")
proof -
  have p: "places ?v = (places v)(Waiting s := v_wait v s @ [v_cur v])"
    by (auto simp: a_defs fun_eq_iff all_place)
  have "core_inv ?v"
  proof (rule core_change [OF sched_core [OF v(1)], where a = "v_cur v"], goal_cases)
    case 1 show ?case unfolding p
      using cur_nowhere [OF v(1,2)] place_distinct [OF v(1), of "Waiting s"] cur_nowhere [OF v(1,2), of "Waiting s"]
      by (intro placed_add [OF core_placed [OF sched_core [OF v(1)]]]) auto
  next
    case (4 p) show ?case by (rule no_window [OF v(1,2)])
  next
    case (8 p) show ?case using no_window [OF v(1,2)] by (simp add: a_defs)
  next
    case (10 p) then show ?case using core_none [OF sched_core [OF v(1)], of p] by (simp add: a_defs split: if_splits)
  next
    case 11 show ?case using cur_nowhere [OF v(1,2), of Ready] by (simp add: a_defs)
  next
    case 12 show ?case unfolding p by (auto simp: a_defs intro: exI [of _ "Waiting s"])
  qed (use v p in \<open>auto simp: a_defs\<close>)
  then show ?thesis by (simp add: switch_inv_def a_defs)
qed

lemma sleep_switch:
  assumes v: "sched_inv v" "v_cont v (v_cur v) = [Block_now]"
  shows "switch_inv (a_set (v_cur v) THREAD_BLOCKED (a_push (v_cur v) [Set_level b] (a_pop v)))" (is "switch_inv ?v")
proof -
  have w: "v_cur v \<in> set (v_asleep v)" using core_window [OF sched_core [OF v(1)], of "v_cur v"] v(2) by simp
  have ni: "v_cur v \<noteq> v_idle v" using core_idle(2) [OF sched_core [OF v(1)], of Asleep] w by auto
  have p: "places ?v = places v" using v(2) by (auto simp: a_defs fun_eq_iff all_place)
  have "core_inv ?v"
  proof (rule core_change [OF sched_core [OF v(1)], where a = "v_cur v"], goal_cases)
    case 1 show ?case unfolding p by (rule core_placed [OF sched_core [OF v(1)]])
  next
    case (4 p) then show ?case using core_window [OF sched_core [OF v(1)], of p] by (auto simp: sleeping_window_def)
  next
    case (8 p) show ?case using core_window [OF sched_core [OF v(1)], of p] v(2) by (auto simp: a_defs sleeping_window_def)
  next
    case (10 p) then show ?case using core_none [OF sched_core [OF v(1)], of p] by (simp add: a_defs split: if_splits)
  next
    case 11 show ?case using place_unique [OF v(1), of "v_cur v" Ready Asleep] w by (auto simp: a_defs)
  next
    case 12 show ?case unfolding p using w by (auto simp: a_defs intro: exI [of _ "Asleep"])
  qed (use v p ni in \<open>auto simp: a_defs\<close>)
  then show ?thesis by (simp add: switch_inv_def a_defs)
qed

text \<open>The idle thread's stack holds what its loop leaves there.\<close>

lemma idle_switch:
  assumes v: "sched_inv v" "v_cur v = v_idle v"
  shows "switch_inv (a_set (v_cur v) THREAD_BLOCKED (a_push (v_cur v) [Intr_return] v))"
proof -
  let ?w = "a_push (v_cur v) [Intr_return] v"
  have nb: "Block_now \<notin> set (v_cont v (v_cur v))"
    using core_idle(3) [OF sched_core [OF v(1)], of Block_now] v(2) by auto
  have w: "sched_inv ?w" using v nb by (intro push_inv) auto
  have "core_inv (a_set (v_idle ?w) THREAD_BLOCKED ?w)"
    by (rule core_idle_status [OF sched_core [OF w]]) (use no_window [OF w] nb in \<open>auto simp: a_defs\<close>)
  then show ?thesis using v(2) by (simp add: switch_inv_def a_defs)
qed

lemma block_inv: "switch_inv (a_set (v_cur v) THREAD_BLOCKED v) \<Longrightarrow> sched_inv (a_block v)"
  unfolding a_block_def by (rule schedule_inv)

section \<open>Waking\<close>

lemma unblock_inv:
  assumes v: "sched_inv v" "Block_now \<notin> set (v_cont v (v_cur v))"
    and p: "p \<in> set (places v l)" "l \<noteq> Ready"
    and w: "places w = (places v)(l := xs)" "set xs = set (places v l) - {p}" "distinct xs"
      "v_stat w = v_stat v" "v_cur w = v_cur v" "v_idle w = v_idle v"
      "\<And>q. Block_now \<notin> set (v_cont w q)" "v_cont w (v_idle v) = v_cont v (v_idle v)"
      "\<And>q. v_stat v q = None \<Longrightarrow> v_cont w q = []"
  shows "sched_inv (a_unblock p w)"
proof -
  have st: "v_stat v p = Some THREAD_BLOCKED" by (rule queued_blocked [OF v p(2,1)])
  have r: "v_ready w = v_ready v" using fun_cong [OF w(1), of Ready] p(2) by simp
  have nr: "p \<notin> set (v_ready v)" using place_unique [OF v(1) p(1), of Ready] p(2) by auto
  have pl: "places (a_unblock p w) = (places v)(l := xs, Ready := v_ready v @ [p])"
    using w(1) r by (simp add: a_unblock_def a_set_def)
  have pw: "placed ((places v)(l := xs))"
    using w(2,3) by (intro placed_sub core_placed [OF sched_core [OF v(1)]]) auto
  have out: "p \<notin> set (((places v)(l := xs)) l')" for l'
    using place_unique [OF v(1) p(1), of l'] w(2) by (auto split: if_splits)
  have "core_inv (a_unblock p w)"
  proof (rule core_change [OF sched_core [OF v(1)], where a = p], goal_cases)
    case 1 show ?case unfolding pl
      by (rule placed_add [OF pw, where p = p]) (use out nr p(2) place_distinct [OF v(1), of Ready] in \<open>auto\<close>)
  next
    case (2 l' q) then show ?case unfolding pl using w(2) by auto
  next
    case (4 q) show ?case by (rule no_window [OF v])
  next
    case 7 show ?case using core_idle(2) [OF sched_core [OF v(1)]] p(1) by auto
  next
    case (8 q) show ?case using w(7) by (simp add: a_unblock_def a_set_def)
  next
    case (10 q) then show ?case using w(4,9) by (simp add: a_unblock_def a_set_def split: if_splits)
  next
    case 12 show ?case unfolding pl using out by (auto simp: a_unblock_def a_set_def split: if_splits)
  qed (use w st v in \<open>auto simp: a_unblock_def a_set_def\<close>)
  then show ?thesis using st sched_running [OF v(1)] w(4,5) by (auto simp: sched_inv_def a_unblock_def a_set_def)
qed

lemma sema_wake_inv:
  assumes v: "sched_inv v" "Block_now \<notin> set (v_cont v (v_cur v))" and p: "v_wait v s = p # ps"
  shows "sched_inv (a_unblock p (v\<lparr>v_wait := (v_wait v)(s := ps)\<rparr>))"
  using place_distinct [OF v(1), of "Waiting s"] p no_window [OF v] core_none [OF sched_core [OF v(1)]]
  by (intro unblock_inv [OF v, where l = "Waiting s" and xs = ps]) auto

text \<open>Waking a sleeper, also while the running thread is in the list of sleepers itself.\<close>

lemma sleeper_wake_inv:
  assumes v: "sched_inv v" and p: "v_asleep v = p # ps" "p \<noteq> v_cur v"
  shows "sched_inv (a_unblock p (v\<lparr>v_asleep := ps\<rparr>))" (is "sched_inv ?v")
proof -
  note c = sched_core [OF v]
  have st: "v_stat v p = Some THREAD_BLOCKED" using core_queued [OF c, of Asleep p] p by (auto simp: sleeping_window_def)
  have d: "distinct (p # ps)" using place_distinct [OF v, of Asleep] p(1) by simp
  have pl: "places ?v = (places v)(Asleep := ps, Ready := v_ready v @ [p])" by (simp add: a_unblock_def a_set_def)
  have only: "p \<in> set (places v l) \<Longrightarrow> l = Asleep" for l using place_unique [OF v, of p l Asleep] p(1) by simp
  have pi: "p \<noteq> v_idle v" using core_idle(2) [OF c, of Asleep] p(1) by auto
  have "core_inv ?v"
  proof (rule core_invI, goal_cases)
    case 1
    have "placed ((places v)(Asleep := ps))" using d p(1) by (intro placed_sub core_placed [OF c]) auto
    then show ?case unfolding pl
      by (rule placed_add [where p = p]) (use only only [of Ready] d place_distinct [OF v, of Ready] in \<open>auto split: if_splits\<close>)
  next
    case (2 q) show ?case using core_ready [OF c, of q] pi by (auto simp: a_unblock_def a_set_def)
  next
    case (3 l q)
    then have "q \<in> set (places v l)" "q \<noteq> p" unfolding pl using p(1) d only [of l] by (auto split: if_splits)
    then show ?case using core_queued [OF c 3(1), of q] by (auto simp: a_unblock_def a_set_def sleeping_window_def)
  next
    case (4 q)
    then have q: "v_stat v q = Some THREAD_BLOCKED" "q \<noteq> p" by (auto simp: a_unblock_def a_set_def split: if_splits)
    then obtain l where "q \<in> set (places v l)" using core_blocked [OF c] 4(2) by (auto simp: a_unblock_def a_set_def)
    then show ?case unfolding pl using q(2) p(1) by (intro exI [of _ l]) auto
  next
    case 5 show ?case using core_idle(1) [OF c] by (simp add: a_unblock_def a_set_def)
  next
    case (6 l) show ?case using core_idle(2) [OF c, of l] core_idle(2) [OF c, of Asleep] pi p(1) unfolding pl
      by (auto simp: a_unblock_def a_set_def)
  next
    case (7 s) then show ?case using core_idle(3) [OF c] by (simp add: a_unblock_def a_set_def)
  next
    case (8 q) then show ?case using core_window [OF c, of q] p by (auto simp: a_unblock_def a_set_def sleeping_window_def)
  next
    case (9 q) then show ?case using core_none [OF c, of q] by (simp add: a_unblock_def a_set_def split: if_splits)
  next
    case (10 q) then show ?case using core_running [OF c, of q] by (simp add: a_unblock_def a_set_def split: if_splits)
  next
    case (11 q) then show ?case using core_dying [OF c, of q] by (simp add: a_unblock_def a_set_def)
  qed
  then show ?thesis using sched_running [OF v] p(2) by (auto simp: sched_inv_def a_unblock_def a_set_def)
qed

section \<open>Creation\<close>

lemma create_inv:
  assumes v: "sched_inv v" "v_cont v (v_cur v) = []" "v_cur v \<noteq> v_idle v" and p: "v_stat v p = None"
    and ss: "Block_now \<notin> set ss" "created ss = [p]"
  shows "sched_inv (a_push (v_cur v) ss (a_set p THREAD_BLOCKED v))" (is "sched_inv ?v")
proof -
  have pc: "p \<noteq> v_cur v" using p sched_running [OF v(1)] by auto
  have pl: "places ?v = (places v)(Nascent (v_cur v) := [p])"
    using ss v(2) by (auto simp: a_defs fun_eq_iff all_place)
  have out: "p \<notin> set (places v l)" for l using placed_live [OF v(1), of p l] p by auto
  have nb: "Block_now \<notin> set (v_cont v (v_cur v))" using v(2) by simp
  have "core_inv ?v"
  proof (rule core_change [OF sched_core [OF v(1)], where a = p], goal_cases)
    case 1 show ?case unfolding pl
      by (rule placed_add [OF core_placed [OF sched_core [OF v(1)]], where p = p]) (use out v(2) in auto)
  next
    case (2 l' q) then show ?case unfolding pl using v(2) by auto
  next
    case (4 q) show ?case by (rule no_window [OF v(1) nb])
  next
    case 7 show ?case using core_idle(1) [OF sched_core [OF v(1)]] p by auto
  next
    case (8 q) show ?case using no_window [OF v(1) nb] ss(1) by (simp add: a_defs)
  next
    case 9 show ?case using v(3) by (simp add: a_defs)
  next
    case (10 q) then show ?case using core_none [OF sched_core [OF v(1)], of q] sched_running [OF v(1)]
      by (auto simp: a_defs split: if_splits)
  next
    case 11 show ?case using out [of Ready] by (simp add: a_defs)
  next
    case 12 show ?case unfolding pl by (auto simp: a_defs intro: exI [of _ "Nascent (v_cur v)"])
  qed (auto simp: a_defs)
  then show ?thesis using pc sched_running [OF v(1)] by (auto simp: sched_inv_def a_defs)
qed

lemma start_inv:
  assumes v: "sched_inv v" "v_cont v (v_cur v) = Create_rest p f # ss"
  shows "sched_inv (a_unblock p (a_push p [Thread_start g] (a_pop v)))"
proof -
  have nb: "Block_now \<notin> set (v_cont v (v_cur v))"
    using core_window [OF sched_core [OF v(1)], of "v_cur v"] v(2) by (auto simp: sleeping_window_def)
  have p: "p \<in> set (places v (Nascent (v_cur v)))" using v(2) by simp
  have st: "v_stat v p = Some THREAD_BLOCKED" by (rule queued_blocked [OF v(1) nb _ p]) simp
  have pc: "p \<noteq> v_cur v" "p \<noteq> v_idle v"
    using st sched_running [OF v(1)] core_idle(2) [OF sched_core [OF v(1)], of "Nascent (v_cur v)"] p by auto
  have ci: "v_cur v \<noteq> v_idle v" using core_idle(3) [OF sched_core [OF v(1)], of "Create_rest p f"] v(2) by auto
  show ?thesis
    using place_distinct [OF v(1), of "Nascent (v_cur v)"] v(2) no_window [OF v(1) nb] nb pc st ci
      core_none [OF sched_core [OF v(1)]] sched_running [OF v(1)]
    by (intro unblock_inv [OF v(1) nb p, where xs = "created ss"])
      (auto simp: a_defs fun_eq_iff all_place)
qed

section \<open>Sleeping, yielding and exiting\<close>

lemma sleep_inv:
  assumes v: "sched_inv v" "v_cont v (v_cur v) = []" "v_cur v \<noteq> v_idle v" and xs: "v_asleep v = xs @ ys"
  shows "sched_inv (a_push (v_cur v) [Block_now] (v\<lparr>v_asleep := xs @ v_cur v # ys\<rparr>))" (is "sched_inv ?v")
proof -
  note c = sched_core [OF v(1)]
  have nb: "Block_now \<notin> set (v_cont v (v_cur v))" using v(2) by simp
  have pl: "places ?v = (places v)(Asleep := xs @ v_cur v # ys)"
    using v(2) by (auto simp: a_defs fun_eq_iff all_place)
  have q: "p \<in> set (places v l) \<Longrightarrow> l \<noteq> Ready \<Longrightarrow> v_stat v p = Some THREAD_BLOCKED" for p l
    using queued_blocked [OF v(1) nb] by blast
  have "core_inv ?v"
  proof (rule core_invI, goal_cases)
    case 1 show ?case unfolding pl
      by (rule placed_add [OF core_placed [OF c], where p = "v_cur v"])
        (use cur_nowhere [OF v(1) nb] cur_nowhere [OF v(1) nb, of Asleep] place_distinct [OF v(1), of Asleep] xs in auto)
  next
    case (2 p) show ?case using core_ready [OF c, of p] by (simp add: a_defs)
  next
    case (3 l p) then show ?case unfolding pl using q [of p l] xs v(2)
      by (auto simp: a_defs sleeping_window_def split: if_splits)
  next
    case (4 p)
    then obtain l where "p \<in> set (places v l)" using core_blocked [OF c, of p] by (auto simp: a_defs)
    then show ?case unfolding pl using xs by (intro exI [of _ l]) auto
  next
    case (6 l) show ?case unfolding pl using core_idle(2) [OF c, of l] core_idle(2) [OF c, of Asleep] v(3) xs
      by (auto simp: a_defs)
  next
    case (7 s) then show ?case using core_idle(3) [OF c] v(3) by (simp add: a_defs)
  next
    case (8 p) then show ?case using no_window [OF v(1) nb, of p] v(2) sched_running [OF v(1)]
      by (auto simp: a_defs sleeping_window_def split: if_splits)
  next
    case (9 p) then show ?case using core_none [OF c, of p] sched_running [OF v(1)] by (auto simp: a_defs)
  next
    case (10 p) then show ?case using core_running [OF c, of p] by (simp add: a_defs)
  next
    case (11 p) then show ?case using core_dying [OF c, of p] by (simp add: a_defs)
  qed (use core_idle(1) [OF c] in \<open>simp add: a_defs\<close>)
  then show ?thesis using sched_running [OF v(1)] by (simp add: sched_inv_def a_defs)
qed

lemma a_push_set: "a_push p ss (a_set q st v) = a_set q st (a_push p ss v)"
  by (cases v) (simp add: a_push_def a_set_def)

lemma yield_switch:
  assumes v: "sched_inv v" "Block_now \<notin> set (v_cont v (v_cur v))"
  shows "switch_inv (a_push (v_cur v) [Set_level b] (a_set (v_cur v) THREAD_READY
     (if v_cur v = v_idle v then v else v\<lparr>v_ready := v_ready v @ [v_cur v]\<rparr>)))"
proof (cases "v_cur v = v_idle v")
  case True
  let ?w = "a_push (v_cur v) [Set_level b] v"
  have w: "sched_inv ?w" using v by (intro push_inv) auto
  have "core_inv (a_set (v_idle ?w) THREAD_READY ?w)"
    by (rule core_idle_status [OF sched_core [OF w]]) (use no_window [OF w] v(2) in \<open>auto simp: a_defs\<close>)
  then show ?thesis
    using True by (auto simp: switch_inv_def a_push_set) (simp_all add: a_push_def a_set_def)
next
  case False
  let ?v = "a_push (v_cur v) [Set_level b] (a_set (v_cur v) THREAD_READY (v\<lparr>v_ready := v_ready v @ [v_cur v]\<rparr>))"
  have p: "places ?v = (places v)(Ready := v_ready v @ [v_cur v])" by (auto simp: a_defs fun_eq_iff all_place)
  have "core_inv ?v"
  proof (rule core_change [OF sched_core [OF v(1)], where a = "v_cur v"], goal_cases)
    case 1 show ?case unfolding p
      using cur_nowhere [OF v(1,2)] place_distinct [OF v(1), of Ready] cur_nowhere [OF v(1,2), of Ready]
      by (intro placed_add [OF core_placed [OF sched_core [OF v(1)]]]) auto
  next
    case (4 p) show ?case by (rule no_window [OF v(1,2)])
  next
    case (8 p) show ?case using no_window [OF v(1,2)] by (simp add: a_defs)
  next
    case (10 p) then show ?case using core_none [OF sched_core [OF v(1)], of p] by (simp add: a_defs split: if_splits)
  next
    case 12 show ?case unfolding p using cur_nowhere [OF v(1,2)] by (auto simp: a_defs)
  qed (use v p False in \<open>auto simp: a_defs\<close>)
  then show ?thesis using False by (simp add: switch_inv_def a_defs)
qed

lemma yield_inv:
  assumes "sched_inv v" "Block_now \<notin> set (v_cont v (v_cur v))"
  shows "sched_inv (a_yield b v)"
  unfolding a_yield_def by (rule schedule_inv [OF yield_switch [OF assms]])

lemma exit_switch:
  assumes v: "sched_inv v" "v_cont v (v_cur v) = []" "v_cur v \<noteq> v_idle v"
  shows "switch_inv (v\<lparr>v_stat := (v_stat v)(v_cur v := None), v_cont := (v_cont v)(v_cur v := [])\<rparr>)" (is "switch_inv ?v")
proof -
  have nb: "Block_now \<notin> set (v_cont v (v_cur v))" using v(2) by simp
  have p: "places ?v = places v" using v(2) by (auto simp: fun_eq_iff all_place)
  have "core_inv ?v"
  proof (rule core_change [OF sched_core [OF v(1)], where a = "v_cur v"], goal_cases)
    case 1 show ?case unfolding p by (rule core_placed [OF sched_core [OF v(1)]])
  next
    case (2 l q) show ?case unfolding p ..
  next
    case (4 p) show ?case by (rule no_window [OF v(1) nb])
  next
    case (8 p) show ?case using no_window [OF v(1) nb] by simp
  next
    case (10 p) then show ?case using core_none [OF sched_core [OF v(1)], of p] by (simp split: if_splits)
  next
    case 11 show ?case using cur_nowhere [OF v(1) nb, of Ready] by simp
  next
    case 12 show ?case unfolding p using cur_nowhere [OF v(1) nb] by auto
  qed (use v in auto)
  then show ?thesis by (simp add: switch_inv_def)
qed

lemma exit_inv:
  "sched_inv v \<Longrightarrow> v_cont v (v_cur v) = [] \<Longrightarrow> v_cur v \<noteq> v_idle v \<Longrightarrow> sched_inv (a_exit v)"
  unfolding a_exit_def by (rule schedule_inv [OF exit_switch])

end
