(* ===== verification/Ksched_Refine.thy ===== *)
theory Ksched_Refine
  imports Ksched_Inv
begin

text \<open>
  The operations of \<open>thread.c\<close> and \<open>synch.c\<close> refine the abstract scheduler: under the invariant
  each of them returns, and the abstract state of the result is what the abstract operation gives.
\<close>

section \<open>The abstraction\<close>

definition live :: "kernel \<Rightarrow> ptr \<Rightarrow> thread option" where
  "live k p = (case threads k p of
     Some t \<Rightarrow> if t_status t = THREAD_DYING then None else Some t | None \<Rightarrow> None)"

definition sched_view :: "kernel \<Rightarrow> sview" where
  "sched_view k = \<lparr>v_stat = \<lambda>p. map_option t_status (live k p),
     v_cont = \<lambda>p. case live k p of Some t \<Rightarrow> t_cont t | None \<Rightarrow> [],
     v_cur = cur k, v_idle = idle_thread k, v_ready = ready_list k, v_asleep = blocked_list k,
     v_wait = \<lambda>s. waiters (semas k s), v_val = \<lambda>s. sema_value (semas k s),
     v_holder = lock_holder k, v_cond = cond_waiters k, v_all = all_list k, v_on = intr_on k, v_ext = in_external_intr k\<rparr>"

definition threads_wf :: "kernel \<Rightarrow> bool" where
  "threads_wf k \<longleftrightarrow> (\<forall>p t. threads k p = Some t \<longrightarrow> p \<noteq> NULL \<and> t_magic t = THREAD_MAGIC)"

text \<open>The operation returns, in the abstract state \<open>v\<close>.\<close>

definition runs :: "kernel option \<Rightarrow> sview \<Rightarrow> bool" where
  "runs m v \<longleftrightarrow> (\<exists>k'. m = Some k' \<and> threads_wf k' \<and> sched_view k' = v)"

lemma runs_Some [simp]: "runs (Some k) v \<longleftrightarrow> threads_wf k \<and> sched_view k = v"
  by (simp add: runs_def)

lemma runs_bind: "runs m v \<Longrightarrow> (\<And>k. threads_wf k \<Longrightarrow> sched_view k = v \<Longrightarrow> runs (f k) w) \<Longrightarrow> runs (Option.bind m f) w"
  by (auto simp: runs_def)

lemma view_sel [simp]:
  "v_cur (sched_view k) = cur k" "v_idle (sched_view k) = idle_thread k" "v_ready (sched_view k) = ready_list k"
  "v_asleep (sched_view k) = blocked_list k" "v_wait (sched_view k) s = waiters (semas k s)"
  "v_val (sched_view k) s = sema_value (semas k s)" "v_holder (sched_view k) = lock_holder k"
  "v_cond (sched_view k) = cond_waiters k"
  "v_all (sched_view k) = all_list k" "v_on (sched_view k) = intr_on k" "v_ext (sched_view k) = in_external_intr k"
  by (simp_all add: sched_view_def)

lemma view_stat: "v_stat (sched_view k) p = Some st \<longleftrightarrow> (\<exists>t. threads k p = Some t \<and> t_status t = st) \<and> st \<noteq> THREAD_DYING"
  by (auto simp: sched_view_def live_def split: option.splits)

lemma view_stat_None: "v_stat (sched_view k) p = None \<longleftrightarrow> (\<forall>t. threads k p = Some t \<longrightarrow> t_status t = THREAD_DYING)"
  by (auto simp: sched_view_def live_def split: option.splits)

lemma view_cont: "threads k p = Some t \<Longrightarrow> t_status t \<noteq> THREAD_DYING \<Longrightarrow> v_cont (sched_view k) p = t_cont t"
  by (simp add: sched_view_def live_def)

lemma view_frame [simp]:
  "sched_view (k\<lparr>kheap := h\<rparr>) = sched_view k"
  "sched_view (k\<lparr>ticks := n\<rparr>) = sched_view k" "sched_view (k\<lparr>thread_ticks := tt\<rparr>) = sched_view k"
  "sched_view (k\<lparr>idle_ticks := n\<rparr>) = sched_view k" "sched_view (k\<lparr>kernel_ticks := n\<rparr>) = sched_view k"
  "sched_view (k\<lparr>user_ticks := n\<rparr>) = sched_view k" "sched_view (k\<lparr>next_tid := n\<rparr>) = sched_view k"
  "sched_view (k\<lparr>yield_on_return := b\<rparr>) = sched_view k" "sched_view (k\<lparr>cr3 := p\<rparr>) = sched_view k"
  "sched_view (k\<lparr>tss_esp0 := p\<rparr>) = sched_view k"
  by (simp_all add: sched_view_def live_def)

lemma view_fields [simp]:
  "sched_view (k\<lparr>intr_on := b\<rparr>) = (sched_view k)\<lparr>v_on := b\<rparr>"
  "sched_view (k\<lparr>in_external_intr := b\<rparr>) = (sched_view k)\<lparr>v_ext := b\<rparr>"
  "sched_view (k\<lparr>ready_list := r\<rparr>) = (sched_view k)\<lparr>v_ready := r\<rparr>"
  "sched_view (k\<lparr>blocked_list := r\<rparr>) = (sched_view k)\<lparr>v_asleep := r\<rparr>"
  "sched_view (k\<lparr>all_list := r\<rparr>) = (sched_view k)\<lparr>v_all := r\<rparr>"
  "sched_view (k\<lparr>cur := p\<rparr>) = (sched_view k)\<lparr>v_cur := p\<rparr>"
  "sched_view (k\<lparr>lock_holder := h\<rparr>) = (sched_view k)\<lparr>v_holder := h\<rparr>"
  "sched_view (k\<lparr>cond_waiters := ww\<rparr>) = (sched_view k)\<lparr>v_cond := ww\<rparr>"
  by (simp_all add: sched_view_def live_def)

lemma view_sema: "sched_view (upd_sema s f k) = (sched_view k)\<lparr>v_wait := (v_wait (sched_view k))(s := waiters (f (semas k s))),
    v_val := (v_val (sched_view k))(s := sema_value (f (semas k s)))\<rparr>"
  by (auto simp: sched_view_def live_def upd_sema_def)

lemma upd_sema_sel [simp]: "in_external_intr (upd_sema s f k) = in_external_intr k" "intr_on (upd_sema s f k) = intr_on k"
  "cur (upd_sema s f k) = cur k" "idle_thread (upd_sema s f k) = idle_thread k"
  by (simp_all add: upd_sema_def)

lemma view_threads: "t_status t \<noteq> THREAD_DYING \<Longrightarrow>
  sched_view (k\<lparr>threads := (threads k)(p \<mapsto> t)\<rparr>) = (sched_view k)\<lparr>v_stat := (v_stat (sched_view k))(p \<mapsto> t_status t),
    v_cont := (v_cont (sched_view k))(p := t_cont t)\<rparr>"
  by (auto simp: sched_view_def live_def)

lemma wf_frame [simp]:
  "threads_wf (k\<lparr>kheap := h\<rparr>) = threads_wf k" "threads_wf (k\<lparr>cond_waiters := c\<rparr>) = threads_wf k"
  "threads_wf (k\<lparr>ticks := n\<rparr>) = threads_wf k" "threads_wf (k\<lparr>thread_ticks := tt\<rparr>) = threads_wf k"
  "threads_wf (k\<lparr>idle_ticks := n\<rparr>) = threads_wf k" "threads_wf (k\<lparr>kernel_ticks := n\<rparr>) = threads_wf k"
  "threads_wf (k\<lparr>user_ticks := n\<rparr>) = threads_wf k" "threads_wf (k\<lparr>next_tid := n\<rparr>) = threads_wf k"
  "threads_wf (k\<lparr>yield_on_return := b\<rparr>) = threads_wf k" "threads_wf (k\<lparr>cr3 := p\<rparr>) = threads_wf k"
  "threads_wf (k\<lparr>tss_esp0 := p\<rparr>) = threads_wf k" "threads_wf (k\<lparr>intr_on := b\<rparr>) = threads_wf k"
  "threads_wf (k\<lparr>in_external_intr := b\<rparr>) = threads_wf k" "threads_wf (k\<lparr>ready_list := r\<rparr>) = threads_wf k"
  "threads_wf (k\<lparr>blocked_list := r\<rparr>) = threads_wf k" "threads_wf (k\<lparr>all_list := r\<rparr>) = threads_wf k"
  "threads_wf (k\<lparr>cur := p\<rparr>) = threads_wf k" "threads_wf (k\<lparr>lock_holder := hh\<rparr>) = threads_wf k"
  "threads_wf (upd_sema s f k) = threads_wf k"
  by (simp_all add: threads_wf_def upd_sema_def)

lemma wf_threads: "threads_wf k \<Longrightarrow> p \<noteq> NULL \<Longrightarrow> t_magic t = THREAD_MAGIC \<Longrightarrow> threads_wf (k\<lparr>threads := (threads k)(p \<mapsto> t)\<rparr>)"
  by (simp add: threads_wf_def)

lemma wf_remove: "threads_wf k \<Longrightarrow> threads_wf (k\<lparr>threads := (threads k)(p := None)\<rparr>)"
  by (simp add: threads_wf_def)

section \<open>Scheduling\<close>

lemma current_ok:
  assumes "threads_wf k" "v_stat (sched_view k) (cur k) = Some THREAD_RUNNING"
  obtains t where "threads k (cur k) = Some t" "t_status t = THREAD_RUNNING" "thread_current k = Some (cur k)"
    "t_magic t = THREAD_MAGIC" "cur k \<noteq> NULL" "v_cont (sched_view k) (cur k) = t_cont t"
proof -
  obtain t where t: "threads k (cur k) = Some t" "t_status t = THREAD_RUNNING"
    using assms(2) unfolding view_stat by blast
  have m: "t_magic t = THREAD_MAGIC" "cur k \<noteq> NULL" using assms(1) t(1) by (auto simp: threads_wf_def)
  have "thread_current k = Some (cur k)" using t m by (simp add: thread_current_def running_thread_def is_thread_def)
  then show ?thesis using that t m view_cont [OF t(1)] by simp
qed

lemma push_runs:
  assumes "threads_wf k" "v_stat (sched_view k) p = Some st"
  shows "runs (push_cont p ss k) (a_push p ss (sched_view k))"
proof -
  obtain t where t: "threads k p = Some t" "t_status t = st" "st \<noteq> THREAD_DYING" using assms(2) unfolding view_stat by blast
  have "p \<noteq> NULL" "t_magic t = THREAD_MAGIC" using assms(1) t(1) by (auto simp: threads_wf_def)
  then show ?thesis using t assms(1) view_cont [OF t(1)] assms(2)
    by (auto simp: push_cont_def upd_thread_def a_push_def wf_threads view_threads fun_upd_idem)
qed

lemma set_status_runs:
  assumes "threads_wf k" "v_stat (sched_view k) p = Some st0" "st \<noteq> THREAD_DYING"
  shows "runs (upd_thread p (\<lambda>t. t\<lparr>t_status := st\<rparr>) k) (a_set p st (sched_view k))"
proof -
  obtain t where t: "threads k p = Some t" "t_status t = st0" "st0 \<noteq> THREAD_DYING" using assms(2) unfolding view_stat by blast
  have "p \<noteq> NULL" "t_magic t = THREAD_MAGIC" using assms(1) t(1) by (auto simp: threads_wf_def)
  then show ?thesis using t assms view_cont [OF t(1)]
    by (auto simp: upd_thread_def a_set_def wf_threads view_threads fun_upd_idem)
qed

text \<open>Fields of a thread the scheduler does not look at.\<close>

lemma set_field_runs:
  assumes "threads_wf k" "v_stat (sched_view k) p = Some st"
    "\<And>t. t_status (f t) = t_status t" "\<And>t. t_cont (f t) = t_cont t" "\<And>t. t_magic (f t) = t_magic t"
  shows "runs (upd_thread p f k) (sched_view k)"
proof -
  obtain t where t: "threads k p = Some t" "t_status t = st" "st \<noteq> THREAD_DYING" using assms(2) unfolding view_stat by blast
  have "p \<noteq> NULL" "t_magic t = THREAD_MAGIC" using assms(1) t(1) by (auto simp: threads_wf_def)
  then show ?thesis using t assms view_cont [OF t(1)]
    by (auto simp: upd_thread_def wf_threads view_threads fun_upd_idem)
qed

lemma activate_runs:
  assumes "threads_wf k" "v_stat (sched_view k) (cur k) = Some THREAD_RUNNING"
  obtains k' where "process_activate k = Some k'" "threads k' = threads k" "threads_wf k'" "sched_view k' = sched_view k"
    "cur k' = cur k" "initial_thread k' = initial_thread k"
proof -
  obtain t where t: "threads k (cur k) = Some t" "thread_current k = Some (cur k)"
    using current_ok [OF assms] by metis
  have "process_activate k = Some (k\<lparr>cr3 := (if t_pagedir t = NULL then init_page_dir k else t_pagedir t), tss_esp0 := cur k + pgsize\<rparr>)"
    using t by (simp add: process_activate_def tss_update_def pagedir_activate_def thread_current_def running_thread_def is_thread_def)
  then show ?thesis by (rule that) (use assms(1) in simp_all)
qed

lemma view_free: "threads k p = Some t \<Longrightarrow> t_status t = THREAD_DYING \<Longrightarrow>
    sched_view (k\<lparr>threads := (threads k)(p := None)\<rparr>) = sched_view k"
  by (simp add: sched_view_def live_def fun_eq_iff)

lemma tail_runs:
  assumes "threads_wf k" "\<not> intr_on k" "v_stat (sched_view k) (cur k) \<noteq> None" "prev = NULL \<or> prev \<noteq> cur k \<and> threads k prev \<noteq> None"
  shows "runs (thread_schedule_tail prev k) (a_set (cur k) THREAD_RUNNING (sched_view k))"
proof -
  obtain st where "v_stat (sched_view k) (cur k) = Some st" using assms(3) by auto
  then have "runs (upd_thread (cur k) (\<lambda>t. t\<lparr>t_status := THREAD_RUNNING\<rparr>) k) (a_set (cur k) THREAD_RUNNING (sched_view k))"
    using set_status_runs [OF assms(1)] by simp
  then obtain k1 where k1: "upd_thread (cur k) (\<lambda>t. t\<lparr>t_status := THREAD_RUNNING\<rparr>) k = Some k1"
      "threads_wf k1" "sched_view k1 = a_set (cur k) THREAD_RUNNING (sched_view k)"
    by (auto simp: runs_def)
  have c1: "cur k1 = cur k" "threads k1 prev \<noteq> None \<or> prev = NULL" using k1(1) assms(4)
    by (auto simp: upd_thread_def split: option.splits)
  let ?k1 = "k1\<lparr>thread_ticks := 0\<rparr>"
  have r1: "threads_wf ?k1" "v_stat (sched_view ?k1) (cur ?k1) = Some THREAD_RUNNING" using k1 c1 by (simp_all add: a_set_def)
  obtain k2 where k2: "process_activate ?k1 = Some k2" "threads k2 = threads ?k1" "threads_wf k2"
      "sched_view k2 = sched_view ?k1" "cur k2 = cur ?k1"
    using activate_runs [OF r1] by metis
  show ?thesis
  proof (cases "prev = NULL")
    case True
    then show ?thesis using k1 k2 assms(2) by (simp add: thread_schedule_tail_def intr_get_level_def running_thread_def)
  next
    case False
    then obtain t where t: "threads k2 prev = Some t" using c1(2) k2(2) by auto
    show ?thesis using k1 k2 assms(2,4) c1 t False view_free [OF t] wf_remove [OF k2(3), of prev]
      by (auto simp: thread_schedule_tail_def intr_get_level_def running_thread_def)
  qed
qed

lemma schedule_next_runs:
  assumes "threads_wf k" "v_stat (sched_view k) (cur k) \<noteq> Some THREAD_RUNNING" "v_stat (sched_view k) (a_next (sched_view k)) \<noteq> None"
    "\<not> intr_on k" "threads k (cur k) \<noteq> None"
  shows "runs (schedule k) (a_schedule (sched_view k))"
proof -
  let ?v = "sched_view k" and ?n = "a_next (sched_view k)"
  note n = assms(3)
  then obtain tn where tn: "threads k ?n = Some tn" unfolding view_stat_None by blast
  obtain t where t: "threads k (cur k) = Some t" using assms(5) by auto
  have "t_status t \<noteq> THREAD_RUNNING" using assms(2) t unfolding view_stat by auto
  moreover have "is_thread k ?n" using assms(1) tn by (auto simp: threads_wf_def is_thread_def)
  moreover define k1 where "k1 = k\<lparr>ready_list := tl (ready_list k), cur := ?n\<rparr>"
  moreover have "next_thread_to_run k = (?n, k\<lparr>ready_list := tl (ready_list k)\<rparr>)"
    by (simp add: next_thread_to_run_def a_next_def)
  ultimately have s: "schedule k = thread_schedule_tail (if cur k \<noteq> ?n then cur k else NULL) k1"
    using assms(4) t by (simp add: schedule_def running_thread_def intr_get_level_def is_thread_def)
  have "runs (thread_schedule_tail (if cur k \<noteq> ?n then cur k else NULL) k1) (a_set (cur k1) THREAD_RUNNING (sched_view k1))"
    using assms(1,4) n t by (intro tail_runs) (auto simp: k1_def)
  moreover have "a_set (cur k1) THREAD_RUNNING (sched_view k1) = a_schedule (sched_view k)"
    by (simp add: k1_def a_set_def a_schedule_def)
  ultimately show ?thesis unfolding s by simp
qed

lemma schedule_runs:
  assumes "threads_wf k" "switch_inv (sched_view k)" "\<not> intr_on k" "threads k (cur k) \<noteq> None"
  shows "runs (schedule k) (a_schedule (sched_view k))"
proof (rule schedule_next_runs [OF assms(1) _ _ assms(3,4)])
  have c: "core_inv (sched_view k)" using assms(2) by (simp add: switch_inv_def)
  show "v_stat (sched_view k) (a_next (sched_view k)) \<noteq> None"
    using core_ready [OF c, of "a_next (sched_view k)"] core_idle(1) [OF c] by (cases "ready_list k") (auto simp: a_next_def)
qed (use assms(2) in \<open>simp add: switch_inv_def\<close>)

lemma block_runs:
  assumes "threads_wf k" "\<not> intr_on k" "\<not> in_external_intr k" "v_stat (sched_view k) (cur k) = Some THREAD_RUNNING"
    "switch_inv (a_set (cur k) THREAD_BLOCKED (sched_view k))"
  shows "runs (thread_block k) (a_block (sched_view k))"
proof -
  obtain t where t: "thread_current k = Some (cur k)" using current_ok [OF assms(1,4)] by metis
  obtain k1 where k1: "upd_thread (cur k) (\<lambda>t. t\<lparr>t_status := THREAD_BLOCKED\<rparr>) k = Some k1"
      "threads_wf k1" "sched_view k1 = a_set (cur k) THREAD_BLOCKED (sched_view k)"
    using set_status_runs [OF assms(1,4), of THREAD_BLOCKED] by (auto simp: runs_def)
  have "threads k1 (cur k1) \<noteq> None" using k1(1) by (auto simp: upd_thread_def split: option.splits)
  moreover have "intr_on k1 = intr_on k" using k1(1) by (auto simp: upd_thread_def split: option.splits)
  ultimately have "runs (schedule k1) (a_schedule (sched_view k1))"
    using schedule_runs [OF k1(2)] assms(2,5) k1(3) by simp
  then show ?thesis using t assms(2,3) k1 by (simp add: thread_block_def intr_context_def intr_get_level_def a_block_def)
qed

lemma set_level_runs: "threads_wf k \<Longrightarrow> \<not> in_external_intr k \<or> \<not> b \<Longrightarrow> runs (intr_set_level b k) ((sched_view k)\<lparr>v_on := b\<rparr>)"
  by (auto simp: intr_set_level_def intr_enable_def intr_disable_def intr_context_def)

lemma unblock_runs:
  assumes "threads_wf k" "v_stat (sched_view k) p = Some THREAD_BLOCKED" "\<not> in_external_intr k \<or> \<not> intr_on k"
  shows "runs (thread_unblock p k) (a_unblock p (sched_view k))"
proof -
  obtain t where t: "threads k p = Some t" "t_status t = THREAD_BLOCKED" using assms(2) unfolding view_stat by blast
  have th: "is_thread k p" using assms(1) t by (auto simp: threads_wf_def is_thread_def)
  let ?k = "k\<lparr>intr_on := False, ready_list := ready_list k @ [p]\<rparr>"
  obtain k1 where k1: "upd_thread p (\<lambda>t. t\<lparr>t_status := THREAD_READY\<rparr>) ?k = Some k1" "threads_wf k1"
      "sched_view k1 = a_set p THREAD_READY (sched_view ?k)"
    using set_status_runs [of ?k p THREAD_BLOCKED THREAD_READY] assms(1,2) by (auto simp: runs_def)
  have e: "in_external_intr k1 = in_external_intr k" using k1(1) by (auto simp: upd_thread_def split: option.splits)
  have "runs (intr_set_level (intr_on k) k1) ((sched_view k1)\<lparr>v_on := intr_on k\<rparr>)"
    using assms(3) e by (intro set_level_runs k1(2)) auto
  moreover have "(sched_view k1)\<lparr>v_on := intr_on k\<rparr> = a_unblock p (sched_view k)"
    unfolding k1(3) by (simp add: a_unblock_def a_set_def)
  ultimately show ?thesis using th t k1(1) by (simp add: thread_unblock_def intr_disable_def)
qed

lemma yield_runs:
  assumes "threads_wf k" "\<not> in_external_intr k" "sched_inv (sched_view k)"
  shows "runs (thread_yield k) (a_yield (intr_on k) ((sched_view k)\<lparr>v_on := False\<rparr>))"
proof -
  have r: "v_stat (sched_view k) (cur k) = Some THREAD_RUNNING" using sched_running [OF assms(3)] by simp
  obtain t where t: "thread_current k = Some (cur k)" using current_ok [OF assms(1) r] by metis
  define k0 where "k0 = (let k = k\<lparr>intr_on := False\<rparr> in if cur k \<noteq> idle_thread k then k\<lparr>ready_list := ready_list k @ [cur k]\<rparr> else k)"
  have v0: "sched_view k0 = (let v = (sched_view k)\<lparr>v_on := False\<rparr> in
      if v_cur v = v_idle v then v else v\<lparr>v_ready := v_ready v @ [v_cur v]\<rparr>)" "threads_wf k0" "cur k0 = cur k"
    using assms(1) by (simp_all add: k0_def Let_def)
  have r0: "v_stat (sched_view k0) (cur k) = Some THREAD_RUNNING" using r by (auto simp: v0(1) Let_def)
  obtain k1 where k1: "upd_thread (cur k) (\<lambda>t. t\<lparr>t_status := THREAD_READY\<rparr>) k0 = Some k1" "threads_wf k1"
      "sched_view k1 = a_set (cur k) THREAD_READY (sched_view k0)"
    using set_status_runs [OF v0(2) r0, of THREAD_READY] by (auto simp: runs_def)
  obtain k2 where k2: "push_cont (cur k) [Set_level (intr_on k)] k1 = Some k2" "threads_wf k2"
      "sched_view k2 = a_push (cur k) [Set_level (intr_on k)] (sched_view k1)"
    using push_runs [OF k1(2), of "cur k" THREAD_READY] k1(3) by (auto simp: runs_def a_set_def)
  let ?w = "(sched_view k)\<lparr>v_on := False\<rparr>"
  have sv: "sched_view k2 = a_push (v_cur ?w) [Set_level (intr_on k)] (a_set (v_cur ?w) THREAD_READY
      (if v_cur ?w = v_idle ?w then ?w else ?w\<lparr>v_ready := v_ready ?w @ [v_cur ?w]\<rparr>))"
    unfolding k2(3) k1(3) v0(1) Let_def by simp
  have c2: "cur k2 = cur k" "threads k2 (cur k2) \<noteq> None" "\<not> intr_on k2"
    using k2(1) k1(1) v0(3) by (auto simp: push_cont_def upd_thread_def k0_def Let_def split: option.splits if_splits)
  have "v_stat (sched_view k) p \<noteq> None" if "p \<in> set (v_ready (sched_view k))" for p
    using core_ready [OF sched_core [OF assms(3)], of p] that by simp
  then have "v_stat (sched_view k2) (a_next (sched_view k2)) \<noteq> None"
    using core_idle(1) [OF sched_core [OF assms(3)]] unfolding sv
    by (cases "ready_list k") (auto simp: a_next_def a_push_def a_set_def)
  moreover have "v_stat (sched_view k2) (cur k2) \<noteq> Some THREAD_RUNNING" unfolding sv c2(1) by (simp add: a_push_def a_set_def)
  ultimately have "runs (schedule k2) (a_schedule (sched_view k2))" using schedule_next_runs [OF k2(2)] c2(2,3) by simp
  then show ?thesis using t assms(2) k1(1) k2(1) unfolding sv
    by (cases "cur k = idle_thread k") (simp_all add: thread_yield_def intr_context_def intr_disable_def a_yield_def k0_def Let_def)
qed

lemma process_exit_runs:
  assumes "threads_wf k" "v_stat (sched_view k) (cur k) = Some THREAD_RUNNING"
  shows "runs (process_exit k) (sched_view k)"
proof -
  obtain t where t: "thread_current k = Some (cur k)" "threads k (cur k) = Some t" using current_ok [OF assms] by metis
  have "runs (upd_thread (cur k) (\<lambda>t. t\<lparr>t_pagedir := NULL\<rparr>) k) (sched_view k)"
    by (rule set_field_runs [OF assms]) simp_all
  then show ?thesis using t assms(1) by (auto simp: process_exit_def runs_def pagedir_activate_def Let_def)
qed

lemma exit_runs:
  assumes "threads_wf k" "\<not> in_external_intr k" "sched_inv (sched_view k)" "v_cont (sched_view k) (cur k) = []"
    "cur k \<noteq> idle_thread k" "cur k \<in> set (all_list k)"
  shows "runs (thread_exit k) (a_exit ((sched_view k)\<lparr>v_on := False, v_all := remove1 (cur k) (all_list k)\<rparr>))"
proof -
  have r: "v_stat (sched_view k) (cur k) = Some THREAD_RUNNING" using sched_running [OF assms(3)] by simp
  obtain k0 where k0: "process_exit k = Some k0" "threads_wf k0" "sched_view k0 = sched_view k"
    using process_exit_runs [OF assms(1) r] by (auto simp: runs_def)
  have c: "cur k0 = cur k" "all_list k0 = all_list k"
    using arg_cong [OF k0(3), of v_cur] arg_cong [OF k0(3), of v_all] by simp_all
  have r0: "v_stat (sched_view k0) (cur k0) = Some THREAD_RUNNING" using r k0(3) c by simp
  obtain t where t: "thread_current k0 = Some (cur k0)" "threads k0 (cur k0) = Some t" "t_magic t = THREAD_MAGIC" "cur k0 \<noteq> NULL"
    using current_ok [OF k0(2) r0] by metis
  define k1 where "k1 = k0\<lparr>intr_on := False, all_list := remove1 (cur k) (all_list k),
      threads := (threads k0)(cur k \<mapsto> t\<lparr>t_status := THREAD_DYING, t_cont := []\<rparr>)\<rparr>"
  let ?w = "(sched_view k0)\<lparr>v_on := False, v_all := remove1 (cur k) (all_list k)\<rparr>"
  have wf: "threads_wf k1" using k0(2) t c by (simp add: k1_def threads_wf_def)
  have v1: "sched_view k1 = ?w\<lparr>v_stat := (v_stat ?w)(v_cur ?w := None), v_cont := (v_cont ?w)(v_cur ?w := [])\<rparr>"
    by (auto simp: k1_def sched_view_def live_def c)
  have "switch_inv (sched_view k1)" unfolding v1 using assms(3-5) k0(3) by (intro exit_switch) auto
  then have "runs (schedule k1) (a_schedule (sched_view k1))"
    by (intro schedule_runs wf) (simp_all add: k1_def c)
  moreover have "thread_exit k = schedule k1"
    using t assms(2,6) k0(1) c
    by (simp add: thread_exit_def intr_context_def intr_disable_def k1_def upd_thread_def thread_current_def
        running_thread_def is_thread_def)
  ultimately show ?thesis unfolding a_exit_def v1 k0(3) by simp
qed

section \<open>Semaphores\<close>

definition a_down_test :: "ptr \<Rightarrow> bool \<Rightarrow> sview \<Rightarrow> sview" where
  "a_down_test s b v = (if v_val v s = 0 then a_block (a_push (v_cur v) [Down_test s b] (a_wait s v))
     else v\<lparr>v_val := (v_val v)(s := v_val v s - 1), v_on := b\<rparr>)"

definition a_sema_down :: "ptr \<Rightarrow> sview \<Rightarrow> sview" where
  "a_sema_down s v = a_down_test s (v_on v) (v\<lparr>v_on := False\<rparr>)"

definition a_wake :: "ptr \<Rightarrow> sview \<Rightarrow> sview" where
  "a_wake s v = (case v_wait v s of [] \<Rightarrow> v | p # ps \<Rightarrow> a_unblock p (v\<lparr>v_wait := (v_wait v)(s := ps)\<rparr>))"

definition a_sema_up :: "ptr \<Rightarrow> sview \<Rightarrow> sview" where
  "a_sema_up s v = (let w = a_wake s v in w\<lparr>v_val := (v_val w)(s := v_val w s + 1)\<rparr>)"

lemma down_test_runs:
  assumes "threads_wf k" "\<not> in_external_intr k" "\<not> intr_on k" "sched_inv (sched_view k)"
    "Block_now \<notin> set (v_cont (sched_view k) (cur k))" "cur k \<noteq> idle_thread k"
  shows "runs (sema_down_test s b k) (a_down_test s b (sched_view k))"
proof (cases "sema_value (semas k s) = 0")
  case True
  have r: "v_stat (sched_view k) (cur k) = Some THREAD_RUNNING" using sched_running [OF assms(4)] by simp
  obtain t where t: "thread_current k = Some (cur k)" using current_ok [OF assms(1) r] by metis
  let ?k = "upd_sema s (\<lambda>x. x\<lparr>waiters := waiters x @ [cur k]\<rparr>) k"
  have v: "sched_view ?k = a_wait s (sched_view k)" by (simp add: view_sema a_wait_def fun_upd_idem)
  obtain k1 where k1: "push_cont (cur k) [Down_test s b] ?k = Some k1" "threads_wf k1"
      "sched_view k1 = a_push (cur k) [Down_test s b] (a_wait s (sched_view k))"
    using push_runs [of ?k "cur k" THREAD_RUNNING "[Down_test s b]"] assms(1) r v by (auto simp: runs_def a_wait_def)
  have e: "cur k1 = cur k" "in_external_intr k1 = in_external_intr k" "intr_on k1 = intr_on k"
    using k1(1) by (auto simp: push_cont_def upd_thread_def upd_sema_def split: option.splits)
  have "runs (thread_block k1) (a_block (sched_view k1))"
    using assms(2-6) e k1 r wait_switch [OF assms(4), of s b] by (intro block_runs) (auto simp: a_push_def a_wait_def)
  then show ?thesis using True t k1 by (simp add: sema_down_test_def a_down_test_def)
next
  case False
  have "runs (intr_set_level b (upd_sema s (\<lambda>x. x\<lparr>sema_value := sema_value x - 1\<rparr>) k))
     ((sched_view (upd_sema s (\<lambda>x. x\<lparr>sema_value := sema_value x - 1\<rparr>) k))\<lparr>v_on := b\<rparr>)"
    using assms(1,2) by (intro set_level_runs) auto
  then show ?thesis using False by (simp add: sema_down_test_def a_down_test_def view_sema fun_upd_idem)
qed

lemma sema_down_runs:
  assumes "threads_wf k" "\<not> in_external_intr k" "sched_inv (sched_view k)"
    "Block_now \<notin> set (v_cont (sched_view k) (cur k))" "cur k \<noteq> idle_thread k" "s \<noteq> NULL"
  shows "runs (sema_down s k) (a_sema_down s (sched_view k))"
  using down_test_runs [of "k\<lparr>intr_on := False\<rparr>" s "intr_on k"] assms
  by (simp add: sema_down_def a_sema_down_def intr_context_def intr_disable_def)

lemma sema_up_masked:
  "a_sema_up s v = (let w = a_wake s (v\<lparr>v_on := False\<rparr>) in
     w\<lparr>v_val := (v_val w)(s := v_val w s + 1), v_on := v_on v\<rparr>)"
  by (cases v) (auto simp: a_sema_up_def a_wake_def a_unblock_def a_set_def split: list.splits)

lemma sema_up_runs:
  assumes "threads_wf k" "\<not> in_external_intr k \<or> \<not> intr_on k" "sched_inv (sched_view k)"
    "Block_now \<notin> set (v_cont (sched_view k) (cur k))" "s \<noteq> NULL"
  shows "runs (sema_up s k) (a_sema_up s (sched_view k))"
proof -
  let ?k = "k\<lparr>intr_on := False\<rparr>"
  let ?wake = "case waiters (semas ?k s) of [] \<Rightarrow> Some ?k
      | p # ps \<Rightarrow> thread_unblock p (upd_sema s (\<lambda>x. x\<lparr>waiters := ps\<rparr>) ?k)"
  have "runs ?wake (a_wake s (sched_view ?k))"
  proof (cases "waiters (semas k s)")
    case Nil then show ?thesis using assms(1) by (simp add: a_wake_def)
  next
    case (Cons p ps)
    have "v_stat (sched_view k) p = Some THREAD_BLOCKED"
      by (rule queued_blocked [OF assms(3), where l = "Waiting s"]) (use assms(4) Cons in auto)
    then have "runs (thread_unblock p (upd_sema s (\<lambda>x. x\<lparr>waiters := ps\<rparr>) ?k))
        (a_unblock p (sched_view (upd_sema s (\<lambda>x. x\<lparr>waiters := ps\<rparr>) ?k)))"
      using assms(1) by (intro unblock_runs) (simp_all add: view_sema)
    then show ?thesis using Cons by (simp add: a_wake_def view_sema fun_upd_idem)
  qed
  then obtain k1 where k1: "?wake = Some k1" "threads_wf k1" "sched_view k1 = a_wake s (sched_view ?k)"
    by (auto simp: runs_def)
  have e: "in_external_intr k1 = in_external_intr k"
    using arg_cong [OF k1(3), of v_ext] by (simp add: a_wake_def a_unblock_def a_set_def split: list.splits)
  let ?k2 = "upd_sema s (\<lambda>x. x\<lparr>sema_value := sema_value x + 1\<rparr>) k1"
  have "runs (intr_set_level (intr_on k) ?k2) ((sched_view ?k2)\<lparr>v_on := intr_on k\<rparr>)"
    using assms(2) e k1(2) by (intro set_level_runs) auto
  moreover have "a_wake s ((sched_view k)\<lparr>v_on := False\<rparr>) = sched_view k1" using k1(3) by simp
  then have "(sched_view ?k2)\<lparr>v_on := intr_on k\<rparr> = a_sema_up s (sched_view k)"
    using sema_up_masked [of s "sched_view k"] by (simp add: view_sema fun_upd_idem Let_def)
  moreover have "sema_up s k = intr_set_level (intr_on k) ?k2"
    using k1(1) assms(5) by (simp add: sema_up_def intr_disable_def)
  ultimately show ?thesis by simp
qed

end
