(* ===== verification/Ktick.thy ===== *)
theory Ktick
  imports Ksynch
begin

text \<open>
  The timer interrupt in detail: which sleepers it wakes, and when it takes the processor away
  from the running thread.
\<close>

definition stack_of :: "kernel \<Rightarrow> seg list" where
  "stack_of k = (case threads k (cur k) of Some t \<Rightarrow> t_cont t | None \<Rightarrow> [])"

section \<open>One timer interrupt\<close>

definition deadline :: "kernel \<Rightarrow> ptr \<Rightarrow> int" where
  "deadline k p = (case threads k p of Some t \<Rightarrow> blocked_ticks t | None \<Rightarrow> 0)"

definition stk :: "kernel \<Rightarrow> ptr \<Rightarrow> seg list" where
  "stk k p = (case threads k p of Some t \<Rightarrow> t_cont t | None \<Rightarrow> [])"

lemma stk_frame [simp]: "stk (k\<lparr>in_external_intr := b\<rparr>) = stk k" "stk (k\<lparr>yield_on_return := b\<rparr>) = stk k"
  "stk (k\<lparr>ticks := n\<rparr>) = stk k"
  by (simp_all add: stk_def fun_eq_iff)

lemma stack_stk: "stack_of k = stk k (cur k)"
  by (simp add: stack_of_def stk_def)

lemma upd_stk:
  assumes "upd_thread p f k = Some k'" "\<And>t. t_cont (f t) = t_cont t"
  shows "stk k' = stk k"
  using assms by (auto simp: upd_thread_def stk_def fun_eq_iff split: option.splits if_splits)

lemma upd_frame:
  assumes "upd_thread p f k = Some k'" "\<And>t. blocked_ticks (f t) = blocked_ticks t"
  shows "deadline k' = deadline k" "ready_list k' = ready_list k" "blocked_list k' = blocked_list k" "ticks k' = ticks k"
    "thread_ticks k' = thread_ticks k" "yield_on_return k' = yield_on_return k" "cur k' = cur k" "idle_thread k' = idle_thread k"
  using assms by (auto simp: upd_thread_def deadline_def fun_eq_iff split: option.splits if_splits)

lemma current_eq: "thread_current k = Some p \<Longrightarrow> p = cur k"
  by (auto simp: thread_current_def running_thread_def ret_simps Let_def)

lemma unblock_frame:
  assumes "thread_unblock p k = Some k'"
  shows "deadline k' = deadline k" "ready_list k' = ready_list k @ [p]" "blocked_list k' = blocked_list k" "ticks k' = ticks k"
    "thread_ticks k' = thread_ticks k" "yield_on_return k' = yield_on_return k" "cur k' = cur k" "idle_thread k' = idle_thread k"
  using assms
  by (auto simp: thread_unblock_def intr_disable_def intr_set_level_def intr_enable_def ret_simps upd_thread_def deadline_def
      fun_eq_iff split: option.splits if_splits)

lemma unblock_stk: "thread_unblock p k = Some k' \<Longrightarrow> stk k' = stk k"
  by (auto simp: thread_unblock_def intr_disable_def intr_set_level_def intr_enable_def ret_simps upd_thread_def stk_def
      fun_eq_iff split: option.splits if_splits)

lemma check_list_stk: "repeated_check_blocked_list n ps k = Some k' \<Longrightarrow> stk k' = stk k"
proof (induction ps arbitrary: k)
  case (Cons p ps)
  have "stk (k\<lparr>blocked_list := ps\<rparr>) = stk k" by (simp add: stk_def fun_eq_iff)
  then show ?case using Cons by (fastforce simp: ret_simps dest: unblock_stk split: if_splits)
qed simp

lemma check_list_frame:
  assumes "repeated_check_blocked_list n (blocked_list k) k = Some k'"
  shows "blocked_list k' = dropWhile (\<lambda>p. deadline k p \<le> n) (blocked_list k)
    \<and> ready_list k' = ready_list k @ takeWhile (\<lambda>p. deadline k p \<le> n) (blocked_list k)
    \<and> deadline k' = deadline k \<and> ticks k' = ticks k \<and> thread_ticks k' = thread_ticks k
    \<and> yield_on_return k' = yield_on_return k \<and> cur k' = cur k \<and> idle_thread k' = idle_thread k"
  using assms
proof (induction "blocked_list k" arbitrary: k)
  case Nil
  then show ?case by (metis append_Nil2 dropWhile.simps(1) option.inject repeated_check_blocked_list.simps(1) takeWhile.simps(1))
next
  case (Cons p ps)
  have b: "blocked_list k = p # ps" using Cons(2) by simp
  obtain t where t: "threads k p = Some t" using Cons(3) b by (auto simp: ret_simps)
  then have d: "deadline k p = blocked_ticks t" by (simp add: deadline_def)
  show ?case
  proof (cases "blocked_ticks t \<le> n")
    case False
    then show ?thesis using Cons(3) b t d by simp
  next
    case True
    let ?k = "k\<lparr>blocked_list := ps\<rparr>"
    obtain k1 where k1: "thread_unblock p ?k = Some k1" "repeated_check_blocked_list n ps k1 = Some k'"
      using Cons(3) b t True by (auto simp: ret_simps)
    note f = unblock_frame [OF k1(1)]
    have e: "deadline ?k = deadline k" by (simp add: deadline_def fun_eq_iff)
    have "blocked_list k1 = ps" using f(3) by simp
    from Cons(1) [of k1] this k1(2) show ?thesis using f e b d True by simp
  qed
qed

text \<open>\<open>thread_unblock\<close> asserts that the thread is blocked.\<close>

lemma check_list_blocked:
  assumes "repeated_check_blocked_list n ps k = Some k'" "p \<in> set (takeWhile (\<lambda>p. deadline k p \<le> n) ps)"
  shows "\<exists>t. threads k p = Some t \<and> t_status t = THREAD_BLOCKED"
  using assms
proof (induction ps arbitrary: k)
  case (Cons q ps)
  let ?k = "k\<lparr>blocked_list := ps\<rparr>"
  obtain t where t: "threads k q = Some t" using Cons(2) by (auto simp: ret_simps)
  then have d: "deadline k q = blocked_ticks t" by (simp add: deadline_def)
  then have "blocked_ticks t \<le> n" using Cons(3) by (auto split: if_splits)
  then obtain k1 where k1: "thread_unblock q ?k = Some k1" "repeated_check_blocked_list n ps k1 = Some k'"
    using Cons(2) t by (auto simp: ret_simps)
  have s: "t_status t = THREAD_BLOCKED" "\<And>r. r \<noteq> q \<Longrightarrow> threads k1 r = threads k r"
    using k1(1) t by (auto simp: thread_unblock_def intr_disable_def intr_set_level_def intr_enable_def ret_simps upd_thread_def
      split: option.splits if_splits)
  have "deadline k1 = deadline k" using unblock_frame(1) [OF k1(1)] by (simp add: deadline_def fun_eq_iff)
  then show ?case using Cons(1) [OF k1(2)] Cons(3) t s d by (cases "p = q") (auto split: if_splits)
qed simp

lemma tick_due_blocked:
  assumes "external_interrupt timer_interrupt k = Some k'" "p \<in> set (takeWhile (\<lambda>p. deadline k p \<le> s64 (ticks k + 1)) (blocked_list k))"
  shows "\<exists>t. threads k p = Some t \<and> t_status t = THREAD_BLOCKED"
proof -
  obtain k1 where k1: "upd_thread (cur k) (\<lambda>t. t\<lparr>t_cont := [Intr_return] @ t_cont t\<rparr>) (k\<lparr>intr_on := False\<rparr>) = Some k1"
      and "timer_interrupt (k1\<lparr>in_external_intr := True, yield_on_return := False\<rparr>) \<noteq> None"
    using assms(1) by (auto simp: external_interrupt_def ret_simps push_cont_def dest!: current_eq)
  then obtain k2 where "repeated_check_blocked_list (s64 (ticks k1 + 1)) (blocked_list k1)
      (k1\<lparr>in_external_intr := True, yield_on_return := False, ticks := s64 (ticks k1 + 1)\<rparr>) = Some k2"
    by (auto simp: timer_interrupt_def unblock_thread_with_enough_ticks_def Let_def split: bind_splits)
  moreover have dl: "deadline (k1\<lparr>in_external_intr := True, yield_on_return := False, ticks := t\<rparr>) = deadline k" for t
    using upd_frame(1) [OF k1] by (simp add: deadline_def fun_eq_iff)
  have "p \<in> set (takeWhile (\<lambda>p. deadline (k1\<lparr>in_external_intr := True, yield_on_return := False, ticks := s64 (ticks k1 + 1)\<rparr>) p
      \<le> s64 (ticks k1 + 1)) (blocked_list k1))"
    using assms(2) upd_frame [OF k1] by (simp add: dl)
  ultimately obtain t where "threads k1 p = Some t" "t_status t = THREAD_BLOCKED" by (auto dest: check_list_blocked)
  then show ?thesis using k1 by (auto simp: upd_thread_def split: option.splits if_splits)
qed

lemma activate_frame:
  "process_activate k = Some k' \<Longrightarrow> ready_list k' = ready_list k \<and> cur k' = cur k \<and> blocked_list k' = blocked_list k
     \<and> ticks k' = ticks k \<and> thread_ticks k' = thread_ticks k"
  by (auto simp: process_activate_def tss_update_def pagedir_activate_def ret_simps)

lemma tail_frame:
  assumes "thread_schedule_tail prev k = Some k'"
  shows "ready_list k' = ready_list k" "cur k' = cur k" "blocked_list k' = blocked_list k" "ticks k' = ticks k" "thread_ticks k' = 0"
proof -
  obtain k1 k2 where k: "upd_thread (cur k) (\<lambda>t. t\<lparr>t_status := THREAD_RUNNING\<rparr>) k = Some k1"
      "process_activate (k1\<lparr>thread_ticks := 0\<rparr>) = Some k2" "k' = k2 \<or> (\<exists>thr. k' = k2\<lparr>threads := thr\<rparr>)"
    using assms by (auto simp: thread_schedule_tail_def running_thread_def ret_simps split: if_splits)
  show "ready_list k' = ready_list k" "cur k' = cur k" "blocked_list k' = blocked_list k" "ticks k' = ticks k" "thread_ticks k' = 0"
    using upd_frame [OF k(1)] activate_frame [OF k(2)] k(3) by auto
qed

lemma schedule_frame:
  assumes "schedule k = Some k'"
  shows "ready_list k' = tl (ready_list k)" "cur k' = (if ready_list k = [] then idle_thread k else hd (ready_list k))"
    "blocked_list k' = blocked_list k" "ticks k' = ticks k" "thread_ticks k' = 0"
proof -
  let ?n = "if ready_list k = [] then idle_thread k else hd (ready_list k)"
  have nx: "next_thread_to_run k = (?n, k\<lparr>ready_list := tl (ready_list k)\<rparr>)" by (simp add: next_thread_to_run_def)
  obtain prev where p: "thread_schedule_tail prev (k\<lparr>ready_list := tl (ready_list k), cur := ?n\<rparr>) = Some k'"
    using assms by (auto simp: schedule_def nx ret_simps Let_def)
  show "ready_list k' = tl (ready_list k)" "cur k' = ?n" "blocked_list k' = blocked_list k" "ticks k' = ticks k" "thread_ticks k' = 0"
    using tail_frame [OF p] by simp_all
qed

lemma thread_tick_frame:
  assumes "thread_tick k = Some k'"
  shows "ready_list k' = ready_list k" "blocked_list k' = blocked_list k" "ticks k' = ticks k" "cur k' = cur k"
    "idle_thread k' = idle_thread k" "thread_ticks k' = thread_ticks k + 1"
    "yield_on_return k' = (yield_on_return k \<or> thread_ticks k + 1 \<ge> TIME_SLICE)" "threads k' = threads k"
proof -
  obtain p t where c: "thread_current k = Some p" "threads k p = Some t" using assms by (auto simp: thread_tick_def ret_simps)
  define k1 where "k1 = (if p = idle_thread k then k\<lparr>idle_ticks := s64 (idle_ticks k + 1)\<rparr>
    else if t_pagedir t \<noteq> NULL then k\<lparr>user_ticks := s64 (user_ticks k + 1)\<rparr> else k\<lparr>kernel_ticks := s64 (kernel_ticks k + 1)\<rparr>)"
  have f: "ready_list k1 = ready_list k" "blocked_list k1 = blocked_list k" "ticks k1 = ticks k" "cur k1 = cur k"
    "idle_thread k1 = idle_thread k" "thread_ticks k1 = thread_ticks k" "yield_on_return k1 = yield_on_return k"
    "threads k1 = threads k"
    by (simp_all add: k1_def)
  let ?k = "k1\<lparr>thread_ticks := thread_ticks k1 + 1\<rparr>"
  have "thread_tick k = (if TIME_SLICE \<le> thread_ticks ?k then intr_yield_on_return ?k else Some ?k)"
    using c by (simp add: thread_tick_def k1_def Let_def)
  from trans [OF this [symmetric] assms] have "k' = (if TIME_SLICE \<le> thread_ticks k + 1 then ?k\<lparr>yield_on_return := True\<rparr> else ?k)"
    using f by (auto simp: intr_yield_on_return_def ret_simps split: if_splits)
  then show "ready_list k' = ready_list k" "blocked_list k' = blocked_list k" "ticks k' = ticks k" "cur k' = cur k"
    "idle_thread k' = idle_thread k" "thread_ticks k' = thread_ticks k + 1"
    "yield_on_return k' = (yield_on_return k \<or> thread_ticks k + 1 \<ge> TIME_SLICE)" "threads k' = threads k"
    using f by (simp_all)
qed

lemma timer_interrupt_yield:
  assumes "timer_interrupt k = Some k'"
  shows "yield_on_return k' = (yield_on_return k \<or> TIME_SLICE \<le> thread_ticks k + 1)"
proof -
  let ?k = "k\<lparr>ticks := s64 (ticks k + 1)\<rparr>"
  let ?f = "\<lambda>t. if t_status t = THREAD_RUNNING then t\<lparr>recent_cpu := fp_add_fp_and_int (recent_cpu t) 1\<rparr> else t"
  obtain k1 k2 where k: "repeated_check_blocked_list (ticks ?k) (blocked_list ?k) ?k = Some k1"
      "upd_thread (cur k1) ?f k1 = Some k2" "thread_tick k2 = Some k'"
    using assms by (auto simp: timer_interrupt_def ret_simps unblock_thread_with_enough_ticks_def Let_def dest!: current_eq)
  have "thread_ticks k2 = thread_ticks k1" "yield_on_return k2 = yield_on_return k1" using upd_frame [OF k(2)] by simp_all
  then show ?thesis using check_list_frame [OF k(1)] thread_tick_frame(7) [OF k(3)] by simp
qed

lemma tick_stk: "thread_tick k = Some k' \<Longrightarrow> stk k' = stk k"
  using thread_tick_frame(8) [of k k'] by (simp add: stk_def fun_eq_iff)

lemma yield_frame:
  assumes "thread_yield k = Some k'"
  shows "ready_list k' = tl (ready_list k @ (if cur k = idle_thread k then [] else [cur k]))"
    "cur k' = (let r = ready_list k @ (if cur k = idle_thread k then [] else [cur k]) in if r = [] then idle_thread k else hd r)"
    "blocked_list k' = blocked_list k" "ticks k' = ticks k" "thread_ticks k' = 0"
proof -
  define k0 where "k0 = (let k = k\<lparr>intr_on := False\<rparr> in if cur k \<noteq> idle_thread k then k\<lparr>ready_list := ready_list k @ [cur k]\<rparr> else k)"
  obtain k1 k2 where k: "upd_thread (cur k) (\<lambda>t. t\<lparr>t_status := THREAD_READY\<rparr>) k0 = Some k1"
      "upd_thread (cur k) (\<lambda>t. t\<lparr>t_cont := [Set_level (intr_on k)] @ t_cont t\<rparr>) k1 = Some k2" "schedule k2 = Some k'"
    using assms by (auto simp: thread_yield_def ret_simps intr_disable_def k0_def push_cont_def Let_def dest!: current_eq cong: if_cong)
  have f: "ready_list k2 = ready_list k0" "cur k2 = cur k0" "idle_thread k2 = idle_thread k0" "blocked_list k2 = blocked_list k0" "ticks k2 = ticks k0"
    using upd_frame [OF k(1)] upd_frame [OF k(2)] by simp_all
  show "ready_list k' = tl (ready_list k @ (if cur k = idle_thread k then [] else [cur k]))"
    "cur k' = (let r = ready_list k @ (if cur k = idle_thread k then [] else [cur k]) in if r = [] then idle_thread k else hd r)"
    "blocked_list k' = blocked_list k" "ticks k' = ticks k" "thread_ticks k' = 0"
    using schedule_frame [OF k(3)] f by (auto simp: k0_def Let_def)
qed

text \<open>What the interrupt does to the lists, with and without the end of the time slice.\<close>

lemma tick_frame:
  assumes "external_interrupt timer_interrupt k = Some k'"
  shows "ticks k' = s64 (ticks k + 1)"
    "blocked_list k' = dropWhile (\<lambda>p. deadline k p \<le> ticks k') (blocked_list k)"
    "thread_ticks k + 1 < TIME_SLICE \<Longrightarrow> cur k' = cur k \<and> thread_ticks k' = thread_ticks k + 1
       \<and> stack_of k' = Intr_return # stack_of k \<and> ready_list k' = ready_list k @ takeWhile (\<lambda>p. deadline k p \<le> ticks k') (blocked_list k)"
    "\<not> thread_ticks k + 1 < TIME_SLICE \<Longrightarrow>
      (let r = ready_list k @ takeWhile (\<lambda>p. deadline k p \<le> ticks k') (blocked_list k)
         @ (if cur k = idle_thread k then [] else [cur k]) in
       ready_list k' = tl r \<and> cur k' = (if r = [] then idle_thread k else hd r))"
proof -
  obtain k1 where k1: "upd_thread (cur k) (\<lambda>t. t\<lparr>t_cont := [Intr_return] @ t_cont t\<rparr>) (k\<lparr>intr_on := False\<rparr>) = Some k1"
      and run: "Option.bind (timer_interrupt (k1\<lparr>in_external_intr := True, yield_on_return := False\<rparr>))
        (\<lambda>k. Option.bind (kassert (\<not> intr_get_level k)) (\<lambda>_. Option.bind (kassert (intr_context k)) (\<lambda>_.
          let k = k\<lparr>in_external_intr := False\<rparr> in if yield_on_return k then thread_yield k else Some k))) = Some k'"
    using assms by (auto simp: external_interrupt_def ret_simps push_cont_def dest!: current_eq)
  note f1 = upd_frame [OF k1(1)]
  let ?k2 = "k1\<lparr>in_external_intr := True, yield_on_return := False\<rparr>"
  obtain k3 where k3: "timer_interrupt ?k2 = Some k3"
      and fin: "(if yield_on_return k3 then thread_yield (k3\<lparr>in_external_intr := False\<rparr>) else Some (k3\<lparr>in_external_intr := False\<rparr>)) = Some k'"
    using run by (auto simp: ret_simps Let_def)
  let ?k2' = "?k2\<lparr>ticks := s64 (ticks ?k2 + 1)\<rparr>"
  let ?f = "\<lambda>t. if t_status t = THREAD_RUNNING then t\<lparr>recent_cpu := fp_add_fp_and_int (recent_cpu t) 1\<rparr> else t"
  obtain k4 k5 where k4: "repeated_check_blocked_list (ticks ?k2') (blocked_list ?k2') ?k2' = Some k4"
      and k5: "upd_thread (cur k4) ?f k4 = Some k5" "thread_tick k5 = Some k3"
    using k3 by (auto simp: timer_interrupt_def ret_simps unblock_thread_with_enough_ticks_def Let_def dest!: current_eq)
  note f4 = check_list_frame [OF k4]
  have f5: "deadline k5 = deadline k4" "ready_list k5 = ready_list k4" "blocked_list k5 = blocked_list k4" "ticks k5 = ticks k4"
    "thread_ticks k5 = thread_ticks k4" "yield_on_return k5 = yield_on_return k4" "cur k5 = cur k4" "idle_thread k5 = idle_thread k4"
    using upd_frame [OF k5(1)] by simp_all
  have f3: "ready_list k3 = ready_list k5" "blocked_list k3 = blocked_list k5" "ticks k3 = ticks k5" "cur k3 = cur k5"
    "idle_thread k3 = idle_thread k5" "thread_ticks k3 = thread_ticks k5 + 1"
    "yield_on_return k3 = (yield_on_return k5 \<or> thread_ticks k5 + 1 \<ge> TIME_SLICE)"
    using thread_tick_frame [OF k5(2)] by simp_all
  have dl: "deadline (k1\<lparr>in_external_intr := True, yield_on_return := False, ticks := t\<rparr>) = deadline k" for t
    using f1(1) by (auto simp: deadline_def fun_eq_iff)
  have g: "ticks k3 = s64 (ticks k + 1)" "blocked_list k3 = dropWhile (\<lambda>p. deadline k p \<le> ticks k3) (blocked_list k)"
    "ready_list k3 = ready_list k @ takeWhile (\<lambda>p. deadline k p \<le> ticks k3) (blocked_list k)"
    "cur k3 = cur k" "idle_thread k3 = idle_thread k" "thread_ticks k3 = thread_ticks k + 1"
    "yield_on_return k3 = (\<not> thread_ticks k + 1 < TIME_SLICE)"
    using f1 f4 f5 f3 by (auto simp: dl not_less)
  show "ticks k' = s64 (ticks k + 1)" and t: "blocked_list k' = dropWhile (\<lambda>p. deadline k p \<le> ticks k') (blocked_list k)"
    using fin g yield_frame [of "k3\<lparr>in_external_intr := False\<rparr>" k'] by (auto split: if_splits)
  have "stk k1 (cur k) = Intr_return # stk k (cur k)"
    using k1 by (auto simp: upd_thread_def stk_def split: option.splits)
  moreover have "stk (k3\<lparr>in_external_intr := False\<rparr>) = stk k1"
    using check_list_stk [OF k4] upd_stk [OF k5(1)] tick_stk [OF k5(2)] by simp
  ultimately have "stack_of (k3\<lparr>in_external_intr := False\<rparr>) = Intr_return # stack_of k"
    using g(4) by (simp add: stack_stk)
  then show "thread_ticks k + 1 < TIME_SLICE \<Longrightarrow> cur k' = cur k \<and> thread_ticks k' = thread_ticks k + 1
       \<and> stack_of k' = Intr_return # stack_of k \<and> ready_list k' = ready_list k @ takeWhile (\<lambda>p. deadline k p \<le> ticks k') (blocked_list k)"
    using fin g by (auto split: if_splits)
  show "\<not> thread_ticks k + 1 < TIME_SLICE \<Longrightarrow>
      (let r = ready_list k @ takeWhile (\<lambda>p. deadline k p \<le> ticks k') (blocked_list k)
         @ (if cur k = idle_thread k then [] else [cur k]) in
       ready_list k' = tl r \<and> cur k' = (if r = [] then idle_thread k else hd r))"
    using fin g yield_frame [of "k3\<lparr>in_external_intr := False\<rparr>" k'] by (auto simp: Let_def split: if_splits)
qed

end
