(* ===== verification/Kstep.thy ===== *)
theory Kstep
  imports Ksched_Refine Ktick
begin

text \<open>
  The kernel as a transition system: the running thread continues with the next segment of its
  stack, a thread with an empty stack calls an operation of \<open>thread.h\<close>, \<open>synch.h\<close> or
  \<open>timer.h\<close>, the idle thread runs its loop, and the timer interrupt arrives when interrupts are
  on.  The invariant of the scheduler is joined by one about interrupts: which stacks belong to
  code that runs with interrupts off.
\<close>

section \<open>Actions\<close>

datatype kcall =
    Call_down ptr | Call_up ptr
  | Call_acquire ptr | Call_release ptr
  | Call_wait ptr ptr ptr | Call_signal ptr ptr | Call_broadcast ptr ptr
  | Call_sleep int | Call_yield | Call_exit
  | Call_create ptr ptr "u8 list" int ptr
  | Call_set_priority int

datatype action = Resume | Tick | Idle | Call kcall

fun do_call :: "kcall \<Rightarrow> kernel \<Rightarrow> kernel option" where
  "do_call (Call_down s) k = sema_down s k"
| "do_call (Call_up s) k = sema_up s k"
| "do_call (Call_acquire l) k = lock_acquire l k"
| "do_call (Call_release l) k = lock_release l k"
| "do_call (Call_wait c l w) k = cond_wait c l w k"
| "do_call (Call_signal c l) k = cond_signal c l k"
| "do_call (Call_broadcast c l) k = cond_broadcast c l k"
| "do_call (Call_sleep n) k = timer_sleep n k"
| "do_call Call_yield k = thread_yield k"
| "do_call Call_exit k = thread_exit k"
| "do_call (Call_create l p name pri f) k = map_option snd (thread_create l p name pri f k)"
| "do_call (Call_set_priority n) k = thread_set_priority n k"

text \<open>
  What a caller respects: no null semaphore, a page that is not in use for a new thread, and a
  fresh semaphore for a wait on a condition variable.  Conditions that the code checks itself are
  not repeated here.
\<close>

fun call_ok :: "kcall \<Rightarrow> kernel \<Rightarrow> bool" where
  "call_ok (Call_down s) k \<longleftrightarrow> s \<noteq> NULL"
| "call_ok (Call_up s) k \<longleftrightarrow> s \<noteq> NULL"
| "call_ok (Call_acquire l) k \<longleftrightarrow> l \<noteq> NULL"
| "call_ok (Call_release l) k \<longleftrightarrow> l \<noteq> NULL"
| "call_ok (Call_wait c l w) k \<longleftrightarrow> w \<noteq> NULL \<and> waiters (semas k w) = []"
| "call_ok (Call_create l p name pri f) k \<longleftrightarrow> l \<noteq> NULL \<and> threads k p = None"
| "call_ok _ k \<longleftrightarrow> True"

fun do_action :: "action \<Rightarrow> kernel \<Rightarrow> kernel option" where
  "do_action Resume k = resume k"
| "do_action Tick k = external_interrupt timer_interrupt k"
| "do_action Idle k = idle_turn k"
| "do_action (Call c) k = do_call c k"

fun enabled :: "action \<Rightarrow> kernel \<Rightarrow> bool" where
  "enabled Resume k \<longleftrightarrow> stack_of k \<noteq> []"
| "enabled Tick k \<longleftrightarrow> intr_on k"
| "enabled Idle k \<longleftrightarrow> cur k = idle_thread k \<and> stack_of k = [] \<and> intr_on k"
| "enabled (Call c) k \<longleftrightarrow> cur k \<noteq> idle_thread k \<and> stack_of k = [] \<and> intr_on k \<and> call_ok c k"

text \<open>
  The race of \<open>timer_sleep\<close>: a timer interrupt between the insertion into the list of sleepers and
  \<open>intr_disable\<close> that ends the time slice or finds the running thread itself due.  What happens then is
  the subject of theorems of its own; the other theorems are about runs without it.  A timer
  interrupt at the same place that does neither is a step like any other.
\<close>

definition due :: "kernel \<Rightarrow> ptr list" where
  "due k = takeWhile (\<lambda>p. deadline k p \<le> s64 (ticks k + 1)) (blocked_list k)"

definition race :: "action \<Rightarrow> kernel \<Rightarrow> bool" where
  "race a k \<longleftrightarrow> a = Tick \<and> stack_of k = [Block_now] \<and> (TIME_SLICE \<le> thread_ticks k + 1 \<or> cur k \<in> set (due k))"

definition no_race :: "(action \<Rightarrow> bool) \<Rightarrow> action \<Rightarrow> kernel \<Rightarrow> bool" where
  "no_race P a k \<longleftrightarrow> P a \<and> \<not> race a k"

text \<open>The states reached from \<open>k0\<close> by actions that satisfy \<open>P\<close> where they are taken.\<close>

inductive kreach :: "(action \<Rightarrow> kernel \<Rightarrow> bool) \<Rightarrow> kernel \<Rightarrow> kernel \<Rightarrow> bool" for P k0 where
  kreach_refl: "kreach P k0 k0"
| kreach_step: "kreach P k0 k \<Longrightarrow> enabled a k \<Longrightarrow> P a k \<Longrightarrow> do_action a k = Some k' \<Longrightarrow> kreach P k0 k'"

section \<open>The abstract actions\<close>

text \<open>The timer interrupt wakes some of the sleepers, in the order of their list.\<close>

fun a_wake_n :: "nat \<Rightarrow> sview \<Rightarrow> sview" where
  "a_wake_n 0 v = v"
| "a_wake_n (Suc m) v = (case v_asleep v of [] \<Rightarrow> v | p # ps \<Rightarrow> a_wake_n m (a_unblock p (v\<lparr>v_asleep := ps\<rparr>)))"

definition a_intr :: "sview \<Rightarrow> sview" where
  "a_intr v = (a_push (v_cur v) [Intr_return] v)\<lparr>v_on := False\<rparr>"

text \<open>What a segment does to the abstract state, once it is off the stack.\<close>

inductive vseg :: "seg \<Rightarrow> sview \<Rightarrow> sview \<Rightarrow> bool" where
  vs_down: "vseg (Sema_down s) v (a_down_test s True (v\<lparr>v_on := False\<rparr>))"
| vs_up: "vseg (Sema_up s) v (a_sema_up s v)"
| vs_held: "v_holder v l = v_cur v \<Longrightarrow> vseg (Lock_acquire l) v v"
| vs_acquire: "v_holder v l \<noteq> v_cur v \<Longrightarrow>
    vseg (Lock_acquire l) v (a_push (v_cur v) [Sema_down (lock_sema l), Lock_taken l] v)"
| vs_taken: "vseg (Lock_taken l) v (v\<lparr>v_holder := (v_holder v)(l := v_cur v)\<rparr>)"
| vs_release: "v_holder v l = v_cur v \<Longrightarrow>
    vseg (Lock_release l) v ((a_push (v_cur v) [Sema_up (lock_sema l)] v)\<lparr>v_holder := (v_holder v)(l := NULL)\<rparr>)"
| vs_done: "v_cond v c = [] \<Longrightarrow> vseg (Broadcast c l) v v"
| vs_broadcast: "v_cond v c = w # ws \<Longrightarrow>
    vseg (Broadcast c l) v (a_push (v_cur v) [Sema_up w, Broadcast c l] (v\<lparr>v_cond := (v_cond v)(c := ws)\<rparr>))"
| vs_tid: "vseg (Take_tid p) v v"

inductive vcall :: "kcall \<Rightarrow> sview \<Rightarrow> sview \<Rightarrow> bool" where
  vc_down: "vseg (Sema_down s) v v' \<Longrightarrow> vcall (Call_down s) v v'"
| vc_up: "vseg (Sema_up s) v v' \<Longrightarrow> vcall (Call_up s) v v'"
| vc_acquire: "vseg (Lock_acquire l) v v' \<Longrightarrow> vcall (Call_acquire l) v v'"
| vc_release: "vseg (Lock_release l) v v' \<Longrightarrow> vcall (Call_release l) v v'"
| vc_broadcast: "vseg (Broadcast c l) v v' \<Longrightarrow> vcall (Call_broadcast c l) v v'"
| vc_wait: "v_holder v l = v_cur v \<Longrightarrow>
    vcall (Call_wait c l w) v (a_push (v_cur v) [Lock_release l, Sema_down w, Lock_acquire l]
      (v\<lparr>v_val := (v_val v)(w := 0), v_cond := (v_cond v)(c := v_cond v c @ [w])\<rparr>))"
| vc_no_signal: "v_cond v c = [] \<Longrightarrow> vcall (Call_signal c l) v v"
| vc_signal: "v_cond v c = w # ws \<Longrightarrow>
    vcall (Call_signal c l) v (a_push (v_cur v) [Sema_up w] (v\<lparr>v_cond := (v_cond v)(c := ws)\<rparr>))"
| vc_sleep: "v_asleep v = xs @ ys \<Longrightarrow>
    vcall (Call_sleep n) v (a_push (v_cur v) [Block_now] (v\<lparr>v_asleep := xs @ v_cur v # ys\<rparr>))"
| vc_yield: "vcall Call_yield v (a_yield True (v\<lparr>v_on := False\<rparr>))"
| vc_exit: "vcall Call_exit v (a_exit (v\<lparr>v_on := False, v_all := remove1 (v_cur v) (v_all v)\<rparr>))"
| vc_no_create: "vcall (Call_create l p name pri f) v v"
| vc_create: "v_stat v p = None \<Longrightarrow>
    vcall (Call_create l p name pri f) v
      (a_push (v_cur v) [Lock_acquire l, Take_tid p, Lock_release l, Create_rest p f]
        (a_set p THREAD_BLOCKED (v\<lparr>v_all := v_all v @ [p]\<rparr>)))"
| vc_priority: "vcall (Call_set_priority n) v v"

fun level_seg :: "seg \<Rightarrow> bool" where
  "level_seg (Set_level b) = True"
| "level_seg (Thread_start f) = True"
| "level_seg Intr_return = True"
| "level_seg _ = False"

text \<open>The abstract kernel.\<close>

inductive vact :: "action \<Rightarrow> sview \<Rightarrow> sview \<Rightarrow> bool" where
  va_level: "v_cont v (v_cur v) = s # ss \<Longrightarrow> level_seg s \<Longrightarrow> vact Resume v ((a_pop v)\<lparr>v_on := b\<rparr>)"
| va_test: "v_cont v (v_cur v) = Down_test s True # ss \<Longrightarrow> vact Resume v (a_down_test s True (a_pop v))"
| va_seg: "v_cont v (v_cur v) = s # ss \<Longrightarrow> vseg s (a_pop v) v' \<Longrightarrow> vact Resume v v'"
| va_block_now: "v_cont v (v_cur v) = [Block_now] \<Longrightarrow>
    vact Resume v (a_block (a_push (v_cur v) [Set_level True] ((a_pop v)\<lparr>v_on := False\<rparr>)))"
| va_start: "v_cont v (v_cur v) = Create_rest p f # ss \<Longrightarrow>
    vact Resume v (a_unblock p (a_push p [Thread_start f] (a_pop v)))"
| va_tick: "vact Tick v (a_wake_n m (a_intr v))"
| va_tick_yield: "vact Tick v (a_yield False (a_wake_n m (a_intr v)))"
| va_idle: "v_cur v = v_idle v \<Longrightarrow> vact Idle v (a_block (a_push (v_cur v) [Intr_return] (v\<lparr>v_on := False\<rparr>)))"
| va_call: "v_cont v (v_cur v) = [] \<Longrightarrow> vcall c v v' \<Longrightarrow> vact (Call c) v v'"

section \<open>Stacks and interrupts\<close>

fun on_seg :: "seg \<Rightarrow> bool" where
  "on_seg (Set_level b) = False"
| "on_seg (Down_test s b) = False"
| "on_seg (Thread_start f) = False"
| "on_seg Intr_return = False"
| "on_seg (Sema_down s) = (s \<noteq> NULL)"
| "on_seg (Sema_up s) = (s \<noteq> NULL)"
| "on_seg (Create_rest p f) = (f \<noteq> NULL)"
| "on_seg _ = True"

fun off_stack :: "seg list \<Rightarrow> bool" where
  "off_stack (Set_level True # ss) = list_all on_seg ss"
| "off_stack (Set_level False # Intr_return # ss) = list_all on_seg ss"
| "off_stack (Intr_return # ss) = list_all on_seg ss"
| "off_stack (Down_test s True # ss) = list_all on_seg ss"
| "off_stack (Thread_start f # ss) = (f \<noteq> NULL \<and> list_all on_seg ss)"
| "off_stack _ = False"

definition suspended :: "sview \<Rightarrow> ptr \<Rightarrow> bool" where
  "suspended v p \<longleftrightarrow>
     (if \<exists>q. p \<in> set (places v (Nascent q)) then v_cont v p = [] else off_stack (v_cont v p))"

definition intr_inv :: "sview \<Rightarrow> bool" where
  "intr_inv v \<longleftrightarrow> \<not> v_ext v
     \<and> (if v_on v then list_all on_seg (v_cont v (v_cur v)) else off_stack (v_cont v (v_cur v)))
     \<and> (\<forall>p. v_stat v p \<noteq> None \<longrightarrow> p \<noteq> v_cur v \<longrightarrow> suspended v p)
     \<and> (\<forall>p. v_stat v p \<noteq> None \<longrightarrow> p \<in> set (v_all v)) \<and> (\<forall>c. NULL \<notin> set (v_cond v c))"

definition intr_switch :: "sview \<Rightarrow> bool" where
  "intr_switch v \<longleftrightarrow> \<not> v_ext v \<and> \<not> v_on v \<and> (\<forall>p. v_stat v p \<noteq> None \<longrightarrow> suspended v p)
     \<and> (\<forall>p. v_stat v p \<noteq> None \<longrightarrow> p \<in> set (v_all v)) \<and> (\<forall>c. NULL \<notin> set (v_cond v c))"

definition kinv :: "kernel \<Rightarrow> bool" where
  "kinv k \<longleftrightarrow> threads_wf k \<and> sched_inv (sched_view k) \<and> intr_inv (sched_view k)"

lemma switch_intr:
  assumes "switch_inv v" "intr_switch v"
  shows "intr_inv (a_schedule v)"
proof -
  have c: "core_inv v" using assms(1) by (simp add: switch_inv_def)
  have n: "v_stat v (a_next v) \<noteq> None"
    using core_ready [OF c, of "a_next v"] core_idle(1) [OF c] by (cases "v_ready v") (auto simp: a_next_def)
  have "a_next v \<notin> set (places v (Nascent q))" for q
  proof (cases "v_ready v")
    case Nil then show ?thesis using core_idle(2) [OF c, of "Nascent q"] by (simp add: a_next_def)
  next
    case (Cons a as)
    then show ?thesis using placed_unique [OF core_placed [OF c], of a Ready "Nascent q"] by (auto simp: a_next_def)
  qed
  then have "off_stack (v_cont v (a_next v))" using assms(2) n by (auto simp: intr_switch_def suspended_def)
  then show ?thesis using assms(2) n by (auto simp: intr_inv_def intr_switch_def a_schedule_def suspended_def split: if_splits)
qed

lemma intr_stack:
  assumes "intr_inv v" "v_stat v (v_cur v) \<noteq> None"
    and w: "v_cont w = (v_cont v)(v_cur v := ss)" "set (created ss) = set (created (v_cont v (v_cur v)))"
      "v_stat w = v_stat v" "v_cur w = v_cur v" "v_all w = v_all v" "\<not> v_ext w" "\<And>c. NULL \<notin> set (v_cond w c)"
      "if v_on w then list_all on_seg ss else off_stack ss"
  shows "intr_inv w"
proof -
  have "(\<exists>q. p \<in> set (created (v_cont w q))) \<longleftrightarrow> (\<exists>q. p \<in> set (created (v_cont v q)))" for p
    using w(1,2) by (metis fun_upd_apply)
  then show ?thesis using assms unfolding intr_inv_def suspended_def by (auto simp: fun_upd_apply)
qed

lemma cur_not_nascent: "sched_inv v \<Longrightarrow> v_cur v \<notin> set (created (v_cont v q))"
  using core_queued [OF sched_core, of v "Nascent q" "v_cur v"] sched_running [of v] by auto

lemma intr_suspend:
  assumes "intr_inv v" "off_stack ss" "set (created ss) = set (created (v_cont v (v_cur v)))" "sched_inv v"
    and w: "v_cont w = (v_cont v)(v_cur v := ss)" "\<And>p. v_stat w p \<noteq> None \<Longrightarrow> v_stat v p \<noteq> None"
      "v_all w = v_all v" "\<not> v_ext w" "\<not> v_on w" "v_cond w = v_cond v"
  shows "intr_switch w"
proof -
  have "(\<exists>q. p \<in> set (created (v_cont w q))) \<longleftrightarrow> (\<exists>q. p \<in> set (created (v_cont v q)))" for p
    using assms(3) w(1) by (metis fun_upd_apply)
  then show ?thesis using assms(1,2,5-) cur_not_nascent [OF assms(4)] unfolding intr_inv_def intr_switch_def suspended_def
    by (auto simp: fun_upd_apply)
qed

lemma intr_unblock:
  assumes "intr_inv v" "v_stat v p \<noteq> None"
  shows "intr_inv (a_unblock p (v\<lparr>v_asleep := as\<rparr>))" "intr_inv (a_unblock p (v\<lparr>v_wait := ww\<rparr>))"
  using assms unfolding intr_inv_def suspended_def by (auto simp: a_unblock_def a_set_def)

section \<open>The segments\<close>

text \<open>The operation returns, keeps the invariants, and its abstract effect satisfies \<open>R\<close>.\<close>

definition goes :: "(sview \<Rightarrow> bool) \<Rightarrow> kernel option \<Rightarrow> bool" where
  "goes R m \<longleftrightarrow> (\<exists>k'. m = Some k' \<and> kinv k' \<and> R (sched_view k'))"

lemma goesI: "runs m v \<Longrightarrow> sched_inv v \<Longrightarrow> intr_inv v \<Longrightarrow> R v \<Longrightarrow> goes R m"
  by (auto simp: goes_def runs_def kinv_def)

lemma stack_view: "sched_inv (sched_view k) \<Longrightarrow> stack_of k = v_cont (sched_view k) (cur k)"
  using sched_running [of "sched_view k"] by (auto simp: stack_of_def view_stat view_cont)

text \<open>\<open>resume\<close> takes the segment off the stack.\<close>

lemma resume_pop:
  assumes "threads_wf k" "sched_inv (sched_view k)" "stack_of k = s # ss"
  obtains k1 where "resume k = run_seg s k1" "threads_wf k1" "sched_view k1 = a_pop (sched_view k)"
proof -
  have r: "v_stat (sched_view k) (cur k) = Some THREAD_RUNNING" using sched_running [OF assms(2)] by simp
  obtain t where t: "threads k (cur k) = Some t" "t_status t = THREAD_RUNNING" "t_magic t = THREAD_MAGIC" "cur k \<noteq> NULL"
      "v_cont (sched_view k) (cur k) = t_cont t"
    using current_ok [OF assms(1) r] by metis
  have c: "t_cont t = s # ss" using assms(3) t by (simp add: stack_of_def)
  define k1 where "k1 = k\<lparr>threads := (threads k)(cur k \<mapsto> t\<lparr>t_cont := ss\<rparr>)\<rparr>"
  have "resume k = run_seg s k1" using t c by (simp add: resume_def upd_thread_def k1_def)
  moreover have "threads_wf k1" using assms(1) t unfolding k1_def by (intro wf_threads) simp_all
  moreover have "sched_view k1 = a_pop (sched_view k)"
    using t c r by (simp add: k1_def view_threads a_pop_def fun_upd_idem)
  ultimately show ?thesis by (rule that)
qed

lemma a_pop_sel [simp]: "v_stat (a_pop v) = v_stat v" "v_cur (a_pop v) = v_cur v" "v_idle (a_pop v) = v_idle v"
  "v_on (a_pop v) = v_on v" "v_ext (a_pop v) = v_ext v" "v_all (a_pop v) = v_all v" "v_cond (a_pop v) = v_cond v"
  "v_cont (a_pop v) = (v_cont v)(v_cur v := tl (v_cont v (v_cur v)))"
  by (simp_all add: a_pop_def)

text \<open>A segment that only changes the interrupt level.\<close>

lemma level_goes:
  assumes k: "kinv k" "stack_of k = s # ss" and s: "s \<noteq> Block_now" "created [s] = []"
    and run: "\<And>k1. threads_wf k1 \<Longrightarrow> \<not> in_external_intr k1 \<Longrightarrow> runs (run_seg s k1) ((sched_view k1)\<lparr>v_on := b\<rparr>)"
    and b: "if b then list_all on_seg ss else off_stack ss" "level_seg s"
  shows "goes (vact Resume (sched_view k)) (resume k)"
proof -
  let ?v = "sched_view k"
  have v: "threads_wf k" "sched_inv ?v" "intr_inv ?v" using k(1) by (simp_all add: kinv_def)
  have st: "v_cont ?v (v_cur ?v) = s # ss" using k(2) stack_view [OF v(2)] by simp
  obtain k1 where k1: "resume k = run_seg s k1" "threads_wf k1" "sched_view k1 = a_pop ?v"
    using resume_pop [OF v(1,2) k(2)] by metis
  have "\<not> in_external_intr k1" using arg_cong [OF k1(3), of v_ext] v(3) by (simp add: intr_inv_def)
  from run [OF k1(2) this] have "runs (resume k) ((a_pop ?v)\<lparr>v_on := b\<rparr>)" unfolding k1(1,3) .
  moreover have "sched_inv ((a_pop ?v)\<lparr>v_on := b\<rparr>)" using pop_inv [OF v(2) st s] by simp
  moreover have "intr_inv ((a_pop ?v)\<lparr>v_on := b\<rparr>)"
    using v(3) st s(2) b sched_running [OF v(2)] created_append [of "[s]" ss]
    by (intro intr_stack [OF v(3), where ss = ss]) (auto simp: intr_inv_def)
  ultimately show ?thesis by (rule goesI) (rule va_level [OF st b(2)])
qed

end
