(* ===== verification/Kstep_Inv.thy ===== *)
theory Kstep_Inv
  imports Kstep
begin

text \<open>
  Every action except the race of \<open>timer_sleep\<close> keeps the invariants, and those that do not touch the
  list of held locks always return.
\<close>

definition vinv :: "sview \<Rightarrow> bool" where
  "vinv v \<longleftrightarrow> sched_inv v \<and> intr_inv v"

lemma vinv_running: "vinv v \<Longrightarrow> v_stat v (v_cur v) = Some THREAD_RUNNING"
  by (simp add: vinv_def sched_inv_def)

lemma goes_vinv: "runs m v \<Longrightarrow> vinv v \<Longrightarrow> R v \<Longrightarrow> goes R m"
  by (auto simp: vinv_def intro: goesI)

lemma vinv_frame [simp]:
  "vinv (v\<lparr>v_val := z\<rparr>) = vinv v" "vinv (v\<lparr>v_holder := h\<rparr>) = vinv v"
  by (simp_all add: vinv_def intr_inv_def suspended_def)

section \<open>Abstract steps\<close>

lemma vinv_pop:
  assumes "vinv v" "v_on v" "v_cont v (v_cur v) = s # ss" "s \<noteq> Block_now" "created [s] = []"
  shows "vinv (a_pop v)"
proof -
  have i: "intr_inv v" and r: "v_stat v (v_cur v) \<noteq> None" using assms(1) vinv_running [OF assms(1)] by (simp_all add: vinv_def)
  have o: "list_all on_seg ss" "\<not> v_ext v" "\<And>c. NULL \<notin> set (v_cond v c)" using i assms(2,3) by (simp_all add: intr_inv_def)
  have "intr_inv (a_pop v)"
    by (rule intr_stack [OF i r, where ss = ss]) (use o assms(2,3,5) created_append [of "[s]" ss] in simp_all)
  then show ?thesis using pop_inv [of v s ss] assms by (simp add: vinv_def)
qed

lemma vinv_push:
  assumes "vinv v" "v_on v" "Block_now \<notin> set (v_cont v (v_cur v))" "v_cur v \<noteq> v_idle v"
    "list_all on_seg ss" "Block_now \<notin> set ss" "created ss = []"
  shows "vinv (a_push (v_cur v) ss v)"
proof -
  have i: "intr_inv v" and r: "v_stat v (v_cur v) \<noteq> None" using assms(1) vinv_running [OF assms(1)] by (simp_all add: vinv_def)
  have o: "list_all on_seg (v_cont v (v_cur v))" "\<not> v_ext v" "\<And>c. NULL \<notin> set (v_cond v c)"
    using i assms(2) by (simp_all add: intr_inv_def)
  have "intr_inv (a_push (v_cur v) ss v)"
    by (rule intr_stack [OF i r, where ss = "ss @ v_cont v (v_cur v)"]) (use o assms(2,5,7) in \<open>simp_all add: a_push_def\<close>)
  then show ?thesis using push_inv [of v ss] assms by (simp add: vinv_def)
qed

lemma vinv_down:
  assumes v: "vinv v" "v_on v" "Block_now \<notin> set (v_cont v (v_cur v))" "v_cur v \<noteq> v_idle v"
  shows "vinv (a_down_test s True (v\<lparr>v_on := False\<rparr>))"
proof (cases "v_val v s = 0")
  case True
  let ?v = "v\<lparr>v_on := False\<rparr>" and ?b = "[Down_test s True]"
  let ?w = "a_push (v_cur ?v) ?b (a_wait s ?v)"
  have sw: "switch_inv (a_set (v_cur ?v) THREAD_BLOCKED ?w)"
    by (rule wait_switch) (use v in \<open>auto simp: vinv_def\<close>)
  have "intr_switch (a_set (v_cur ?v) THREAD_BLOCKED ?w)"
    using v vinv_running [OF v(1)]
    by (intro intr_suspend [of v "?b @ v_cont v (v_cur v)"]) (auto simp: vinv_def intr_inv_def a_push_def a_wait_def a_set_def split: if_splits)
  then have "vinv (a_schedule (a_set (v_cur ?v) THREAD_BLOCKED ?w))"
    using schedule_inv [OF sw] switch_intr [OF sw] by (simp add: vinv_def)
  then show ?thesis using True by (simp add: a_down_test_def a_block_def a_push_def a_wait_def)
next
  case False
  have "v\<lparr>v_val := z, v_on := True\<rparr> = v\<lparr>v_val := z\<rparr>" for z using v(2) by (cases v) simp
  then show ?thesis using False v(1) by (simp add: a_down_test_def)
qed

lemma vinv_wake:
  assumes v: "vinv v" "Block_now \<notin> set (v_cont v (v_cur v))"
  shows "vinv (a_wake s v)"
proof (cases "v_wait v s")
  case Nil then show ?thesis using v(1) by (simp add: a_wake_def)
next
  case (Cons p ps)
  have "v_stat v p \<noteq> None" using placed_live [of v p "Waiting s"] v(1) Cons by (simp add: vinv_def)
  then show ?thesis using Cons v sema_wake_inv [of v s p ps] intr_unblock(2) [of v p]
    by (simp add: a_wake_def vinv_def)
qed

lemma vinv_up: "vinv v \<Longrightarrow> Block_now \<notin> set (v_cont v (v_cur v)) \<Longrightarrow> vinv (a_sema_up s v)"
  using vinv_wake [of v s] by (simp add: a_sema_up_def Let_def)

lemma vinv_sleep_block:
  assumes v: "vinv v" "v_cont v (v_cur v) = [Block_now]"
  shows "vinv (a_block (a_push (v_cur v) [Set_level True] ((a_pop v)\<lparr>v_on := False\<rparr>)))"
proof -
  let ?u = "v\<lparr>v_on := False\<rparr>"
  have e: "(a_pop v)\<lparr>v_on := False\<rparr> = a_pop ?u" by (simp add: a_pop_def)
  let ?w = "a_set (v_cur ?u) THREAD_BLOCKED (a_push (v_cur ?u) [Set_level True] (a_pop ?u))"
  have sw: "switch_inv ?w" by (rule sleep_switch) (use v in \<open>auto simp: vinv_def\<close>)
  have "intr_switch ?w"
    using v vinv_running [OF v(1)]
    by (intro intr_suspend [of v "[Set_level True]"]) (auto simp: vinv_def intr_inv_def a_push_def a_set_def split: if_splits)
  then have "vinv (a_schedule ?w)" using schedule_inv [OF sw] switch_intr [OF sw] by (simp add: vinv_def)
  then show ?thesis unfolding e by (simp add: a_block_def a_push_def a_set_def)
qed

lemma vinv_idle_block:
  assumes v: "vinv v" "v_cur v = v_idle v" "v_on v"
  shows "vinv (a_block (a_push (v_cur v) [Intr_return] (v\<lparr>v_on := False\<rparr>)))"
proof -
  let ?u = "v\<lparr>v_on := False\<rparr>"
  let ?w = "a_set (v_cur ?u) THREAD_BLOCKED (a_push (v_cur ?u) [Intr_return] ?u)"
  have sw: "switch_inv ?w" by (rule idle_switch) (use v in \<open>auto simp: vinv_def\<close>)
  have "intr_switch ?w"
    using v vinv_running [OF v(1)]
    by (intro intr_suspend [of v "Intr_return # v_cont v (v_cur v)"]) (auto simp: vinv_def intr_inv_def a_push_def a_set_def split: if_splits)
  then have "vinv (a_schedule ?w)" using schedule_inv [OF sw] switch_intr [OF sw] by (simp add: vinv_def)
  then show ?thesis by (simp add: a_block_def a_push_def a_set_def)
qed

lemma vinv_yield:
  assumes v: "sched_inv v" "intr_inv (v\<lparr>v_on := b\<rparr>)" "Block_now \<notin> set (v_cont v (v_cur v))" "\<not> v_on v"
    "off_stack (Set_level b # v_cont v (v_cur v))"
  shows "vinv (a_yield b v)"
proof -
  let ?w = "a_push (v_cur v) [Set_level b] (a_set (v_cur v) THREAD_READY
     (if v_cur v = v_idle v then v else v\<lparr>v_ready := v_ready v @ [v_cur v]\<rparr>))"
  have sw: "switch_inv ?w" by (rule yield_switch [OF v(1,3)])
  have "intr_switch ?w"
    using v sched_running [OF v(1)]
    by (intro intr_suspend [OF v(2), of "Set_level b # v_cont v (v_cur v)"]) (auto simp: intr_inv_def a_push_def a_set_def split: if_splits)
  then show ?thesis unfolding a_yield_def using schedule_inv [OF sw] switch_intr [OF sw] by (simp add: vinv_def)
qed

lemma vinv_exit:
  assumes v: "vinv v" "v_cont v (v_cur v) = []" "v_cur v \<noteq> v_idle v"
  shows "vinv (a_exit (v\<lparr>v_on := False, v_all := remove1 (v_cur v) (v_all v)\<rparr>))"
proof -
  let ?u = "v\<lparr>v_on := False, v_all := remove1 (v_cur v) (v_all v)\<rparr>"
  let ?w = "?u\<lparr>v_stat := (v_stat ?u)(v_cur ?u := None), v_cont := (v_cont ?u)(v_cur ?u := [])\<rparr>"
  have sw: "switch_inv ?w" by (rule exit_switch) (use v in \<open>auto simp: vinv_def\<close>)
  have "(\<exists>q. p \<in> set (created (if q = v_cur v then [] else v_cont v q))) \<longleftrightarrow> (\<exists>q. p \<in> set (created (v_cont v q)))" for p
    using v(2) by (metis)
  then have "intr_switch ?w"
    using v vinv_running [OF v(1)] unfolding vinv_def intr_inv_def intr_switch_def suspended_def by auto
  then show ?thesis unfolding a_exit_def using schedule_inv [OF sw] switch_intr [OF sw] by (simp add: vinv_def)
qed

lemma vinv_create:
  assumes v: "vinv v" "v_cont v (v_cur v) = []" "v_cur v \<noteq> v_idle v" "v_on v" and p: "v_stat v p = None"
    and ss: "Block_now \<notin> set ss" "created ss = [p]" "list_all on_seg ss"
  shows "vinv (a_push (v_cur v) ss (a_set p THREAD_BLOCKED (v\<lparr>v_all := v_all v @ [p]\<rparr>)))" (is "vinv ?w")
proof -
  have i: "intr_inv v" and c: "sched_inv v" using v(1) by (simp_all add: vinv_def)
  have pn: "v_cont v p = []" using core_none [OF sched_core [OF c] p] .
  have pc: "p \<noteq> v_cur v" using p sched_running [OF c] by auto
  have s: "sched_inv ?w" using create_inv [of "v\<lparr>v_all := v_all v @ [p]\<rparr>" p ss] c v p ss by simp
  have n: "(\<exists>x. q \<in> set (places ?w (Nascent x))) \<longleftrightarrow> q = p \<or> (\<exists>x. q \<in> set (places v (Nascent x)))" for q
    using ss(2) v(2) by (auto simp: a_push_def a_set_def split: if_splits) (metis created.simps(1) empty_iff empty_set)
  have cont: "q \<noteq> v_cur v \<Longrightarrow> v_cont ?w q = v_cont v q" for q by (simp add: a_push_def a_set_def)
  have "suspended ?w q" if "v_stat ?w q \<noteq> None" "q \<noteq> v_cur v" for q
  proof (cases "q = p")
    case True
    then show ?thesis using pn pc unfolding suspended_def n by (simp add: cont)
  next
    case False
    then have "suspended v q" using that i by (simp add: intr_inv_def a_push_def a_set_def)
    then show ?thesis using that(2) False unfolding suspended_def n by (simp add: cont)
  qed
  then show ?thesis using s i v ss(3) unfolding vinv_def intr_inv_def
    by (auto simp: a_push_def a_set_def split: if_splits)
qed

lemma vinv_start:
  assumes v: "vinv v" "v_on v" "v_cont v (v_cur v) = Create_rest p f # ss"
  shows "vinv (a_unblock p (a_push p [Thread_start f] (a_pop v)))" (is "vinv ?w")
proof -
  have i: "intr_inv v" and c: "sched_inv v" using v(1) by (simp_all add: vinv_def)
  have o: "f \<noteq> NULL" "list_all on_seg ss" using i v by (simp_all add: intr_inv_def)
  have s: "sched_inv ?w" by (rule start_inv [OF c v(3)])
  have nb: "Block_now \<notin> set (v_cont v (v_cur v))"
    using core_window [OF sched_core [OF c], of "v_cur v"] v(3) by (auto simp: sleeping_window_def)
  have pl: "p \<in> set (places v (Nascent (v_cur v)))" by (simp add: v(3))
  have b: "v_stat v p = Some THREAD_BLOCKED" by (rule queued_blocked [OF c nb _ pl]) simp
  then have pc: "p \<noteq> v_cur v" using sched_running [OF c] by auto
  have "suspended v p" using i b pc by (simp add: intr_inv_def)
  then have np: "v_cont v p = []" using pl unfolding suspended_def by (auto split: if_splits)
  have d: "p \<notin> set (created ss)" using place_distinct [OF c, of "Nascent (v_cur v)"] v(3) by simp
  have n: "(\<exists>x. q \<in> set (places ?w (Nascent x))) \<longleftrightarrow> q \<noteq> p \<and> (\<exists>x. q \<in> set (places v (Nascent x)))" for q
  proof (cases "q = p")
    case True
    have "p \<in> set (places v (Nascent x)) \<Longrightarrow> x = v_cur v" for x using place_unique [OF c pl, of "Nascent x"] by auto
    then show ?thesis using True d np v(3) by (auto simp: a_unblock_def a_set_def a_push_def split: if_splits)
  next
    case False
    then have "q \<in> set (places ?w (Nascent x)) \<longleftrightarrow> q \<in> set (places v (Nascent x))" for x
      using v(3) np pc by (simp add: a_unblock_def a_set_def a_push_def)
    then show ?thesis using False by simp
  qed
  have cont: "q \<noteq> v_cur v \<Longrightarrow> q \<noteq> p \<Longrightarrow> v_cont ?w q = v_cont v q" "v_cont ?w p = [Thread_start f]" "v_cont ?w (v_cur v) = ss" for q
    using np v(3) pc by (simp_all add: a_unblock_def a_set_def a_push_def)
  have "suspended ?w q" if "v_stat ?w q \<noteq> None" "q \<noteq> v_cur v" for q
  proof (cases "q = p")
    case True
    then show ?thesis unfolding suspended_def n using o by (simp add: cont)
  next
    case False
    then have "suspended v q" using that i by (simp add: intr_inv_def a_unblock_def a_set_def a_push_def)
    then show ?thesis using that(2) False unfolding suspended_def n by (simp add: cont)
  qed
  moreover have "v_all ?w = v_all v" "v_cond ?w = v_cond v" "v_on ?w" "\<not> v_ext ?w" "v_cur ?w = v_cur v"
    "\<And>q. v_stat ?w q \<noteq> None \<Longrightarrow> v_stat v q \<noteq> None"
    using i v(2) b by (auto simp: intr_inv_def a_unblock_def a_set_def a_push_def split: if_splits)
  ultimately show ?thesis using s i o(2) cont(3) unfolding vinv_def intr_inv_def by simp
qed

lemma vinv_sleep:
  assumes v: "vinv v" "v_cont v (v_cur v) = []" "v_cur v \<noteq> v_idle v" "v_on v" and xs: "v_asleep v = xs @ ys"
  shows "vinv (a_push (v_cur v) [Block_now] (v\<lparr>v_asleep := xs @ v_cur v # ys\<rparr>))"
proof -
  have i: "intr_inv v" and r: "v_stat v (v_cur v) \<noteq> None" using v(1) vinv_running [OF v(1)] by (simp_all add: vinv_def)
  have o: "\<not> v_ext v" "\<And>c. NULL \<notin> set (v_cond v c)" using i by (simp_all add: intr_inv_def)
  have "intr_inv (a_push (v_cur v) [Block_now] (v\<lparr>v_asleep := xs @ v_cur v # ys\<rparr>))"
    by (rule intr_stack [OF i r, where ss = "[Block_now]"]) (use o v in \<open>simp_all add: a_push_def\<close>)
  then show ?thesis using sleep_inv [OF _ v(2,3) xs] v(1) by (simp add: vinv_def)
qed

lemma a_wake_n_sel [simp]:
  "v_cont (a_wake_n m v) = v_cont v" "v_cur (a_wake_n m v) = v_cur v" "v_idle (a_wake_n m v) = v_idle v"
  "v_on (a_wake_n m v) = v_on v" "v_ext (a_wake_n m v) = v_ext v" "v_holder (a_wake_n m v) = v_holder v"
  "v_val (a_wake_n m v) = v_val v"
  by (induction m v rule: a_wake_n.induct) (auto simp: a_unblock_def a_set_def split: list.splits)

lemma a_unblock_ext: "a_unblock p (v\<lparr>v_ext := b, v_asleep := ps\<rparr>) = (a_unblock p (v\<lparr>v_asleep := ps\<rparr>))\<lparr>v_ext := b\<rparr>"
  by (cases v) (simp add: a_unblock_def a_set_def)

lemma a_wake_n_ext: "a_wake_n m (v\<lparr>v_ext := b\<rparr>) = (a_wake_n m v)\<lparr>v_ext := b\<rparr>"
proof (induction m v rule: a_wake_n.induct)
  case (2 m v)
  then show ?case by (cases "v_asleep v") (simp_all add: a_unblock_ext)
qed simp

lemma vinv_wake_n: "vinv v \<Longrightarrow> v_cur v \<notin> set (take m (v_asleep v)) \<Longrightarrow> vinv (a_wake_n m v)"
proof (induction m v rule: a_wake_n.induct)
  case (2 m v)
  show ?case
  proof (cases "v_asleep v")
    case (Cons p ps)
    have "v_stat v p \<noteq> None" using placed_live [of v p Asleep] 2(2) Cons by (simp add: vinv_def)
    then have "vinv (a_unblock p (v\<lparr>v_asleep := ps\<rparr>))"
      using 2(2,3) Cons sleeper_wake_inv [of v p ps] intr_unblock(1) [of v p] by (auto simp: vinv_def)
    then show ?thesis using 2(1) [OF Cons] Cons 2(3) by (simp add: a_unblock_def a_set_def)
  qed (simp add: 2(2))
qed simp

lemma vinv_intr:
  assumes v: "vinv v" "v_on v"
  shows "vinv (a_intr v)"
proof -
  have i: "intr_inv v" and r: "v_stat v (v_cur v) \<noteq> None" and s: "sched_inv v" using v(1) vinv_running [OF v(1)] by (simp_all add: vinv_def)
  have o: "list_all on_seg (v_cont v (v_cur v))" "\<not> v_ext v" "\<And>c. NULL \<notin> set (v_cond v c)"
    using i v(2) by (simp_all add: intr_inv_def)
  have "intr_inv ((a_push (v_cur v) [Intr_return] v)\<lparr>v_on := False\<rparr>)"
    by (rule intr_stack [OF i r, where ss = "Intr_return # v_cont v (v_cur v)"]) (use o in \<open>simp_all add: a_push_def\<close>)
  moreover have "sched_inv (a_push (v_cur v) [Intr_return] v)"
  proof (cases "Block_now \<in> set (v_cont v (v_cur v))")
    case True
    then have "v_cont v (v_cur v) = [Block_now]"
      using core_window [OF sched_core [OF s], of "v_cur v"] o(1) by (auto simp: sleeping_window_def)
    then show ?thesis by (rule push_window [OF s])
  qed (use push_inv [of v "[Intr_return]"] s in simp)
  ultimately show ?thesis by (simp add: vinv_def a_intr_def)
qed

section \<open>The timer interrupt\<close>

lemma sleepers_run:
  assumes "threads_wf k" "vinv v" "sched_view k = v\<lparr>v_ext := e\<rparr>" "\<not> v_on v"
    "v_cur v \<notin> set (takeWhile (\<lambda>p. deadline k p \<le> n) (v_asleep v))"
  obtains m where "runs (unblock_thread_with_enough_ticks n k) ((a_wake_n m v)\<lparr>v_ext := e\<rparr>)" "v_cur v \<notin> set (take m (v_asleep v))"
proof -
  have "\<exists>m. runs (repeated_check_blocked_list n (v_asleep v) k) ((a_wake_n m v)\<lparr>v_ext := e\<rparr>) \<and> v_cur v \<notin> set (take m (v_asleep v))"
    using assms
  proof (induction "v_asleep v" arbitrary: v k)
    case Nil
    then show ?case by (intro exI [of _ 0]) simp
  next
    case (Cons p ps)
    have as: "v_asleep v = p # ps" using Cons(2) by simp
    have ex: "v_stat v p \<noteq> None" using placed_live [of v p Asleep] Cons(4) as by (simp add: vinv_def)
    then obtain t where t: "threads k p = Some t" using arg_cong [OF Cons(5), of "\<lambda>v. v_stat v p"] view_stat [of k p] by auto
    then have d: "deadline k p = blocked_ticks t" by (simp add: deadline_def)
    show ?case
    proof (cases "blocked_ticks t \<le> n")
      case False
      then show ?thesis using t as Cons(3,5) by (intro exI [of _ 0]) simp
    next
      case True
      have pc: "p \<noteq> v_cur v" "v_cur v \<notin> set (takeWhile (\<lambda>p. deadline k p \<le> n) ps)" using Cons(7) as d True by auto
      have st: "v_stat v p = Some THREAD_BLOCKED"
        using core_queued [OF sched_core, of v Asleep p] Cons(4) as pc(1) by (auto simp: vinv_def sleeping_window_def)
      have on: "\<not> intr_on k" using arg_cong [OF Cons(5), of v_on] Cons(6) by simp
      let ?v = "a_unblock p (v\<lparr>v_asleep := ps\<rparr>)"
      have "runs (thread_unblock p (k\<lparr>blocked_list := ps\<rparr>)) (a_unblock p (sched_view (k\<lparr>blocked_list := ps\<rparr>)))"
        using Cons(3,5) st on by (intro unblock_runs) simp_all
      then have "runs (thread_unblock p (k\<lparr>blocked_list := ps\<rparr>)) (?v\<lparr>v_ext := e\<rparr>)" by (simp add: Cons(5) a_unblock_ext)
      then obtain k1 where k1: "thread_unblock p (k\<lparr>blocked_list := ps\<rparr>) = Some k1" "threads_wf k1" "sched_view k1 = ?v\<lparr>v_ext := e\<rparr>"
        by (auto simp: runs_def)
      have dk: "deadline k1 = deadline k" using unblock_frame(1) [OF k1(1)] by (simp add: deadline_def fun_eq_iff)
      have v1: "vinv ?v" using vinv_wake_n [OF Cons(4), of 1] as pc(1) by simp
      have sel: "v_asleep ?v = ps" "v_cur ?v = v_cur v" "v_on ?v = v_on v" by (simp_all add: a_unblock_def a_set_def)
      have "\<exists>m. runs (repeated_check_blocked_list n (v_asleep ?v) k1) ((a_wake_n m ?v)\<lparr>v_ext := e\<rparr>) \<and> v_cur ?v \<notin> set (take m (v_asleep ?v))"
        by (rule Cons(1) [OF _ k1(2) v1 k1(3)]) (use Cons(6) pc(2) dk sel in simp_all)
      then obtain m where "runs (repeated_check_blocked_list n ps k1) ((a_wake_n m ?v)\<lparr>v_ext := e\<rparr>)" "v_cur v \<notin> set (take m ps)"
        unfolding sel by blast
      then show ?thesis using t True k1(1) as pc(1) by (intro exI [of _ "Suc m"]) simp
    qed
  qed
  moreover have "blocked_list k = v_asleep v" using arg_cong [OF assms(3), of v_asleep] by simp
  ultimately show ?thesis using that by (auto simp: unblock_thread_with_enough_ticks_def)
qed

lemma thread_tick_runs:
  assumes "threads_wf k" "v_stat (sched_view k) (cur k) = Some THREAD_RUNNING" "in_external_intr k"
  shows "runs (thread_tick k) (sched_view k)"
proof -
  obtain t where t: "threads k (cur k) = Some t" "thread_current k = Some (cur k)" using current_ok [OF assms(1,2)] by metis
  then show ?thesis using assms(1,3)
    by (simp add: thread_tick_def intr_yield_on_return_def intr_context_def Let_def)
qed

lemma timer_interrupt_runs:
  assumes "threads_wf k" "vinv v" "sched_view k = v\<lparr>v_ext := True\<rparr>" "\<not> v_on v" "v_cur v \<notin> set (due k)"
  obtains m where "runs (timer_interrupt k) ((a_wake_n m v)\<lparr>v_ext := True\<rparr>)" "v_cur v \<notin> set (take m (v_asleep v))"
proof -
  let ?k = "k\<lparr>ticks := s64 (ticks k + 1)\<rparr>"
  have k0: "threads_wf ?k" "sched_view ?k = v\<lparr>v_ext := True\<rparr>" using assms(1,3) by simp_all
  have "v_cur v \<notin> set (takeWhile (\<lambda>p. deadline ?k p \<le> ticks ?k) (v_asleep v))"
    using assms(5) arg_cong [OF assms(3), of v_asleep] by (simp add: due_def deadline_def)
  then obtain m where m: "runs (unblock_thread_with_enough_ticks (ticks ?k) ?k) ((a_wake_n m v)\<lparr>v_ext := True\<rparr>)"
      "v_cur v \<notin> set (take m (v_asleep v))"
    using sleepers_run [OF k0(1) assms(2) k0(2) assms(4)] by blast
  then obtain k1 where k1: "unblock_thread_with_enough_ticks (ticks ?k) ?k = Some k1" "threads_wf k1"
      "sched_view k1 = (a_wake_n m v)\<lparr>v_ext := True\<rparr>"
    by (auto simp: runs_def)
  have c1: "cur k1 = v_cur v" using arg_cong [OF k1(3), of v_cur] by simp
  have r1: "v_stat (sched_view k1) (cur k1) = Some THREAD_RUNNING"
    using vinv_running [OF vinv_wake_n [OF assms(2) m(2)]] by (simp add: k1(3) c1)
  have t1: "thread_current k1 = Some (cur k1)" using current_ok [OF k1(2) r1] by metis
  let ?f = "\<lambda>t. if t_status t = THREAD_RUNNING then t\<lparr>recent_cpu := fp_add_fp_and_int (recent_cpu t) 1\<rparr> else t"
  have "runs (upd_thread (cur k1) ?f k1) (sched_view k1)" by (rule set_field_runs [OF k1(2) r1]) simp_all
  then obtain k2 where k2: "upd_thread (cur k1) ?f k1 = Some k2" "threads_wf k2" "sched_view k2 = sched_view k1"
    by (auto simp: runs_def)
  have c2: "cur k2 = cur k1" "in_external_intr k2"
    using arg_cong [OF k2(3), of v_cur] arg_cong [OF k2(3), of v_ext] arg_cong [OF k1(3), of v_ext] by simp_all
  have "runs (thread_tick k2) (sched_view k2)"
    using r1 c2 by (intro thread_tick_runs k2(2)) (simp_all add: k2(3))
  then show ?thesis using that [of m] m(2) k1(1,3) k2(1,3) t1 by (simp add: timer_interrupt_def)
qed

lemma window_iff:
  assumes "sched_inv v" "v_cont v (v_cur v) \<noteq> [Block_now]" "v_cont v (v_cur v) \<noteq> [Intr_return, Block_now]"
  shows "Block_now \<notin> set (v_cont v (v_cur v))"
  using core_window [OF sched_core [OF assms(1)], of "v_cur v"] assms(2,3) by (auto simp: sleeping_window_def)

text \<open>A timer interrupt that does not find the running thread itself due returns.\<close>

lemma tick_runs:
  assumes k: "kinv k" "intr_on k" "cur k \<notin> set (due k)"
  obtains m where "cur k \<notin> set (take m (blocked_list k))"
    "runs (do_action Tick k) (if TIME_SLICE \<le> thread_ticks k + 1 then a_yield False (a_wake_n m (a_intr (sched_view k)))
      else a_wake_n m (a_intr (sched_view k)))"
proof -
  let ?v = "sched_view k"
  have v: "threads_wf k" "vinv ?v" "v_on ?v" using k by (simp_all add: kinv_def vinv_def)
  define u where "u = a_intr ?v"
  have u: "vinv u" unfolding u_def by (rule vinv_intr [OF v(2,3)])
  have ux: "\<not> v_ext u" "\<not> v_on u" "v_cur u = cur k" "v_asleep u = blocked_list k"
    using u by (simp_all add: vinv_def intr_inv_def u_def a_intr_def a_push_def)
  have r: "v_stat ?v (cur k) = Some THREAD_RUNNING" using vinv_running [OF v(2)] by simp
  have t: "thread_current k = Some (cur k)" using current_ok [OF v(1) r] by metis
  obtain k1 where k1: "push_cont (cur k) [Intr_return] (k\<lparr>intr_on := False\<rparr>) = Some k1" "threads_wf k1"
      "sched_view k1 = a_push (cur k) [Intr_return] (?v\<lparr>v_on := False\<rparr>)"
    using push_runs [of "k\<lparr>intr_on := False\<rparr>" "cur k" THREAD_RUNNING "[Intr_return]"] v(1) r by (auto simp: runs_def)
  have vu: "sched_view k1 = u" unfolding k1(3) u_def a_intr_def by (simp add: a_push_def)
  have e1: "\<not> intr_on k1" "\<not> in_external_intr k1" using ux unfolding vu [symmetric] by simp_all
  let ?k2 = "k1\<lparr>in_external_intr := True, yield_on_return := False\<rparr>"
  have k1': "deadline k1 = deadline k" "ticks k1 = ticks k" "blocked_list k1 = blocked_list k" "thread_ticks k1 = thread_ticks k"
    using upd_frame [OF k1(1) [unfolded push_cont_def]] by (simp_all add: deadline_def fun_eq_iff)
  have "v_cur u \<notin> set (due ?k2)" using k(3) k1'(1-3) by (simp add: due_def ux(3) deadline_def fun_eq_iff)
  then obtain m where m: "runs (timer_interrupt ?k2) ((a_wake_n m u)\<lparr>v_ext := True\<rparr>)" "v_cur u \<notin> set (take m (v_asleep u))"
    using timer_interrupt_runs [of ?k2 u] k1(2) u vu ux by auto
  then obtain k3 where k3: "timer_interrupt ?k2 = Some k3" "threads_wf k3" "sched_view k3 = (a_wake_n m u)\<lparr>v_ext := True\<rparr>"
    by (auto simp: runs_def)
  have e3: "\<not> intr_on k3" "in_external_intr k3"
    using arg_cong [OF k3(3), of v_on] arg_cong [OF k3(3), of v_ext] ux by simp_all
  let ?k4 = "k3\<lparr>in_external_intr := False\<rparr>" and ?w = "a_wake_n m u"
  have w: "sched_inv ?w" using vinv_wake_n [OF u m(2)] by (simp add: vinv_def)
  have v4: "sched_view ?k4 = ?w" using k3(3) ux a_wake_n_sel(5) [of m u] by simp
  have yi: "yield_on_return k3 \<longleftrightarrow> TIME_SLICE \<le> thread_ticks k + 1" using timer_interrupt_yield [OF k3(1)] k1'(4) by simp
  have "runs (thread_yield ?k4) (a_yield (intr_on ?k4) ((sched_view ?k4)\<lparr>v_on := False\<rparr>))"
    using k3(2) w v4 by (intro yield_runs) simp_all
  moreover have "?w\<lparr>v_on := False\<rparr> = ?w" using a_wake_n_sel(4) [of m u] ux by simp
  ultimately have "runs (thread_yield ?k4) (a_yield False ?w)" using v4 e3 by simp
  moreover have "runs (Some ?k4) ?w" using k3(2) v4 by simp
  moreover have "do_action Tick k = (if yield_on_return k3 then thread_yield ?k4 else Some ?k4)"
    using t k1(1) k3(1) e1 e3 by (simp add: external_interrupt_def intr_get_level_def intr_context_def Let_def)
  ultimately show ?thesis using that [of m] m(2) ux(3,4) yi by (simp add: u_def)
qed

lemma tick_goes:
  assumes k: "kinv k" "enabled Tick k" "\<not> race Tick k"
  shows "goes (vact Tick (sched_view k)) (do_action Tick k)"
proof -
  let ?v = "sched_view k"
  have v: "vinv ?v" "v_on ?v" "sched_inv ?v" using k by (simp_all add: kinv_def vinv_def)
  have sv: "stack_of k = v_cont ?v (v_cur ?v)" using stack_view [OF v(3)] by simp
  have on: "list_all on_seg (v_cont ?v (v_cur ?v))" using v(1,2) by (simp add: vinv_def intr_inv_def)
  have nb: "Block_now \<notin> set (v_cont ?v (v_cur ?v))" if "stack_of k \<noteq> [Block_now]"
    using that on sv by (intro window_iff v(3)) auto
  define u where "u = a_intr ?v"
  have u: "vinv u" unfolding u_def by (rule vinv_intr [OF v(1,2)])
  have ux: "\<not> v_ext u" "\<not> v_on u" "v_cur u = cur k" "v_asleep u = blocked_list k"
    using u by (simp_all add: vinv_def intr_inv_def u_def a_intr_def a_push_def)
  have "cur k \<notin> set (due k)"
  proof (cases "stack_of k = [Block_now]")
    case False
    then show ?thesis using cur_nowhere [OF v(3) nb [OF False], of Asleep] by (auto simp: due_def dest: set_takeWhileD)
  qed (use k(3) in \<open>simp add: race_def\<close>)
  then obtain m where m: "cur k \<notin> set (take m (blocked_list k))"
    "runs (do_action Tick k) (if TIME_SLICE \<le> thread_ticks k + 1 then a_yield False (a_wake_n m u) else a_wake_n m u)"
    using tick_runs [OF k(1)] k(2) unfolding u_def by (metis enabled.simps(2))
  have w: "vinv (a_wake_n m u)" using vinv_wake_n [OF u] m(1) ux(3,4) by simp
  show ?thesis
  proof (cases "TIME_SLICE \<le> thread_ticks k + 1")
    case False
    then show ?thesis using goes_vinv [of "do_action Tick k" "a_wake_n m u" "vact Tick ?v"] w m(2) va_tick [of ?v m] by (simp add: u_def)
  next
    case True
    then have "stack_of k \<noteq> [Block_now]" using k(3) by (simp add: race_def)
    from nb [OF this] have un: "Block_now \<notin> set (v_cont u (v_cur u))" by (simp add: u_def a_intr_def a_push_def)
    have "off_stack (Set_level False # v_cont u (v_cur u))"
      using on by (simp add: u_def a_intr_def a_push_def)
    moreover have "(a_wake_n m u)\<lparr>v_on := False\<rparr> = a_wake_n m u" using a_wake_n_sel(4) [of m u] ux by simp
    then have "intr_inv ((a_wake_n m u)\<lparr>v_on := False\<rparr>)" using w by (simp add: vinv_def)
    ultimately have "vinv (a_yield False (a_wake_n m u))" using w un ux by (intro vinv_yield) (simp_all add: vinv_def)
    then show ?thesis using True m(2) va_tick_yield [of ?v m] goes_vinv [of "do_action Tick k"] by (simp add: u_def)
  qed
qed

end
