(* ===== verification/Kstep_Safe.thy ===== *)
theory Kstep_Safe
  imports Kstep_Inv
begin

text \<open>
  The calls and the segments one by one, and the theorems about all reachable states.
\<close>

section \<open>Calls\<close>

definition keeps :: "(sview \<Rightarrow> bool) \<Rightarrow> kernel option \<Rightarrow> bool" where
  "keeps R m \<longleftrightarrow> (\<forall>k'. m = Some k' \<longrightarrow> kinv k' \<and> R (sched_view k'))"

lemma goes_keeps: "goes R m \<Longrightarrow> keeps R m"
  by (auto simp: goes_def keeps_def)

text \<open>A thread that is not the idle thread and not in the middle of \<open>timer_sleep\<close>, with interrupts on.\<close>

definition callable :: "kernel \<Rightarrow> bool" where
  "callable k \<longleftrightarrow> kinv k \<and> intr_on k \<and> Block_now \<notin> set (stack_of k) \<and> cur k \<noteq> idle_thread k"

lemma callableD:
  assumes "callable k"
  shows "threads_wf k" "vinv (sched_view k)" "intr_on k" "Block_now \<notin> set (v_cont (sched_view k) (cur k))"
    "cur k \<noteq> idle_thread k" "v_stat (sched_view k) (cur k) = Some THREAD_RUNNING" "thread_current k = Some (cur k)"
    "\<not> in_external_intr k" "sched_inv (sched_view k)" "cur k \<noteq> NULL"
proof -
  show 1: "threads_wf k" "vinv (sched_view k)" "intr_on k" "sched_inv (sched_view k)" "cur k \<noteq> idle_thread k"
    "\<not> in_external_intr k"
    using assms by (auto simp: callable_def kinv_def vinv_def intr_inv_def)
  show "Block_now \<notin> set (v_cont (sched_view k) (cur k))" using assms stack_view [OF 1(4)] by (simp add: callable_def)
  show r: "v_stat (sched_view k) (cur k) = Some THREAD_RUNNING" using vinv_running [OF 1(2)] by simp
  show "thread_current k = Some (cur k)" "cur k \<noteq> NULL" using current_ok [OF 1(1) r] by metis+
qed

lemma call_down: "callable k \<Longrightarrow> s \<noteq> NULL \<Longrightarrow> goes (vseg (Sema_down s) (sched_view k)) (sema_down s k)"
  using sema_down_runs [of k s] vinv_down [of "sched_view k" s] callableD [of k]
  by (auto simp: a_sema_down_def intro!: goes_vinv vs_down)

lemma up_goes:
  assumes "kinv k" "intr_on k" "Block_now \<notin> set (stack_of k)" "s \<noteq> NULL"
  shows "goes (vseg (Sema_up s) (sched_view k)) (sema_up s k)"
  using assms sema_up_runs [of k s] vinv_up [of "sched_view k" s] stack_view [of k]
  by (auto simp: kinv_def vinv_def intr_inv_def intro!: goes_vinv vs_up)

lemma call_push:
  assumes "callable k" "list_all on_seg ss" "Block_now \<notin> set ss" "created ss = []"
    and k': "threads_wf k'" "sched_view k' = sched_view k"
  shows "goes (\<lambda>v. v = a_push (cur k) ss (sched_view k)) (push_cont (cur k) ss k')"
proof -
  have "runs (push_cont (cur k) ss k') (a_push (cur k) ss (sched_view k))"
    using push_runs [OF k'(1), of "cur k" THREAD_RUNNING ss] callableD(6) [OF assms(1)] k'(2) by simp
  moreover have "vinv (a_push (cur k) ss (sched_view k))"
    using vinv_push [of "sched_view k" ss] callableD [OF assms(1)] assms(2-4) by simp
  ultimately show ?thesis by (rule goes_vinv) simp
qed

lemma push_holder: "push_cont p ss (k\<lparr>lock_holder := h\<rparr>) = map_option (\<lambda>k. k\<lparr>lock_holder := h\<rparr>) (push_cont p ss k)"
  by (auto simp: push_cont_def upd_thread_def split: option.splits)

lemma kinv_holder [simp]: "kinv (k\<lparr>lock_holder := h\<rparr>) = kinv k"
  by (simp add: kinv_def intr_inv_def suspended_def)

lemma lock_acquire_eq:
  "callable k \<Longrightarrow> lock_acquire l k = (if l = NULL then None else if lock_holder k l = cur k then Some k
     else Option.bind (list_push_back (kheap k) (locks_list (cur k)) (lock_elem l))
       (\<lambda>h. push_cont (cur k) [Sema_down (lock_sema l), Lock_taken l] (k\<lparr>kheap := h\<rparr>)))"
  using callableD(7,8) [of k] by (simp add: lock_acquire_def lock_held_by_current_thread_def intr_context_def)

lemma lock_release_eq:
  "callable k \<Longrightarrow> lock_release l k = (if l = NULL \<or> lock_holder k l \<noteq> cur k then None
     else Option.bind (list_remove (kheap k) (lock_elem l))
       (\<lambda>(_, h). map_option (\<lambda>k'. k'\<lparr>lock_holder := (lock_holder k)(l := NULL)\<rparr>)
          (push_cont (cur k) [Sema_up (lock_sema l)] (k\<lparr>kheap := h\<rparr>))))"
  using callableD(7,8) [of k]
  by (simp add: lock_release_def lock_held_by_current_thread_def push_holder split: prod.splits)

lemma keeps_bind: "(\<And>x. m = Some x \<Longrightarrow> keeps R (f x)) \<Longrightarrow> keeps R (Option.bind m f)"
  by (auto simp: keeps_def ret_simps)

lemma keeps_simps [simp]: "keeps R None" "keeps R (Some k) \<longleftrightarrow> kinv k \<and> R (sched_view k)"
  by (simp_all add: keeps_def)

lemma keeps_holder:
  "keeps (\<lambda>v. R (v\<lparr>v_holder := h\<rparr>)) m \<Longrightarrow> keeps R (map_option (\<lambda>k. k\<lparr>lock_holder := h\<rparr>) m)"
  by (auto simp: keeps_def)

lemma keeps_mono: "keeps R m \<Longrightarrow> (\<And>v. R v \<Longrightarrow> S v) \<Longrightarrow> keeps S m"
  by (auto simp: keeps_def)

lemma call_acquire:
  assumes "callable k"
  shows "keeps (vseg (Lock_acquire l) (sched_view k)) (lock_acquire l k)"
proof -
  let ?R = "vseg (Lock_acquire l) (sched_view k)" and ?ss = "[Sema_down (lock_sema l), Lock_taken l]"
  have "keeps ?R (push_cont (cur k) ?ss (k\<lparr>kheap := h\<rparr>))" if h: "lock_holder k l \<noteq> cur k" for h
  proof (rule keeps_mono, rule goes_keeps, rule call_push [OF assms])
    show "?R v" if "v = a_push (cur k) ?ss (sched_view k)" for v
      using that vs_acquire [of "sched_view k" l] h by simp
  qed (use callableD(1) [OF assms] in \<open>simp_all add: lock_sema_def\<close>)
  then show ?thesis unfolding lock_acquire_eq [OF assms] using assms vs_held [of "sched_view k" l]
    by (auto intro!: keeps_bind simp: callable_def)
qed

lemma call_taken: "kinv k \<Longrightarrow> keeps (vseg (Lock_taken l) (sched_view k)) (lock_taken l k)"
  using vs_taken [of l "sched_view k"]
  by (auto simp: keeps_def lock_taken_def ret_simps thread_current_def running_thread_def Let_def)

lemma call_release:
  assumes "callable k"
  shows "keeps (vseg (Lock_release l) (sched_view k)) (lock_release l k)"
proof -
  let ?h = "(lock_holder k)(l := NULL)" and ?ss = "[Sema_up (lock_sema l)]"
  let ?R = "\<lambda>v. vseg (Lock_release l) (sched_view k) (v\<lparr>v_holder := ?h\<rparr>)"
  have "keeps ?R (push_cont (cur k) ?ss (k\<lparr>kheap := h\<rparr>))" if h: "lock_holder k l = cur k" for h
  proof (rule keeps_mono, rule goes_keeps, rule call_push [OF assms])
    show "?R v" if "v = a_push (cur k) ?ss (sched_view k)" for v
      using that vs_release [of "sched_view k" l] h by simp
  qed (use callableD(1) [OF assms] in \<open>simp_all add: lock_sema_def\<close>)
  then show ?thesis unfolding lock_release_eq [OF assms] by (auto intro!: keeps_bind keeps_holder)
qed

lemma call_yield: "callable k \<Longrightarrow> stack_of k = [] \<Longrightarrow> goes (vcall Call_yield (sched_view k)) (thread_yield k)"
proof -
  assume k: "callable k" "stack_of k = []"
  let ?v = "sched_view k"
  have c: "v_cont ?v (cur k) = []" using k(2) stack_view [OF callableD(9) [OF k(1)]] by simp
  have e: "?v\<lparr>v_on := True\<rparr> = ?v" using callableD(3) [OF k(1)] by simp
  have "runs (thread_yield k) (a_yield True (?v\<lparr>v_on := False\<rparr>))"
    using yield_runs [of k] callableD [OF k(1)] by simp
  moreover have "intr_inv ((?v\<lparr>v_on := False\<rparr>)\<lparr>v_on := True\<rparr>)"
    using callableD(2) [OF k(1)] by (simp add: vinv_def e)
  then have "vinv (a_yield True (?v\<lparr>v_on := False\<rparr>))"
    using c callableD [OF k(1)] by (intro vinv_yield) (simp_all)
  ultimately show ?thesis by (rule goes_vinv) (rule vc_yield)
qed

lemma call_exit: "callable k \<Longrightarrow> stack_of k = [] \<Longrightarrow> goes (vcall Call_exit (sched_view k)) (thread_exit k)"
proof -
  assume k: "callable k" "stack_of k = []"
  let ?v = "sched_view k"
  have c: "v_cont ?v (cur k) = []" using k(2) stack_view [OF callableD(9) [OF k(1)]] by simp
  have "cur k \<in> set (all_list k)" using callableD(2,6) [OF k(1)] by (simp add: vinv_def intr_inv_def)
  then have "runs (thread_exit k) (a_exit (?v\<lparr>v_on := False, v_all := remove1 (cur k) (all_list k)\<rparr>))"
    using exit_runs [of k] callableD [OF k(1)] c by simp
  then show ?thesis using vinv_exit [of ?v] callableD [OF k(1)] c vc_exit [of ?v] by (auto intro: goes_vinv)
qed

lemma call_sleep: "callable k \<Longrightarrow> stack_of k = [] \<Longrightarrow> goes (vcall (Call_sleep n) (sched_view k)) (timer_sleep n k)"
proof -
  assume k: "callable k" "stack_of k = []"
  let ?v = "sched_view k" and ?f = "\<lambda>t. t\<lparr>blocked_ticks := s64 (n + ticks k)\<rparr>"
  have c: "v_cont ?v (cur k) = []" using k(2) stack_view [OF callableD(9) [OF k(1)]] by simp
  have "runs (upd_thread (cur k) ?f k) ?v" by (rule set_field_runs [OF callableD(1,6) [OF k(1)]]) simp_all
  then obtain k1 where k1: "upd_thread (cur k) ?f k = Some k1" "threads_wf k1" "sched_view k1 = ?v" by (auto simp: runs_def)
  have e: "blocked_list k1 = blocked_list k" using arg_cong [OF k1(3), of v_asleep] by simp
  let ?P = "\<lambda>q. \<not> compare_thread k1 (cur k) q"
  let ?xs = "takeWhile ?P (blocked_list k)" and ?ys = "dropWhile ?P (blocked_list k)"
  let ?k2 = "k1\<lparr>blocked_list := ?xs @ cur k # ?ys\<rparr>"
  have "runs (push_cont (cur k) [Block_now] ?k2) (a_push (cur k) [Block_now] (sched_view ?k2))"
    using push_runs [of ?k2 "cur k" THREAD_RUNNING] k1 callableD(6) [OF k(1)] by simp
  moreover have "vinv (a_push (cur k) [Block_now] (sched_view ?k2))"
    using vinv_sleep [of ?v ?xs ?ys] callableD [OF k(1)] c k1(3) by simp
  moreover have "vcall (Call_sleep n) ?v (a_push (cur k) [Block_now] (sched_view ?k2))"
    using vc_sleep [of ?v ?xs ?ys n] k1(3) by simp
  ultimately have "goes (vcall (Call_sleep n) ?v) (push_cont (cur k) [Block_now] ?k2)" by (rule goes_vinv)
  then show ?thesis using callableD(3,7) [OF k(1)] k1(1) e
    by (simp add: timer_sleep_def timer_ticks_def intr_get_level_def set_thread_blocked_ticks_def Let_def)
qed

lemma call_set_priority: "callable k \<Longrightarrow> goes (vcall (Call_set_priority n) (sched_view k)) (thread_set_priority n k)"
proof -
  assume k: "callable k"
  have "runs (upd_thread (cur k) (\<lambda>t. t\<lparr>t_priority := n\<rparr>) k) (sched_view k)"
    by (rule set_field_runs [OF callableD(1,6) [OF k]]) simp_all
  then show ?thesis using callableD(2,7) [OF k] goes_vinv vc_priority by (simp add: thread_set_priority_def)
qed

lemma suspended_cond [simp]: "suspended (v\<lparr>v_cond := ww\<rparr>) p = suspended v p" "suspended (v\<lparr>v_val := z\<rparr>) p = suspended v p"
  by (simp_all add: suspended_def)

lemma kinv_cond: "kinv k \<Longrightarrow> (\<And>c. NULL \<notin> set (ww c)) \<Longrightarrow> kinv (k\<lparr>cond_waiters := ww\<rparr>)"
  by (simp add: kinv_def intr_inv_def cong: if_cong)

lemma stack_frame [simp]: "stack_of (k\<lparr>cond_waiters := ww\<rparr>) = stack_of k" "stack_of (upd_sema s f k) = stack_of k"
  by (simp_all add: stack_of_def upd_sema_def)

lemma callable_cond: "callable k \<Longrightarrow> (\<And>c. NULL \<notin> set (ww c)) \<Longrightarrow> callable (k\<lparr>cond_waiters := ww\<rparr>)"
  using kinv_cond [of k ww] by (simp add: callable_def)

lemma cond_nonnull: "callable k \<Longrightarrow> NULL \<notin> set (cond_waiters k c)"
  by (simp add: callable_def kinv_def intr_inv_def)

lemma sema_init_callable:
  assumes "callable k" "waiters (semas k w) = []" "sema_init w n k = Some k1"
  shows "callable k1" "cond_waiters k1 = cond_waiters k" "cur k1 = cur k"
    "sched_view k1 = (sched_view k)\<lparr>v_val := (v_val (sched_view k))(w := n)\<rparr>"
proof -
  have k1: "k1 = upd_sema w (\<lambda>_. \<lparr>sema_value = n, waiters = []\<rparr>) k" using assms(3) by (simp add: sema_init_def ret_simps)
  show v1: "sched_view k1 = (sched_view k)\<lparr>v_val := (v_val (sched_view k))(w := n)\<rparr>"
    unfolding k1 using assms(2) by (simp add: view_sema fun_upd_idem)
  then have "kinv k1" using assms(1) by (simp add: callable_def kinv_def k1 intr_inv_def cong: if_cong)
  then show "callable k1" "cond_waiters k1 = cond_waiters k" "cur k1 = cur k"
    using assms(1) by (simp_all add: callable_def k1) (simp add: upd_sema_def)
qed

lemma call_wait: "callable k \<Longrightarrow> waiters (semas k w) = [] \<Longrightarrow>
  keeps (vcall (Call_wait c l w) (sched_view k)) (cond_wait c l w k)"
proof -
  assume k: "callable k" "waiters (semas k w) = []"
  show ?thesis
  proof (cases "l = NULL \<or> c = NULL \<or> w = NULL \<or> lock_holder k l \<noteq> cur k")
    case True
    then show ?thesis using callableD(7) [OF k(1)]
      by (auto simp: cond_wait_def lock_held_by_current_thread_def sema_init_def)
  next
    case False
    obtain k1 where k1: "sema_init w 0 k = Some k1" using False by (simp add: sema_init_def)
    note c1 = sema_init_callable [OF k this]
    let ?k2 = "k1\<lparr>cond_waiters := (cond_waiters k1)(c := cond_waiters k1 c @ [w])\<rparr>"
    let ?ss = "[Lock_release l, Sema_down w, Lock_acquire l]"
    have "callable ?k2" using cond_nonnull [OF c1(1)] False by (intro callable_cond c1(1)) auto
    then have "goes (\<lambda>v. v = a_push (cur ?k2) ?ss (sched_view ?k2)) (push_cont (cur ?k2) ?ss ?k2)"
      using False callableD(1) [of ?k2] by (intro call_push) auto
    then have "keeps (vcall (Call_wait c l w) (sched_view k)) (push_cont (cur k1) ?ss ?k2)"
      using vc_wait [of "sched_view k" l c w] False c1(2-4) by (auto simp: goes_def keeps_def)
    then show ?thesis using False callableD(7,8) [OF k(1)] callableD(7) [OF c1(1)] k1
      by (simp add: cond_wait_def lock_held_by_current_thread_def intr_context_def)
  qed
qed

definition signalled :: "ptr \<Rightarrow> sview \<Rightarrow> sview \<Rightarrow> bool" where
  "signalled c v v' \<longleftrightarrow> (case v_cond v c of [] \<Rightarrow> v' = v
     | w # ws \<Rightarrow> v' = a_push (v_cur v) [Sema_up w] (v\<lparr>v_cond := (v_cond v)(c := ws)\<rparr>))"

lemma call_signal: "callable k \<Longrightarrow> keeps (signalled c (sched_view k)) (cond_signal c l k)"
proof -
  assume k: "callable k"
  show ?thesis
  proof (cases "cond_waiters k c")
    case Nil
    then show ?thesis using k by (auto simp: keeps_def cond_signal_def ret_simps callable_def signalled_def)
  next
    case (Cons w ws)
    let ?k = "k\<lparr>cond_waiters := (cond_waiters k)(c := ws)\<rparr>"
    have "callable ?k" using cond_nonnull [OF k] cond_nonnull [OF k, of c] Cons by (intro callable_cond k) auto
    then have "goes (\<lambda>v. v = a_push (cur ?k) [Sema_up w] (sched_view ?k)) (push_cont (cur ?k) [Sema_up w] ?k)"
      using cond_nonnull [OF k, of c] Cons callableD(1) [of ?k] by (intro call_push) auto
    then have "keeps (signalled c (sched_view k)) (push_cont (cur k) [Sema_up w] ?k)"
      using Cons by (auto simp: goes_def keeps_def signalled_def)
    then show ?thesis using Cons callableD(7) [OF k] unfolding keeps_def by (auto simp: cond_signal_def ret_simps)
  qed
qed

lemma goes_callable:
  assumes "callable k" "push_cont (cur k) ss k = Some k1" "kinv k1" "Block_now \<notin> set ss"
  shows "callable k1"
proof -
  have "cur k1 = cur k" "intr_on k1 = intr_on k" "idle_thread k1 = idle_thread k" "stack_of k1 = ss @ stack_of k"
    using assms(2) by (auto simp: push_cont_def upd_thread_def stack_of_def split: option.splits)
  then show ?thesis using assms by (auto simp: callable_def)
qed

lemma signalled_call: "signalled c v v' \<Longrightarrow> vcall (Call_signal c l) v v'"
  by (auto simp: signalled_def split: list.splits intro: vc_no_signal vc_signal)

lemma signalled_broadcast:
  assumes "v_cond v c \<noteq> []" "signalled c (a_push (v_cur v) [Broadcast c l] v) v'"
  shows "vseg (Broadcast c l) v v'"
proof -
  obtain w ws where w: "v_cond v c = w # ws" using assms(1) by (cases "v_cond v c") auto
  then have "v' = a_push (v_cur v) [Sema_up w, Broadcast c l] (v\<lparr>v_cond := (v_cond v)(c := ws)\<rparr>)"
    using assms(2) by (cases v) (simp add: signalled_def a_push_def)
  then show ?thesis using vs_broadcast [OF w] by simp
qed

lemma call_broadcast: "callable k \<Longrightarrow> keeps (vseg (Broadcast c l) (sched_view k)) (cond_broadcast c l k)"
proof -
  assume k: "callable k"
  show ?thesis
  proof (cases "c = NULL \<or> l = NULL \<or> cond_waiters k c = []")
    case True
    then show ?thesis using k vs_done [of "sched_view k" c l]
      by (auto simp: cond_broadcast_def callable_def keeps_def ret_simps)
  next
    case False
    have "goes (\<lambda>v. v = a_push (cur k) [Broadcast c l] (sched_view k)) (push_cont (cur k) [Broadcast c l] k)"
      using callableD(1) [OF k] by (intro call_push k) auto
    then obtain k1 where k1: "push_cont (cur k) [Broadcast c l] k = Some k1" "kinv k1"
        "sched_view k1 = a_push (cur k) [Broadcast c l] (sched_view k)"
      by (auto simp: goes_def)
    have "keeps (signalled c (sched_view k1)) (cond_signal c l k1)"
      using goes_callable [OF k k1(1,2)] by (intro call_signal) simp
    then have "keeps (vseg (Broadcast c l) (sched_view k)) (cond_signal c l k1)"
      using signalled_broadcast [of "sched_view k" c l] False k1(3) by (auto intro: keeps_mono)
    then show ?thesis using False callableD(7) [OF k] k1 by (simp add: cond_broadcast_def)
  qed
qed

lemma call_create:
  assumes k: "callable k" "stack_of k = []" and p: "threads k p = None"
  shows "keeps (vcall (Call_create l p name pri f) (sched_view k)) (map_option snd (thread_create l p name pri f k))"
proof (cases "f = NULL \<or> p = NULL \<or> \<not> (PRI_MIN \<le> pri \<and> pri \<le> PRI_MAX)")
  case True
  then show ?thesis using k(1) vc_no_create
    by (auto simp: thread_create_def init_thread_def callable_def keeps_def ret_simps)
next
  case False
  let ?v = "sched_view k" and ?ss = "[Lock_acquire l, Take_tid p, Lock_release l, Create_rest p f]"
  have c: "v_cont ?v (cur k) = []" using k(2) stack_view [OF callableD(9) [OF k(1)]] by simp
  have "cur k \<in> set (all_list k)" using callableD(2,6) [OF k(1)] by (simp add: vinv_def intr_inv_def)
  then have ne: "all_list k \<noteq> []" by auto
  define t where "t = \<lparr>t_tid = 0, t_status = THREAD_BLOCKED, t_name = take 15 name, t_stack = p + pgsize,
       t_priority = pri, blocked_ticks = 0, t_nice = 0, recent_cpu = 0, t_pagedir = NULL,
       t_parent = cur k, in_syscall = False, t_magic = THREAD_MAGIC, t_cont = []\<rparr>"
  obtain h where h: "list_init (kheap k) (locks_list p) = Some h" by (simp add: list_init_def locks_list_def)
  have i: "init_thread p name pri k = Some (k\<lparr>threads := (threads k)(p \<mapsto> t), kheap := h, all_list := all_list k @ [p]\<rparr>)"
      "t_status t = THREAD_BLOCKED" "t_magic t = THREAD_MAGIC" "t_cont t = []"
    using False callableD(7) [OF k(1)] ne h by (simp_all add: init_thread_def t_def)
  let ?k = "k\<lparr>threads := (threads k)(p \<mapsto> t), kheap := h, all_list := all_list k @ [p]\<rparr>"
  have wf: "threads_wf ?k" using wf_threads [OF callableD(1) [OF k(1)], of p t] False i(3) by simp
  have pn: "v_stat ?v p = None" "v_cont ?v p = []" using p by (simp_all add: sched_view_def live_def)
  have v: "sched_view ?k = a_set p THREAD_BLOCKED (?v\<lparr>v_all := v_all ?v @ [p]\<rparr>)"
    using i(2,4) pn(2) by (simp add: view_threads a_set_def fun_upd_idem)
  have pc: "p \<noteq> cur k" using pn(1) callableD(6) [OF k(1)] by auto
  have st: "v_stat (sched_view ?k) (cur k) = Some THREAD_RUNNING"
    unfolding v using callableD(6) [OF k(1)] pc by (simp add: a_set_def)
  have "thread_current ?k = Some (cur k)" using current_ok [OF wf] st by (simp add: thread_current_def) (metis option.inject)
  moreover have "runs (push_cont (cur k) ?ss ?k) (a_push (cur k) ?ss (sched_view ?k))" by (rule push_runs [OF wf st])
  moreover have "vinv (a_push (cur k) ?ss (sched_view ?k))" unfolding v
    using vinv_create [of ?v p ?ss] callableD [OF k(1)] c pn(1) False by simp
  moreover have "vcall (Call_create l p name pri f) ?v (a_push (cur k) ?ss (sched_view ?k))" unfolding v
    using vc_create [of ?v p l name pri f] pn(1) by simp
  ultimately have "keeps (vcall (Call_create l p name pri f) ?v) (push_cont (cur k) ?ss ?k)" "thread_current ?k = Some (cur k)"
    using goes_keeps goes_vinv by blast+
  then show ?thesis using False i(1) by (auto simp: thread_create_def keeps_def ret_simps)
qed

section \<open>Segments\<close>

lemma resume_on:
  assumes k: "kinv k" "stack_of k = s # ss" "intr_on k" "s \<noteq> Block_now" "created [s] = []"
  obtains k1 where "resume k = run_seg s k1" "kinv k1" "intr_on k1" "Block_now \<notin> set (stack_of k1)"
    "cur k \<noteq> idle_thread k \<longrightarrow> callable k1" "sched_view k1 = a_pop (sched_view k)"
proof -
  let ?v = "sched_view k"
  have v: "threads_wf k" "vinv ?v" "sched_inv ?v" using k(1) by (simp_all add: kinv_def vinv_def)
  have st: "v_cont ?v (v_cur ?v) = s # ss" using k(2) stack_view [OF v(3)] by simp
  obtain k1 where k1: "resume k = run_seg s k1" "threads_wf k1" "sched_view k1 = a_pop ?v"
    using resume_pop [OF v(1,3) k(2)] by metis
  have i: "vinv (a_pop ?v)" using vinv_pop [OF v(2) _ st k(4,5)] k(3) by simp
  have p: "kinv k1" using i k1(2,3) by (simp add: kinv_def vinv_def)
  have q: "intr_on k1" "cur k1 = cur k" "idle_thread k1 = idle_thread k"
    using arg_cong [OF k1(3), of v_on] arg_cong [OF k1(3), of v_cur] arg_cong [OF k1(3), of v_idle] k(3) by simp_all
  have "sched_inv (sched_view k1)" using i k1(3) by (simp add: vinv_def)
  then have "stack_of k1 = ss" using stack_view [of k1] k1(3) q st by simp
  moreover have "Block_now \<notin> set (s # ss)"
    using window_iff [OF v(3)] st v(2) k(3,4) by (cases "s = Intr_return") (auto simp: vinv_def intr_inv_def)
  ultimately show ?thesis using that [OF k1(1) p q(1)] p q k1(3) by (simp add: callable_def)
qed

lemma not_idle_stack: "kinv k \<Longrightarrow> stack_of k = s # ss \<Longrightarrow> \<not> idle_seg s \<Longrightarrow> cur k \<noteq> idle_thread k"
  using core_idle(3) [OF sched_core, of "sched_view k" s] stack_view [of k] by (auto simp: kinv_def)

lemma resume_down_test:
  assumes k: "kinv k" "stack_of k = Down_test s True # ss" "\<not> intr_on k"
  shows "goes (vact Resume (sched_view k)) (resume k)"
proof -
  let ?v = "sched_view k"
  have v: "threads_wf k" "vinv ?v" "sched_inv ?v" "intr_inv ?v" using k(1) by (simp_all add: kinv_def vinv_def)
  have st: "v_cont ?v (v_cur ?v) = Down_test s True # ss" using k(2) stack_view [OF v(3)] by simp
  obtain k1 where k1: "resume k = run_seg (Down_test s True) k1" "threads_wf k1" "sched_view k1 = a_pop ?v"
    using resume_pop [OF v(1,3) k(2)] by metis
  have ni: "cur k \<noteq> idle_thread k" using not_idle_stack [OF k(1,2)] by simp
  have s1: "sched_inv (a_pop ?v)" using pop_inv [OF v(3) st] by simp
  have nb: "Block_now \<notin> set (Down_test s True # ss)" using window_iff [OF v(3)] st by auto
  have on: "vinv ((a_pop ?v)\<lparr>v_on := True\<rparr>)"
  proof -
    have "intr_inv ((a_pop ?v)\<lparr>v_on := True\<rparr>)"
      using v(4) st k(3) sched_running [OF v(3)]
      by (intro intr_stack [OF v(4), where ss = ss]) (auto simp: intr_inv_def)
    then show ?thesis using s1 by (simp add: vinv_def)
  qed
  have q: "cur k1 = cur k" "idle_thread k1 = idle_thread k" "\<not> intr_on k1" "\<not> in_external_intr k1"
    using arg_cong [OF k1(3), of v_on] arg_cong [OF k1(3), of v_cur] arg_cong [OF k1(3), of v_idle]
      arg_cong [OF k1(3), of v_ext] k(3) v(4) by (simp_all add: intr_inv_def)
  have "runs (sema_down_test s True k1) (a_down_test s True (sched_view k1))"
    using k1 q s1 nb st ni by (intro down_test_runs) auto
  moreover have "vinv (a_down_test s True (sched_view k1))"
  proof -
    have "((a_pop ?v)\<lparr>v_on := True\<rparr>)\<lparr>v_on := False\<rparr> = a_pop ?v" using k(3) by simp
    moreover have "vinv (a_down_test s True (((a_pop ?v)\<lparr>v_on := True\<rparr>)\<lparr>v_on := False\<rparr>))"
      using on nb st ni by (intro vinv_down) auto
    ultimately show ?thesis using k1(3) by simp
  qed
  moreover have "vact Resume ?v (a_down_test s True (sched_view k1))" unfolding k1(3) by (rule va_test [OF st])
  ultimately show ?thesis using k1(1) goes_vinv by simp
qed

lemma a_pop_on: "(a_pop v)\<lparr>v_on := b\<rparr> = a_pop (v\<lparr>v_on := b\<rparr>)"
  by (cases v) (simp add: a_pop_def)

lemma resume_block_now:
  assumes k: "kinv k" "stack_of k = [Block_now]"
  shows "goes (vact Resume (sched_view k)) (resume k)"
proof -
  let ?v = "sched_view k"
  have v: "threads_wf k" "vinv ?v" "sched_inv ?v" "intr_inv ?v" using k(1) by (simp_all add: kinv_def vinv_def)
  have st: "v_cont ?v (v_cur ?v) = [Block_now]" using k(2) stack_view [OF v(3)] by simp
  have on: "intr_on k" using v(4) st by (auto simp: intr_inv_def split: if_splits)
  obtain k1 where k1: "resume k = run_seg Block_now k1" "threads_wf k1" "sched_view k1 = a_pop ?v"
    using resume_pop [OF v(1,3) k(2)] by metis
  have q: "cur k1 = cur k" "intr_on k1" "\<not> in_external_intr k1"
    using arg_cong [OF k1(3), of v_on] arg_cong [OF k1(3), of v_cur] arg_cong [OF k1(3), of v_ext] on v(4)
    by (simp_all add: intr_inv_def)
  have r: "v_stat (sched_view k1) (cur k1) = Some THREAD_RUNNING" using vinv_running [OF v(2)] k1(3) q by simp
  let ?k1 = "k1\<lparr>intr_on := False\<rparr>" and ?w = "a_push (cur k) [Set_level True] ((a_pop ?v)\<lparr>v_on := False\<rparr>)"
  have r1: "v_stat (sched_view ?k1) (cur ?k1) = Some THREAD_RUNNING" "threads_wf ?k1" using r k1(2) by simp_all
  have t: "thread_current ?k1 = Some (cur k1)" by (rule current_ok [OF r1(2,1)]) simp
  obtain k2 where k2: "push_cont (cur k1) [Set_level True] ?k1 = Some k2" "threads_wf k2" "sched_view k2 = ?w"
    using push_runs [OF r1(2,1), of "[Set_level True]"] k1(3) q by (auto simp: runs_def)
  have q2: "cur k2 = cur k" "\<not> intr_on k2" "\<not> in_external_intr k2"
    using arg_cong [OF k2(3), of v_on] arg_cong [OF k2(3), of v_cur] arg_cong [OF k2(3), of v_ext] v(4)
    by (simp_all add: a_push_def intr_inv_def)
  have b: "vinv (a_block ?w)" using vinv_sleep_block [OF v(2) st] by simp
  have "switch_inv (a_set (v_cur (?v\<lparr>v_on := False\<rparr>)) THREAD_BLOCKED
      (a_push (v_cur (?v\<lparr>v_on := False\<rparr>)) [Set_level True] (a_pop (?v\<lparr>v_on := False\<rparr>))))"
    using v(3) st by (intro sleep_switch) auto
  then have "switch_inv (a_set (cur k) THREAD_BLOCKED ?w)" by (simp add: a_pop_on)
  moreover have "v_stat ?w (cur k) = Some THREAD_RUNNING" using vinv_running [OF v(2)] by (simp add: a_push_def)
  ultimately have "runs (thread_block k2) (a_block ?w)" using block_runs [OF k2(2)] q2 k2(3) by simp
  moreover have "vact Resume ?v (a_block ?w)" using va_block_now [OF st] by simp
  ultimately show ?thesis using goes_vinv [OF _ b] k1(1) t k2(1) q by (simp add: block_now_def intr_disable_def)
qed

lemma alloc_frame_runs:
  "threads_wf k \<Longrightarrow> v_stat (sched_view k) p = Some st \<Longrightarrow> n mod 4 = 0 \<Longrightarrow> runs (alloc_frame p n k) (sched_view k)"
  using set_field_runs [of k p st "\<lambda>t. t\<lparr>t_stack := t_stack t - n\<rparr>"]
  by (auto simp: alloc_frame_def is_thread_def threads_wf_def view_stat)

lemma create_rest_runs:
  assumes "threads_wf k" "v_stat (sched_view k) p = Some THREAD_BLOCKED" "\<not> in_external_intr k"
  shows "runs (create_rest p f k) (a_unblock p (a_push p [Thread_start f] (sched_view k)))"
proof -
  let ?k = "k\<lparr>intr_on := False\<rparr>" and ?v = "(sched_view k)\<lparr>v_on := False\<rparr>"
  have k0: "threads_wf ?k" "v_stat ?v p = Some THREAD_BLOCKED" "sched_view ?k = ?v" using assms(1,2) by simp_all
  obtain k1 where k1: "alloc_frame p 12 ?k = Some k1" "threads_wf k1" "sched_view k1 = ?v"
    using alloc_frame_runs [OF k0(1), of p THREAD_BLOCKED 12] k0 by (auto simp: runs_def)
  obtain k2 where k2: "alloc_frame p 4 k1 = Some k2" "threads_wf k2" "sched_view k2 = ?v"
    using alloc_frame_runs [OF k1(2), of p THREAD_BLOCKED 4] k0 k1(3) by (auto simp: runs_def)
  obtain k3 where k3: "alloc_frame p 28 k2 = Some k3" "threads_wf k3" "sched_view k3 = ?v"
    using alloc_frame_runs [OF k2(2), of p THREAD_BLOCKED 28] k0 k2(3) by (auto simp: runs_def)
  obtain k4 where k4: "push_cont p [Thread_start f] k3 = Some k4" "threads_wf k4" "sched_view k4 = a_push p [Thread_start f] ?v"
    using push_runs [OF k3(2), of p THREAD_BLOCKED "[Thread_start f]"] k0 k3(3) by (auto simp: runs_def)
  have e4: "\<not> in_external_intr k4" using arg_cong [OF k4(3), of v_ext] assms(3) by (simp add: a_push_def)
  obtain k5 where k5: "intr_set_level (intr_on k) k4 = Some k5" "threads_wf k5" "sched_view k5 = (sched_view k4)\<lparr>v_on := intr_on k\<rparr>"
    using set_level_runs [OF k4(2), of "intr_on k"] e4 by (auto simp: runs_def)
  have v5: "sched_view k5 = a_push p [Thread_start f] (sched_view k)" unfolding k5(3) k4(3) by (simp add: a_push_def)
  have e5: "\<not> in_external_intr k5" using arg_cong [OF v5, of v_ext] assms(3) by (simp add: a_push_def)
  have "runs (thread_unblock p k5) (a_unblock p (sched_view k5))"
    using assms(2) e5 v5 by (intro unblock_runs k5(2)) (simp_all add: a_push_def)
  then show ?thesis using k1(1) k2(1) k3(1) k4(1) k5(1) v5 by (simp add: create_rest_def intr_disable_def)
qed

lemma resume_create:
  assumes k: "kinv k" "stack_of k = Create_rest p f # ss" "intr_on k"
  shows "goes (vact Resume (sched_view k)) (resume k)"
proof -
  let ?v = "sched_view k"
  have v: "threads_wf k" "vinv ?v" "sched_inv ?v" "intr_inv ?v" using k(1) by (simp_all add: kinv_def vinv_def)
  have st: "v_cont ?v (v_cur ?v) = Create_rest p f # ss" using k(2) stack_view [OF v(3)] by simp
  obtain k1 where k1: "resume k = run_seg (Create_rest p f) k1" "threads_wf k1" "sched_view k1 = a_pop ?v"
    using resume_pop [OF v(1,3) k(2)] by metis
  have nb: "Block_now \<notin> set (v_cont ?v (v_cur ?v))" using window_iff [OF v(3)] st by auto
  have "v_stat ?v p = Some THREAD_BLOCKED" by (rule queued_blocked [OF v(3) nb, of "Nascent (cur k)"]) (use st in simp_all)
  moreover have "\<not> in_external_intr k1" using arg_cong [OF k1(3), of v_ext] v(4) by (simp add: intr_inv_def)
  ultimately have "runs (create_rest p f k1) (a_unblock p (a_push p [Thread_start f] (sched_view k1)))"
    using k1(2,3) by (intro create_rest_runs) simp_all
  moreover have "vinv (a_unblock p (a_push p [Thread_start f] (a_pop ?v)))" using vinv_start [OF v(2) _ st] k(3) by simp
  ultimately show ?thesis using goes_vinv va_start [OF st] k1(1,3) by simp
qed

lemma take_tid_keeps: "kinv k \<Longrightarrow> keeps (vseg (Take_tid p) (sched_view k)) (take_tid p k)"
proof -
  assume k: "kinv k"
  have "sched_view (k\<lparr>threads := (threads k)(p \<mapsto> t\<lparr>t_tid := n\<rparr>)\<rparr>) = sched_view k" if "threads k p = Some t" for t n
    using that by (auto simp: sched_view_def live_def fun_eq_iff)
  then have "kinv (k\<lparr>threads := (threads k)(p \<mapsto> t\<lparr>t_tid := n\<rparr>), next_tid := m\<rparr>)"
      "sched_view (k\<lparr>threads := (threads k)(p \<mapsto> t\<lparr>t_tid := n\<rparr>), next_tid := m\<rparr>) = sched_view k"
    if "threads k p = Some t" for t n m
    using that k by (auto simp: kinv_def threads_wf_def)
  then show ?thesis using vs_tid [of p "sched_view k"] by (auto simp: keeps_def take_tid_def upd_thread_def ret_simps split: option.splits)
qed

section \<open>Every action\<close>

text \<open>The actions that do not go through the list of held locks.\<close>

fun simple_seg :: "seg \<Rightarrow> bool" where
  "simple_seg (Lock_acquire l) = False"
| "simple_seg (Lock_release l) = False"
| "simple_seg (Broadcast c l) = False"
| "simple_seg (Take_tid p) = False"
| "simple_seg _ = True"

fun simple_action :: "action \<Rightarrow> kernel \<Rightarrow> bool" where
  "simple_action Resume k = simple_seg (hd (stack_of k))"
| "simple_action Tick k = True"
| "simple_action Idle k = True"
| "simple_action (Call c) k = (case c of Call_down s \<Rightarrow> True | Call_up s \<Rightarrow> True | Call_sleep n \<Rightarrow> True
     | Call_yield \<Rightarrow> True | Call_exit \<Rightarrow> True | Call_set_priority n \<Rightarrow> True | _ \<Rightarrow> False)"

lemma resume_off:
  assumes k: "kinv k" "stack_of k = s # ss" "\<not> intr_on k"
  shows "goes (vact Resume (sched_view k)) (resume k)"
proof -
  have o: "off_stack (s # ss)" using k stack_view [of k] by (simp add: kinv_def intr_inv_def)
  show ?thesis
  proof (cases s)
    case (Set_level b)
    have "runs (run_seg s k1) ((sched_view k1)\<lparr>v_on := b\<rparr>)" if "threads_wf k1" "\<not> in_external_intr k1" for k1
      using set_level_runs [of k1 b] that Set_level by simp
    then show ?thesis using o Set_level
      by (intro level_goes [OF k(1,2), of b]) (auto elim: off_stack.elims)
  next
    case (Down_test x b)
    then show ?thesis using o k resume_down_test [of k x ss] by (cases b) simp_all
  next
    case (Thread_start f)
    then show ?thesis using o
      by (intro level_goes [OF k(1,2), of True]) (auto simp: kernel_thread_def intr_enable_def intr_context_def)
  next
    case Intr_return
    then show ?thesis using o by (intro level_goes [OF k(1,2), of True]) auto
  qed (use o in auto)
qed

lemma seg_act: "v_cont v (v_cur v) = s # ss \<Longrightarrow> keeps (vseg s (a_pop v)) m \<Longrightarrow> keeps (vact Resume v) m"
  by (auto simp: keeps_def intro: va_seg)

lemma goes_iff: "goes R m \<longleftrightarrow> keeps R m \<and> m \<noteq> None"
  by (auto simp: goes_def keeps_def)

lemma resume_on_keeps:
  assumes k: "kinv k" "stack_of k = s # ss" "intr_on k"
  shows "keeps (vact Resume (sched_view k)) (resume k) \<and> (simple_seg s \<longrightarrow> goes (vact Resume (sched_view k)) (resume k))"
proof -
  let ?v = "sched_view k"
  have st: "v_cont ?v (v_cur ?v) = s # ss" using k(2) stack_view [of k] k(1) by (simp add: kinv_def)
  have o: "on_seg s" using k stack_view [of k] by (simp add: kinv_def intr_inv_def)
  have b: "s = Block_now \<Longrightarrow> ss = []" using k stack_view [of k] window_iff [of "sched_view k"] o by (auto simp: kinv_def)
  show ?thesis
  proof (cases "s = Block_now \<or> created [s] \<noteq> []")
    case True
    then have "goes (vact Resume ?v) (resume k)" using k b resume_block_now [of k] resume_create [of k] by (cases s) auto
    then show ?thesis by (simp add: goes_keeps)
  next
    case False
    then obtain k1 where k1: "resume k = run_seg s k1" "kinv k1" "intr_on k1" "Block_now \<notin> set (stack_of k1)"
        "cur k \<noteq> idle_thread k \<longrightarrow> callable k1" "sched_view k1 = a_pop ?v"
      using resume_on [OF k] by metis
    have "keeps (vseg s (sched_view k1)) (run_seg s k1) \<and> (simple_seg s \<longrightarrow> run_seg s k1 \<noteq> None)"
    proof (cases "idle_seg s")
      case True
      then show ?thesis using o k1 up_goes [of k1] by (cases s) (auto simp: goes_iff)
    next
      case ni: False
      then have c: "callable k1" using k1(5) not_idle_stack [OF k(1,2)] by simp
      show ?thesis
        using o ni False c call_down [of k1] call_acquire [of k1] call_release [of k1] call_broadcast [of k1]
          call_taken [OF k1(2)] take_tid_keeps [OF k1(2)] callableD(7) [OF c]
        by (cases s) (auto simp: goes_iff lock_taken_def)
    qed
    then show ?thesis using seg_act [OF st, of "resume k"] k1(1,6) by (simp add: goes_iff)
  qed
qed

lemma idle_goes:
  assumes k: "kinv k" "enabled Idle k"
  shows "goes (vact Idle (sched_view k)) (idle_turn k)"
proof -
  let ?v = "sched_view k" and ?k = "k\<lparr>intr_on := False\<rparr>" and ?u = "(sched_view k)\<lparr>v_on := False\<rparr>"
  have v: "threads_wf k" "vinv ?v" "sched_inv ?v" "intr_inv ?v" using k(1) by (simp_all add: kinv_def vinv_def)
  have r: "v_stat (sched_view ?k) (cur ?k) = Some THREAD_RUNNING" "threads_wf ?k" using vinv_running [OF v(2)] v(1) by simp_all
  have t: "thread_current ?k = Some (cur k)" by (rule current_ok [OF r(2,1)]) simp
  let ?w = "a_push (cur k) [Intr_return] ?u"
  obtain k1 where k1: "push_cont (cur k) [Intr_return] ?k = Some k1" "threads_wf k1" "sched_view k1 = ?w"
    using push_runs [OF r(2,1), of "[Intr_return]"] by (auto simp: runs_def)
  have q: "cur k1 = cur k" "\<not> intr_on k1" "\<not> in_external_intr k1"
    using arg_cong [OF k1(3), of v_on] arg_cong [OF k1(3), of v_cur] arg_cong [OF k1(3), of v_ext] v(4)
    by (simp_all add: a_push_def intr_inv_def)
  have sw: "switch_inv (a_set (cur k) THREAD_BLOCKED ?w)"
    using idle_switch [of ?u] v(3) k(2) by simp
  have "v_stat ?w (cur k) = Some THREAD_RUNNING" using vinv_running [OF v(2)] by (simp add: a_push_def)
  then have "runs (thread_block k1) (a_block ?w)" using block_runs [OF k1(2)] q k1(3) sw by simp
  moreover have "vinv (a_block ?w)" using vinv_idle_block [OF v(2)] k(2) by simp
  moreover have "vact Idle ?v (a_block ?w)" using va_idle [of ?v] k(2) by simp
  ultimately show ?thesis using goes_vinv t k1(1) by (simp add: idle_turn_def intr_disable_def)
qed

lemma call_goes:
  assumes c: "callable k" "stack_of k = []" "call_ok c k"
  shows "keeps (vcall c (sched_view k)) (do_call c k) \<and> (simple_action (Call c) k \<longrightarrow> do_call c k \<noteq> None)"
proof -
  note m = keeps_mono [where S = "vcall c (sched_view k)"]
  show ?thesis
  proof (cases c)
    case (Call_down x1)
    then show ?thesis using m [of "vseg (Sema_down x1) (sched_view k)"] vc_down call_down [OF c(1), of x1] c(3) by (simp add: goes_iff)
  next
    case (Call_up x2)
    then show ?thesis using m [of "vseg (Sema_up x2) (sched_view k)"] vc_up up_goes [of k x2] c by (simp add: goes_iff callable_def)
  next
    case (Call_acquire x3)
    then show ?thesis using m [OF call_acquire [OF c(1)]] vc_acquire by simp
  next
    case (Call_release x4)
    then show ?thesis using m [OF call_release [OF c(1)]] vc_release by simp
  next
    case (Call_wait x51 x52 x53)
    then show ?thesis using call_wait [OF c(1)] c(3) by simp
  next
    case (Call_signal x61 x62)
    then show ?thesis using keeps_mono [OF call_signal [OF c(1)] signalled_call] by simp
  next
    case (Call_broadcast x71 x72)
    then show ?thesis using m [OF call_broadcast [OF c(1)]] vc_broadcast by simp
  qed (use c call_sleep [OF c(1,2)] call_yield [OF c(1,2)] call_exit [OF c(1,2)] call_create [OF c(1,2)]
      call_set_priority [OF c(1)] in \<open>auto simp: goes_iff\<close>)
qed

lemma action_keeps:
  assumes k: "kinv k" "enabled a k" "\<not> race a k"
  shows "keeps (vact a (sched_view k)) (do_action a k) \<and> (simple_action a k \<longrightarrow> do_action a k \<noteq> None)"
proof (cases a)
  case Resume
  then obtain s ss where st: "stack_of k = s # ss" using k(2) by (cases "stack_of k") auto
  show ?thesis
  proof (cases "intr_on k")
    case True
    then show ?thesis using resume_on_keeps [OF k(1) st] Resume st by (auto simp: goes_iff)
  next
    case False
    then show ?thesis using resume_off [OF k(1) st] Resume by (simp add: goes_iff)
  qed
next
  case Tick
  then show ?thesis using tick_goes [OF k(1)] k(2,3) by (simp add: goes_iff)
next
  case Idle
  then show ?thesis using idle_goes [OF k(1)] k(2) by (simp add: goes_iff)
next
  case (Call c)
  then have c: "callable k" "stack_of k = []" "call_ok c k" using k by (auto simp: callable_def)
  have "v_cont (sched_view k) (v_cur (sched_view k)) = []" using c(2) stack_view [OF callableD(9) [OF c(1)]] by simp
  then have "keeps (vact (Call c) (sched_view k)) (do_call c k)"
    using call_goes [OF c] va_call by (auto simp: keeps_def)
  then show ?thesis using call_goes [OF c] Call by simp
qed

lemma kreach_kinv: "kreach (no_race P) k0 k \<Longrightarrow> kinv k0 \<Longrightarrow> kinv k"
proof (induction rule: kreach.induct)
  case (kreach_step k a k')
  then show ?case using action_keeps [of k a] by (auto simp: keeps_def no_race_def)
qed

end
