(* ===== verification/Klock.thy ===== *)
theory Klock
  imports Kstep_Safe
begin

text \<open>
  Mutual exclusion of \<open>struct lock\<close>.  A lock is a semaphore with a holder; between \<open>sema_down\<close>
  and the assignment of the holder, and between the clearing of the holder and \<open>sema_up\<close>, the
  stacks say who is on the way.  The value of the semaphore, the holder and the stacks obey a
  conservation law.
\<close>

section \<open>The law\<close>

fun wt :: "ptr \<Rightarrow> seg \<Rightarrow> int" where
  "wt l (Lock_taken l') = (if l' = l then 1 else 0)"
| "wt l (Sema_down s) = (if s = lock_sema l then -1 else 0)"
| "wt l (Down_test s b) = (if s = lock_sema l then -1 else 0)"
| "wt l (Sema_up s) = (if s = lock_sema l then 1 else 0)"
| "wt l _ = 0"

definition swt :: "ptr \<Rightarrow> seg list \<Rightarrow> int" where
  "swt l ss = sum_list (map (wt l) ss)"

definition lock_total :: "ptr \<Rightarrow> (ptr \<Rightarrow> seg list) \<Rightarrow> int" where
  "lock_total l ct = (\<Sum>p | ct p \<noteq> []. swt l (ct p))"

text \<open>A wait for the semaphore of the lock belongs to \<open>lock_acquire\<close>.\<close>

fun paired :: "ptr \<Rightarrow> seg list \<Rightarrow> bool" where
  "paired l [] = True"
| "paired l (s # ss) = ((wt l s < 0 \<longrightarrow> ss \<noteq> [] \<and> hd ss = Lock_taken l) \<and> paired l ss)"

definition lock_inv :: "ptr \<Rightarrow> sview \<Rightarrow> bool" where
  "lock_inv l v \<longleftrightarrow> finite {p. v_cont v p \<noteq> []} \<and> (\<forall>p. paired l (v_cont v p))
     \<and> (\<forall>c. lock_sema l \<notin> set (v_cond v c))
     \<and> uint (v_val v (lock_sema l)) + (if v_holder v l = NULL then 0 else 1) + lock_total l (v_cont v) = 1"

text \<open>Clients use the semaphore inside a lock only through the lock.\<close>

fun uses_lock_only :: "ptr \<Rightarrow> action \<Rightarrow> bool" where
  "uses_lock_only l (Call (Call_down s)) \<longleftrightarrow> s \<noteq> lock_sema l"
| "uses_lock_only l (Call (Call_up s)) \<longleftrightarrow> s \<noteq> lock_sema l"
| "uses_lock_only l (Call (Call_wait c l' w)) \<longleftrightarrow> w \<noteq> lock_sema l"
| "uses_lock_only l _ \<longleftrightarrow> True"

lemma swt_simps [simp]: "swt l [] = 0" "swt l (s # ss) = wt l s + swt l ss" "swt l (xs @ ys) = swt l xs + swt l ys"
  by (simp_all add: swt_def)

lemma wt_cases: "wt l s = -1 \<or> wt l s = 0 \<or> wt l s = 1"
  by (cases s) auto

lemma swt_nonneg: "paired l ss \<Longrightarrow> 0 \<le> swt l ss \<and> (ss \<noteq> [] \<and> hd ss = Lock_taken l \<longrightarrow> 1 \<le> swt l ss)"
proof (induction ss)
  case (Cons s ss)
  then show ?case using wt_cases [of l s] by (cases "wt l s < 0") auto
qed simp

lemma total_over:
  assumes "finite S" "{p. ct p \<noteq> []} \<subseteq> S"
  shows "lock_total l ct = (\<Sum>p\<in>S. swt l (ct p))"
  unfolding lock_total_def using assms by (intro sum.mono_neutral_left) auto

lemma total_upd:
  assumes "finite {p. ct p \<noteq> []}"
  shows "lock_total l (ct(p := ss)) = lock_total l ct - swt l (ct p) + swt l ss" "finite {q. (ct(p := ss)) q \<noteq> []}"
proof -
  let ?S = "insert p {p. ct p \<noteq> []}"
  have S: "finite ?S" "{q. (ct(p := ss)) q \<noteq> []} \<subseteq> ?S" "{q. ct q \<noteq> []} \<subseteq> ?S" using assms by auto
  show "finite {q. (ct(p := ss)) q \<noteq> []}" using S finite_subset by blast
  have "(\<Sum>q\<in>?S. swt l ((ct(p := ss)) q)) = (\<Sum>q\<in>?S - {p}. swt l (ct q)) + swt l ss"
    using S(1) by (subst sum.remove [of ?S p]) auto
  moreover have "(\<Sum>q\<in>?S. swt l (ct q)) = (\<Sum>q\<in>?S - {p}. swt l (ct q)) + swt l (ct p)"
    using S(1) by (subst sum.remove [of ?S p]) auto
  ultimately show "lock_total l (ct(p := ss)) = lock_total l ct - swt l (ct p) + swt l ss"
    unfolding total_over [OF S(1,2)] total_over [OF S(1,3)] by linarith
qed

lemma total_ge:
  assumes "lock_inv l v"
  shows "swt l (v_cont v p) \<le> lock_total l (v_cont v)" "0 \<le> lock_total l (v_cont v)"
proof -
  have f: "finite {p. v_cont v p \<noteq> []}" and n: "\<And>p. 0 \<le> swt l (v_cont v p)"
    using assms swt_nonneg by (auto simp: lock_inv_def)
  show "0 \<le> lock_total l (v_cont v)" unfolding lock_total_def using n by (simp add: sum_nonneg)
  show "swt l (v_cont v p) \<le> lock_total l (v_cont v)"
  proof (cases "v_cont v p = []")
    case True
    then show ?thesis using n unfolding lock_total_def by (simp add: sum_nonneg)
  next
    case False
    then show ?thesis unfolding lock_total_def using member_le_sum [of p "{p. v_cont v p \<noteq> []}" "\<lambda>p. swt l (v_cont v p)"] n f by simp
  qed
qed

lemma lock_value: "lock_inv l v \<Longrightarrow> uint (v_val v (lock_sema l)) \<le> 1"
  using total_ge(2) [of l v] by (auto simp: lock_inv_def split: if_splits)

lemma lock_change:
  assumes "lock_inv l v" "v_cont v' = (v_cont v)(p := ss)" "paired l ss" "\<And>c. lock_sema l \<notin> set (v_cond v' c)"
    "uint (v_val v' (lock_sema l)) + (if v_holder v' l = NULL then 0 else 1) + swt l ss
       = uint (v_val v (lock_sema l)) + (if v_holder v l = NULL then 0 else 1) + swt l (v_cont v p)"
  shows "lock_inv l v'"
  using assms total_upd(1) [of "v_cont v" l p ss] total_upd(2) [of "v_cont v" p ss] unfolding lock_inv_def by auto

lemma lock_same:
  assumes "lock_inv l v" "v_cont v' = v_cont v" "v_cond v' = v_cond v" "v_val v' = v_val v" "v_holder v' = v_holder v"
  shows "lock_inv l v'"
  using assms by (simp add: lock_inv_def)

section \<open>The actions keep the law\<close>

lemma a_sched_sel [simp]:
  "v_cont (a_schedule v) = v_cont v" "v_val (a_schedule v) = v_val v" "v_holder (a_schedule v) = v_holder v" "v_cond (a_schedule v) = v_cond v"
  "v_cont (a_block v) = v_cont v" "v_val (a_block v) = v_val v" "v_holder (a_block v) = v_holder v" "v_cond (a_block v) = v_cond v"
  "v_cont (a_unblock p v) = v_cont v" "v_val (a_unblock p v) = v_val v" "v_holder (a_unblock p v) = v_holder v" "v_cond (a_unblock p v) = v_cond v"
  "v_cont (a_set p st v) = v_cont v" "v_val (a_set p st v) = v_val v" "v_holder (a_set p st v) = v_holder v" "v_cond (a_set p st v) = v_cond v"
  "v_cont (a_wait s v) = v_cont v" "v_val (a_wait s v) = v_val v" "v_holder (a_wait s v) = v_holder v" "v_cond (a_wait s v) = v_cond v"
  "v_cont (a_push p ss v) = (v_cont v)(p := ss @ v_cont v p)" "v_val (a_push p ss v) = v_val v" "v_holder (a_push p ss v) = v_holder v"
  "v_cond (a_push p ss v) = v_cond v"
  "v_val (a_pop v) = v_val v" "v_holder (a_pop v) = v_holder v"
  "v_cont (a_yield b v) = (v_cont v)(v_cur v := Set_level b # v_cont v (v_cur v))" "v_val (a_yield b v) = v_val v"
  "v_holder (a_yield b v) = v_holder v" "v_cond (a_yield b v) = v_cond v"
  "v_cont (a_exit v) = (v_cont v)(v_cur v := [])" "v_val (a_exit v) = v_val v" "v_holder (a_exit v) = v_holder v" "v_cond (a_exit v) = v_cond v"
  "v_cont (a_wake s v) = v_cont v" "v_val (a_wake s v) = v_val v" "v_holder (a_wake s v) = v_holder v" "v_cond (a_wake s v) = v_cond v"
  "v_cond (a_wake_n m v) = v_cond v"
  "v_cur (a_push p ss v) = v_cur v" "v_cur (a_intr v) = v_cur v" "v_val (a_intr v) = v_val v" "v_holder (a_intr v) = v_holder v"
  "v_cond (a_intr v) = v_cond v" "v_cont (a_intr v) = (v_cont v)(v_cur v := Intr_return # v_cont v (v_cur v))"
  by (auto simp: a_defs a_wake_def a_intr_def split: list.splits)
    (induction m v rule: a_wake_n.induct, auto simp: a_unblock_def a_set_def split: list.splits)

lemma lock_sema_inj [simp]: "lock_sema l' = lock_sema l \<longleftrightarrow> l' = l"
  by (simp add: lock_sema_def)

lemma uint_dec: "(x::u32) \<noteq> 0 \<Longrightarrow> uint (x - 1) = uint x - 1"
  using uint_sub_lem [of 1 x] by (simp add: word_neq_0_conv word_less_def)

lemma uint_inc: "uint (x::u32) \<le> 1 \<Longrightarrow> uint (x + 1) = uint x + 1"
  using uint_add_lem [of x 1] by simp

lemma paired_tl: "paired l (s # ss) \<Longrightarrow> paired l ss"
  by simp

lemma paired_rest: "lock_inv l v \<Longrightarrow> v_cont v p = s # ss \<Longrightarrow> paired l ss"
  using paired_tl [of l s ss] by (auto simp: lock_inv_def) (metis paired_tl)

lemma lock_conds: "lock_inv l v \<Longrightarrow> lock_sema l \<notin> set (v_cond v c)"
  by (simp add: lock_inv_def)

lemma lock_pop:
  assumes v: "lock_inv l v" "v_cont v (v_cur v) = s # ss" "wt l s = 0"
  shows "lock_inv l (a_pop v)"
  using v lock_conds [OF v(1)] paired_rest [OF v(1,2)] by (intro lock_change [OF v(1), of _ "v_cur v" ss]) simp_all

lemma lock_push:
  assumes v: "lock_inv l v" "paired l (ss @ v_cont v p)" "swt l ss = 0" "\<And>c. lock_sema l \<notin> set (v_cond w c)"
    and w: "v_cont w = v_cont v" "v_val w (lock_sema l) = v_val v (lock_sema l)" "v_holder w l = v_holder v l"
  shows "lock_inv l (a_push p ss w)"
  using v w by (intro lock_change [OF v(1), of _ p "ss @ v_cont v p"]) simp_all

lemma lock_down:
  assumes v: "lock_inv l v" "v_cont v (v_cur v) = s # ss" "s = Sema_down x \<or> s = Down_test x b"
  shows "lock_inv l (a_down_test x True ((a_pop v)\<lparr>v_on := False\<rparr>))"
proof (cases "v_val v x = 0")
  case True
  let ?v' = "a_down_test x True ((a_pop v)\<lparr>v_on := False\<rparr>)"
  have "paired l (s # ss)" using v by (metis lock_inv_def)
  then have "paired l (Down_test x True # ss)" using v(3) by auto
  moreover have "v_cont ?v' = (v_cont v)(v_cur v := Down_test x True # ss)" using True v(2) by (simp add: a_down_test_def)
  ultimately show ?thesis using v lock_conds [OF v(1)] True
    by (intro lock_change [OF v(1), of _ "v_cur v" "Down_test x True # ss"]) (auto simp: a_down_test_def)
next
  case False
  then show ?thesis using v lock_conds [OF v(1)] paired_rest [OF v(1,2)] uint_dec [OF False]
    by (intro lock_change [OF v(1), of _ "v_cur v" ss]) (auto simp: a_down_test_def)
qed

lemma lock_up:
  assumes v: "lock_inv l v" "v_cont v (v_cur v) = Sema_up x # ss"
  shows "lock_inv l (a_sema_up x (a_pop v))"
  using v lock_conds [OF v(1)] paired_rest [OF v(1,2)] uint_inc [OF lock_value [OF v(1)]]
  by (intro lock_change [OF v(1), of _ "v_cur v" ss]) (auto simp: a_sema_up_def Let_def)

text \<open>A thread that has got the semaphore finds the lock without a holder.\<close>

lemma taken_free:
  assumes "lock_inv l v" "v_cont v p = Lock_taken l # ss"
  shows "v_holder v l = NULL" "v_val v (lock_sema l) = 0" "q \<noteq> p \<Longrightarrow> swt l (v_cont v q) = 0"
proof -
  have p: "\<And>p. paired l (v_cont v p)" using assms(1) by (simp add: lock_inv_def)
  have one: "1 \<le> swt l (v_cont v p)" using swt_nonneg [OF p, of p] assms(2) by simp
  have tot: "uint (v_val v (lock_sema l)) + (if v_holder v l = NULL then 0 else 1) + lock_total l (v_cont v) = 1"
    using assms(1) by (simp add: lock_inv_def)
  have u: "0 \<le> uint (v_val v (lock_sema l))" by simp
  have t: "swt l (v_cont v p) \<le> lock_total l (v_cont v)" by (rule total_ge(1) [OF assms(1)])
  have n: "v_holder v l = NULL"
  proof (rule ccontr)
    assume "v_holder v l \<noteq> NULL"
    then have "uint (v_val v (lock_sema l)) + 1 + lock_total l (v_cont v) = 1" using tot by simp
    then show False using u t one by linarith
  qed
  then have "uint (v_val v (lock_sema l)) + lock_total l (v_cont v) = 1" using tot by simp
  then have "uint (v_val v (lock_sema l)) = 0" "lock_total l (v_cont v) = 1" using u t one by linarith+
  then have h: "uint (v_val v (lock_sema l)) = 0 \<and> v_holder v l = NULL \<and> lock_total l (v_cont v) = 1" using n by blast
  then show "v_holder v l = NULL" "v_val v (lock_sema l) = 0" by (simp_all add: uint_0_iff)
  assume "q \<noteq> p"
  have "lock_inv l (v\<lparr>v_cont := (v_cont v)(p := []), v_holder := (v_holder v)(l := 1)\<rparr>)"
    if "swt l (v_cont v p) = 1"
    using that assms(1) h by (intro lock_change [OF assms(1), of _ p "[]"]) (auto simp: lock_inv_def)
  moreover have "swt l (v_cont v p) = 1" using one total_ge(1) [OF assms(1), of p] h by linarith
  ultimately have i: "lock_inv l (v\<lparr>v_cont := (v_cont v)(p := []), v_holder := (v_holder v)(l := 1)\<rparr>)" by blast
  have "lock_total l ((v_cont v)(p := [])) = 0"
    using total_upd(1) [of "v_cont v" l p "[]"] assms(1) h \<open>swt l (v_cont v p) = 1\<close> by (simp add: lock_inv_def)
  then show "swt l (v_cont v q) = 0" using total_ge(1) [OF i, of q] swt_nonneg [OF p, of q] \<open>q \<noteq> p\<close> by simp
qed

lemma lock_taken_inv:
  assumes v: "lock_inv l v" "v_cont v (v_cur v) = Lock_taken l' # ss" "v_cur v \<noteq> NULL"
  shows "lock_inv l ((a_pop v)\<lparr>v_holder := (v_holder (a_pop v))(l' := v_cur v)\<rparr>)"
  using v lock_conds [OF v(1)] paired_rest [OF v(1,2)] taken_free(1) [of l v "v_cur v" ss]
  by (intro lock_change [OF v(1), of _ "v_cur v" ss]) auto

lemma lock_vseg:
  assumes v: "lock_inv l v" "v_cont v (v_cur v) = s # ss" "v_cur v \<noteq> NULL" and s: "vseg s (a_pop v) v'"
  shows "lock_inv l v'"
  using s
proof (cases rule: vseg.cases)
  case (vs_down x)
  then show ?thesis using lock_down [OF v(1,2)] by simp
next
  case (vs_up x)
  then show ?thesis using lock_up [OF v(1)] v(2) by simp
next
  case (vs_acquire x)
  then show ?thesis using lock_pop [OF v(1,2)] paired_rest [OF v(1,2)] lock_conds [OF v(1)] v(2)
    by (auto intro!: lock_push)
next
  case (vs_taken x)
  then show ?thesis using lock_taken_inv [OF v(1) _ v(3)] v(2) by simp
next
  case (vs_release x)
  then show ?thesis using v lock_conds [OF v(1)] paired_rest [OF v(1,2)]
    by (intro lock_change [OF v(1), of _ "v_cur v" "Sema_up (lock_sema x) # ss"]) auto
next
  case (vs_broadcast c w ws)
  have "lock_sema l \<notin> set (w # ws)" using lock_conds [OF v(1), of c] vs_broadcast(3) by simp
  then have "\<And>d. lock_sema l \<notin> set (((v_cond v)(c := ws)) d)" "w \<noteq> lock_sema l"
    using lock_conds [OF v(1)] by auto
  then show ?thesis using vs_broadcast lock_pop [OF v(1,2)] paired_rest [OF v(1,2)] lock_conds [OF v(1)] v(2)
    by (auto intro!: lock_push)
qed (use lock_pop [OF v(1,2)] in auto)

text \<open>A call is like its segment on an empty stack.\<close>

lemma lock_direct:
  assumes v: "lock_inv l v" "v_cont v (v_cur v) = []" "v_cur v \<noteq> NULL" and s: "vseg s v v'" "wt l s = 0"
  shows "lock_inv l v'"
proof -
  let ?v = "a_push (v_cur v) [s] v"
  have "lock_inv l ?v" using v s(2) lock_conds [OF v(1)] by (intro lock_push) simp_all
  moreover have "a_pop ?v = v" using v(2) by (cases v) (simp add: a_push_def a_pop_def fun_upd_idem)
  ultimately show ?thesis using lock_vseg [of l ?v s "[]" v'] v s(1) by simp
qed

lemma lock_vcall:
  assumes v: "lock_inv l v" "v_cont v (v_cur v) = []" "v_cur v \<noteq> NULL" and c: "vcall c v v'" "uses_lock_only l (Call c)"
  shows "lock_inv l v'"
  using c(1)
proof (cases rule: vcall.cases)
  case (vc_wait l' c w)
  have "\<And>d. lock_sema l \<notin> set (((v_cond v)(c := v_cond v c @ [w])) d)" using lock_conds [OF v(1)] c(2) vc_wait by auto
  then show ?thesis using vc_wait c(2) v by (auto intro!: lock_push)
next
  case (vc_signal d w ws)
  have "lock_sema l \<notin> set (w # ws)" using lock_conds [OF v(1), of d] vc_signal(3) by simp
  then have "\<And>e. lock_sema l \<notin> set (((v_cond v)(d := ws)) e)" "w \<noteq> lock_sema l" using lock_conds [OF v(1)] by auto
  then show ?thesis using vc_signal v by (auto intro!: lock_push)
next
  case (vc_sleep xs ys n)
  then show ?thesis using v lock_conds [OF v(1)] by (auto intro!: lock_push)
next
  case vc_yield
  then show ?thesis using v lock_conds [OF v(1)]
    by (intro lock_change [OF v(1), of _ "v_cur v" "[Set_level True]"]) simp_all
next
  case vc_exit
  then show ?thesis using v lock_conds [OF v(1)] by (intro lock_change [OF v(1), of _ "v_cur v" "[]"]) simp_all
next
  case (vc_create p l' name pri f)
  then show ?thesis using v lock_conds [OF v(1)] by (auto intro!: lock_push)
qed (use c(2) lock_direct [OF v] v in auto)

lemma lock_vact:
  assumes v: "lock_inv l v" "v_cur v \<noteq> NULL" and a: "vact a v v'" "uses_lock_only l a"
  shows "lock_inv l v'"
  using a(1)
proof (cases rule: vact.cases)
  case (va_level s ss b)
  then have "wt l s = 0" by (cases s) auto
  then show ?thesis using lock_same [OF lock_pop [OF v(1) va_level(3)]] va_level by simp
next
  case (va_test s ss)
  have "lock_inv l (a_down_test s True ((a_pop v)\<lparr>v_on := False\<rparr>))" using lock_down [OF v(1) va_test(3)] by simp
  then show ?thesis by (rule lock_same) (simp_all add: va_test a_down_test_def)
next
  case (va_seg s ss)
  then show ?thesis using lock_vseg [OF v(1) _ v(2)] by blast
next
  case va_block_now
  then show ?thesis using v lock_conds [OF v(1)]
    by (intro lock_change [OF v(1), of _ "v_cur v" "[Set_level True]"]) simp_all
next
  case (va_start p f ss)
  have "lock_inv l (a_push p [Thread_start f] (a_pop v))"
    using lock_pop [OF v(1) va_start(3)] lock_conds [OF v(1)]
    by (intro lock_push [of l "a_pop v"]) (auto simp: lock_inv_def)
  then show ?thesis by (rule lock_same) (simp_all add: va_start)
next
  case (va_tick m)
  have p: "paired l (v_cont v (v_cur v))" using v(1) by (simp add: lock_inv_def)
  then show ?thesis using v lock_conds [OF v(1)] va_tick
    by (intro lock_change [OF v(1), of _ "v_cur v" "Intr_return # v_cont v (v_cur v)"]) simp_all
next
  case (va_tick_yield m)
  have p: "paired l (v_cont v (v_cur v))" using v(1) by (simp add: lock_inv_def)
  then show ?thesis using v lock_conds [OF v(1)] va_tick_yield
    by (intro lock_change [OF v(1), of _ "v_cur v" "Set_level False # Intr_return # v_cont v (v_cur v)"]) simp_all
next
  case va_idle
  have p: "paired l (v_cont v (v_cur v))" using v(1) by (simp add: lock_inv_def)
  then show ?thesis using v lock_conds [OF v(1)] va_idle
    by (intro lock_change [OF v(1), of _ "v_cur v" "Intr_return # v_cont v (v_cur v)"]) simp_all
next
  case (va_call c)
  then show ?thesis using lock_vcall [OF v(1) _ v(2)] a(2) by blast
qed

text \<open>Only the holder gives up a lock.\<close>

lemma holder_vseg:
  assumes "lock_inv l v" "v_holder v l \<noteq> NULL" "v_holder v l \<noteq> v_cur v" "v_cont v (v_cur v) = s # ss" "vseg s (a_pop v) v'"
  shows "v_holder v' l = v_holder v l"
  using assms(5) assms taken_free(1) [of l v "v_cur v" ss]
  by (cases rule: vseg.cases) (auto simp: a_down_test_def a_sema_up_def Let_def)

lemma holder_vact:
  assumes v: "lock_inv l v" "v_holder v l \<noteq> NULL" "v_holder v l \<noteq> v_cur v" and a: "vact a v v'"
  shows "v_holder v' l = v_holder v l"
  using a
proof (cases rule: vact.cases)
  case (va_seg s ss)
  then show ?thesis using holder_vseg [OF v] by blast
next
  case (va_call c)
  have h: "v_holder v' l = v_holder v l" if s: "vseg s v v'" "\<And>l. s \<noteq> Lock_taken l" for s
    using s v by (cases rule: vseg.cases) (auto simp: a_down_test_def a_sema_up_def Let_def)
  show ?thesis using va_call(3) by (cases rule: vcall.cases) (auto intro: h)
qed (auto simp: a_down_test_def)

lemma kinv_cur: "kinv k \<Longrightarrow> cur k \<noteq> NULL"
  using sched_running [of "sched_view k"] by (auto simp: kinv_def threads_wf_def view_stat)

lemma kreach_lock:
  assumes "kreach (no_race (uses_lock_only l)) k0 k" "kinv k0" "lock_inv l (sched_view k0)"
  shows "lock_inv l (sched_view k)"
  using assms
proof (induction rule: kreach.induct)
  case (kreach_step k a k')
  have k: "kinv k" using kreach_kinv [OF kreach_step(1,6)] .
  then have "vact a (sched_view k) (sched_view k')" using action_keeps [OF k kreach_step(2)] kreach_step(3,4) by (simp add: keeps_def no_race_def)
  then show ?case using lock_vact [of l "sched_view k" a "sched_view k'"] kreach_step kinv_cur [OF k] by (simp add: no_race_def)
qed

end
