(* ===== verification/Kboot.thy ===== *)
theory Kboot
  imports Klock
begin

text \<open>
  Booting: \<open>thread_init\<close> and \<open>thread_start\<close> run on the memory the loader leaves, with the first
  thread's page where \<open>start.S\<close> puts the stack.  The run goes through two context switches:
  \<open>thread_start\<close> waits for the idle thread, which starts, wakes it up and blocks.
\<close>

definition kernel0 :: kernel where
  "kernel0 = \<lparr>threads = Map.empty, ready_list = [], all_list = [], blocked_list = [], idle_thread = NULL,
     initial_thread = NULL, cur = 0xc000e000, intr_on = False, in_external_intr = False, yield_on_return = False,
     ticks = 0, thread_ticks = 0, idle_ticks = 0, kernel_ticks = 0, user_ticks = 0, next_tid = 1,
     semas = \<lambda>_. \<lparr>sema_value = 0, waiters = []\<rparr>, lock_holder = \<lambda>_. NULL, cond_waiters = \<lambda>_. [],
     kheap = \<lambda>_. \<lparr>elem_prev = 0, elem_next = 0\<rparr>, cr3 = NULL, tss_esp0 = 0, init_page_dir = 0xc0101000\<rparr>"

definition boot_init :: "kernel option" where
  "boot_init = thread_init 0xc0030000 0xc000e000 kernel0"

text \<open>The main thread until it blocks, the idle thread until it blocks, the main thread again.\<close>

definition boot :: "kernel option" where
  "boot = do {
     k \<leftarrow> boot_init;
     k \<leftarrow> thread_start 0xc0030000 0xc000ef00 0xc0104000 0xc0020000 k;
     k \<leftarrow> resume_n 9 k;
     k \<leftarrow> resume k;
     k \<leftarrow> idle_start 0xc000ef00 k;
     k \<leftarrow> resume k;
     k \<leftarrow> idle_turn k;
     resume k }"

lemmas boot_simps = thread_init_def lock_init_def sema_init_def upd_sema_def init_thread_def list_init_def locks_list_def
  upd_thread_def push_cont_def resume_def lock_acquire_def lock_held_by_current_thread_def thread_current_def running_thread_def
  is_thread_def intr_context_def intr_get_level_def intr_disable_def intr_set_level_def intr_enable_def sema_down_def
  sema_down_test_def lock_taken_def lock_sema_def lock_elem_def lock_release_def take_tid_def sema_up_def Let_def
  PRI_MIN_def PRI_MAX_def PRI_DEFAULT_def list_push_back_def list_head_addr_def list_tail_addr_def is_interior_def
  is_tail_def set_prev_def set_next_def list_end_def list_insert_def list_remove_def tid_wrap_def

definition main_thread :: thread where
  "main_thread = \<lparr>t_tid = 1, t_status = THREAD_RUNNING, t_name = [109, 97, 105, 110],
     t_stack = 0xc000e000 + pgsize, t_priority = 31, blocked_ticks = 0, t_nice = 0, recent_cpu = 0, t_pagedir = NULL,
     t_parent = NULL, in_syscall = False, t_magic = THREAD_MAGIC, t_cont = []\<rparr>"

lemma resume_n_fun: "resume_n 0 = Some" "resume_n (Suc n) = (\<lambda>k. Option.bind (resume k) (resume_n n))"
  by (simp_all add: fun_eq_iff)

lemma resume_n_6: "resume_n 6 k = do { k \<leftarrow> resume k; k \<leftarrow> resume k; k \<leftarrow> resume k; k \<leftarrow> resume k; k \<leftarrow> resume k; resume k }"
  by (simp add: numeral_eq_Suc resume_n_fun)

lemma resume_n_9: "resume_n 9 k = do { k \<leftarrow> resume k; k \<leftarrow> resume k; k \<leftarrow> resume k; k \<leftarrow> resume k; k \<leftarrow> resume k;
    k \<leftarrow> resume k; k \<leftarrow> resume k; k \<leftarrow> resume k; resume k }"
  by (simp add: numeral_eq_Suc resume_n_fun)

lemma boot_init_eq:
  "boot_init = Some (kernel0\<lparr>threads := [0xc000e000 \<mapsto> main_thread], all_list := [0xc000e000],
     initial_thread := 0xc000e000, next_tid := 2,
     semas := (semas kernel0)(0xc0030004 := \<lparr>sema_value = 1, waiters = []\<rparr>),
     kheap := (kheap kernel0)(0xc0030018 := \<lparr>elem_prev = 0xc000e044, elem_next = 0xc000e04c\<rparr>,
       0xc000e044 := \<lparr>elem_prev = NULL, elem_next = 0xc000e04c\<rparr>,
       0xc000e04c := \<lparr>elem_prev = 0xc000e044, elem_next = NULL\<rparr>)\<rparr>)"
  unfolding boot_init_def by (simp add: boot_simps kernel0_def resume_n_6 main_thread_def fun_upd_idem)

definition idle_struct :: thread where
  "idle_struct = \<lparr>t_tid = 2, t_status = THREAD_BLOCKED, t_name = [105, 100, 108, 101],
     t_stack = 0xc0104000 + pgsize - 44, t_priority = 0, blocked_ticks = 0, t_nice = 0, recent_cpu = 0, t_pagedir = NULL,
     t_parent = 0xc000e000, in_syscall = False, t_magic = THREAD_MAGIC, t_cont = [Intr_return]\<rparr>"

definition boot_kernel :: kernel where
  "boot_kernel = kernel0\<lparr>threads := [0xc0104000 \<mapsto> idle_struct, 0xc000e000 \<mapsto> main_thread],
     all_list := [0xc000e000, 0xc0104000], idle_thread := 0xc0104000, initial_thread := 0xc000e000,
     intr_on := True, next_tid := 3,
     semas := (semas kernel0)(0xc0030004 := \<lparr>sema_value = 1, waiters = []\<rparr>, 0xc000ef00 := \<lparr>sema_value = 0, waiters = []\<rparr>),
     lock_holder := (lock_holder kernel0)(0xc0030000 := NULL),
     kheap := (kheap kernel0)(0xc0104044 := \<lparr>elem_prev = NULL, elem_next = 0xc010404c\<rparr>,
       0xc010404c := \<lparr>elem_prev = 0xc0104044, elem_next = NULL\<rparr>,
       0xc0030018 := \<lparr>elem_prev = 0xc000e044, elem_next = 0xc000e04c\<rparr>,
       0xc000e044 := \<lparr>elem_prev = NULL, elem_next = 0xc000e04c\<rparr>,
       0xc000e04c := \<lparr>elem_prev = 0xc000e044, elem_next = NULL\<rparr>),
     cr3 := 0xc0101000, tss_esp0 := 0xc000e000 + pgsize\<rparr>"

lemma boot_run: "boot = Some boot_kernel"
  unfolding boot_def boot_init_eq boot_kernel_def idle_struct_def
  by (simp add: boot_simps kernel0_def resume_n_9 main_thread_def thread_start_def thread_create_def
    create_rest_def alloc_frame_def thread_unblock_def thread_block_def schedule_def next_thread_to_run_def
    thread_schedule_tail_def process_activate_def tss_update_def pagedir_activate_def idle_start_def idle_turn_def
    kernel_thread_def)

section \<open>The state after booting\<close>

lemma boot_view:
  "sched_view boot_kernel = \<lparr>v_stat = [0xc0104000 \<mapsto> THREAD_BLOCKED, 0xc000e000 \<mapsto> THREAD_RUNNING],
     v_cont = (\<lambda>_. [])(0xc0104000 := [Intr_return]), v_cur = 0xc000e000, v_idle = 0xc0104000, v_ready = [], v_asleep = [],
     v_wait = \<lambda>_. [], v_val = (\<lambda>_. 0)(0xc0030004 := 1), v_holder = \<lambda>_. NULL, v_cond = \<lambda>_. [],
     v_all = [0xc000e000, 0xc0104000], v_on = True, v_ext = False\<rparr>"
  by (simp add: sched_view_def live_def boot_kernel_def kernel0_def idle_struct_def main_thread_def fun_eq_iff)

lemma boot_kinv: "kinv boot_kernel"
proof -
  have "threads_wf boot_kernel"
    by (auto simp: threads_wf_def boot_kernel_def idle_struct_def main_thread_def split: if_splits)
  moreover have "sched_inv (sched_view boot_kernel)"
    unfolding boot_view sched_inv_def core_inv_def placed_def sleeping_window_def
    by (auto simp: all_place split: if_splits)
  moreover have "intr_inv (sched_view boot_kernel)"
    unfolding boot_view intr_inv_def suspended_def by auto
  ultimately show ?thesis by (simp add: kinv_def)
qed

lemma boot_lock: "lock_inv 0xc0030000 (sched_view boot_kernel)"
proof -
  have "{p. ((\<lambda>_. [])(0xc0104000 := [Intr_return])) p \<noteq> ([] :: seg list)} = {0xc0104000::nat}" by auto
  then show ?thesis unfolding boot_view lock_inv_def lock_total_def
    by (auto simp: lock_sema_def)
qed

lemma boot_stack: "stack_of boot_kernel = []" "intr_on boot_kernel" "cur boot_kernel \<noteq> idle_thread boot_kernel"
  by (simp_all add: stack_of_def boot_kernel_def kernel0_def main_thread_def)

end
