(* ===== verification/Ktimer.thy ===== *)
theory Ktimer
  imports Kboot
begin

text \<open>The order in which the scheduler serves the ready list.\<close>

section \<open>The order of the ready list\<close>

definition fifo_step :: "sview \<Rightarrow> sview \<Rightarrow> bool" where
  "fifo_step v v' \<longleftrightarrow> (\<exists>ys. v_ready v' = v_ready v @ ys \<and> v_cur v' = v_cur v
     \<or> v_ready v' = tl (v_ready v @ ys) \<and> v_cur v' = (if v_ready v @ ys = [] then v_idle v else hd (v_ready v @ ys)))"

lemma fifo_stay: "v_ready v' = v_ready v @ ys \<Longrightarrow> v_cur v' = v_cur v \<Longrightarrow> fifo_step v v'"
  by (auto simp: fifo_step_def)

lemma fifo_schedule: "v_ready w = v_ready v @ ys \<Longrightarrow> v_idle w = v_idle v \<Longrightarrow> fifo_step v (a_schedule w)"
  by (auto simp: fifo_step_def a_schedule_def a_next_def)

lemma fifo_block: "v_ready w = v_ready v \<Longrightarrow> v_idle w = v_idle v \<Longrightarrow> fifo_step v (a_block w)"
  unfolding a_block_def by (rule fifo_schedule [where ys = "[]"]) (simp_all add: a_set_def)

lemma fifo_yield: "v_ready w = v_ready v @ ys \<Longrightarrow> v_idle w = v_idle v \<Longrightarrow> fifo_step v (a_yield b w)"
  unfolding a_yield_def
  by (rule fifo_schedule [where ys = "ys @ (if v_cur w = v_idle w then [] else [v_cur w])"]) (simp_all add: a_set_def a_push_def)

lemma fifo_down: "v_ready w = v_ready v \<Longrightarrow> v_idle w = v_idle v \<Longrightarrow> v_cur w = v_cur v \<Longrightarrow> fifo_step v (a_down_test s b w)"
  by (auto simp: a_down_test_def a_push_def a_wait_def intro: fifo_block fifo_stay [where ys = "[]"])

lemma fifo_up: "v_ready w = v_ready v \<Longrightarrow> v_cur w = v_cur v \<Longrightarrow> fifo_step v (a_sema_up s w)"
  by (cases "v_wait w s") (auto simp: a_sema_up_def a_wake_def a_unblock_def a_set_def Let_def intro: fifo_stay)

lemma wake_n_ready: "\<exists>ys. v_ready (a_wake_n m v) = v_ready v @ ys"
proof (induction m v rule: a_wake_n.induct)
  case (2 m v)
  show ?case
  proof (cases "v_asleep v")
    case (Cons p ps)
    obtain ys where "v_ready (a_wake_n m (a_unblock p (v\<lparr>v_asleep := ps\<rparr>))) = v_ready (a_unblock p (v\<lparr>v_asleep := ps\<rparr>)) @ ys"
      using 2 [OF Cons] by blast
    then show ?thesis using Cons by (intro exI [of _ "p # ys"]) (simp add: a_unblock_def a_set_def)
  qed simp
qed simp

lemma a_intr_sel [simp]: "v_ready (a_intr v) = v_ready v" "v_idle (a_intr v) = v_idle v"
  by (simp_all add: a_intr_def a_push_def)

lemma a_pop_ready [simp]: "v_ready (a_pop v) = v_ready v"
  by (simp add: a_pop_def)

lemma fifo_vseg:
  assumes "vseg s w v'" "v_ready w = v_ready v" "v_idle w = v_idle v" "v_cur w = v_cur v"
  shows "fifo_step v v'"
  using assms
proof (cases rule: vseg.cases)
  case (vs_down x)
  then show ?thesis using assms by (auto intro: fifo_down)
next
  case (vs_up x)
  then show ?thesis using assms by (auto intro: fifo_up)
qed (auto simp: a_push_def intro!: fifo_stay [where ys = "[]"])

lemma fifo_vact:
  assumes "vact a v v'"
  shows "fifo_step v v'"
  using assms
proof (cases rule: vact.cases)
  case (va_tick m)
  then show ?thesis using wake_n_ready [of m "a_intr v"] by (auto intro: fifo_stay)
next
  case (va_tick_yield m)
  then show ?thesis using wake_n_ready [of m "a_intr v"] by (auto intro: fifo_yield)
next
  case (va_start p f ss)
  then show ?thesis by (intro fifo_stay [where ys = "[p]"]) (simp_all add: a_unblock_def a_set_def a_push_def)
next
  case (va_call c)
  note call = va_call(3)
  have s: "vseg s v v' \<Longrightarrow> fifo_step v v'" for s by (rule fifo_vseg) auto
  show ?thesis using call
  proof (cases rule: vcall.cases)
    case vc_exit
    then show ?thesis unfolding a_exit_def by (auto intro!: fifo_schedule [where ys = "[]"])
  next
    case vc_yield
    then show ?thesis by (auto intro!: fifo_yield [where ys = "[]"])
  qed (auto simp: a_push_def a_set_def intro: s fifo_stay [where ys = "[]"])
next
  case (va_seg s ss)
  then show ?thesis by (auto intro: fifo_vseg)
next
  case (va_test s ss)
  then show ?thesis by (auto intro: fifo_down)
next
  case va_block_now
  then show ?thesis by (auto simp: a_push_def intro: fifo_block)
next
  case va_idle
  then show ?thesis by (auto simp: a_push_def intro: fifo_block)
qed (auto intro: fifo_stay [where ys = "[]"])

end
