(* ===== verification/Kthread_Properties.thy ===== *)
theory Kthread_Properties
  imports Ktimer
begin

text \<open>
  The properties of the thread system: the invariants of every state reached without the
  race of \<open>timer_sleep\<close>, the panics, mutual exclusion, the order of service, preemption and the alarm clock.
\<close>

section \<open>Reachable states\<close>

lemma sched_lists:
  assumes "kinv k"
  shows "threads k p = Some t \<Longrightarrow> t_status t = THREAD_RUNNING \<longleftrightarrow> p = cur k"
    "threads k p = Some t \<Longrightarrow> t_status t = THREAD_READY \<and> p \<noteq> idle_thread k \<longleftrightarrow> p \<in> set (ready_list k)"
    "distinct (ready_list k)" "distinct (blocked_list k)" "distinct (waiters (semas k s))"
    "set (ready_list k) \<inter> set (blocked_list k) = {}"
    "set (waiters (semas k s)) \<inter> (set (ready_list k) \<union> set (blocked_list k)) = {}"
    "s \<noteq> s' \<Longrightarrow> set (waiters (semas k s)) \<inter> set (waiters (semas k s')) = {}"
proof -
  let ?v = "sched_view k"
  have i: "sched_inv ?v" using assms by (simp add: kinv_def)
  note c = sched_core [OF i]
  show "threads k p = Some t \<Longrightarrow> t_status t = THREAD_RUNNING \<longleftrightarrow> p = cur k"
    using core_running [OF c, of p] sched_running [OF i] by (auto simp: view_stat)
  show "threads k p = Some t \<Longrightarrow> t_status t = THREAD_READY \<and> p \<noteq> idle_thread k \<longleftrightarrow> p \<in> set (ready_list k)"
    using core_ready [OF c, of p] by (auto simp: view_stat)
  show "distinct (ready_list k)" "distinct (blocked_list k)" "distinct (waiters (semas k s))"
    using place_distinct [OF i, of Ready] place_distinct [OF i, of Asleep] place_distinct [OF i, of "Waiting s"] by simp_all
  show "set (ready_list k) \<inter> set (blocked_list k) = {}"
    using place_unique [OF i, of _ Ready Asleep] by auto
  show "set (waiters (semas k s)) \<inter> (set (ready_list k) \<union> set (blocked_list k)) = {}"
    using place_unique [OF i, of _ "Waiting s" Ready] place_unique [OF i, of _ "Waiting s" Asleep] by auto
  show "s \<noteq> s' \<Longrightarrow> set (waiters (semas k s)) \<inter> set (waiters (semas k s')) = {}"
    using place_unique [OF i, of _ "Waiting s" "Waiting s'"] by auto
qed

text \<open>
  C1: in every state the kernel reaches, by any interleaving of segments, calls and timer
  interrupts other than a timer interrupt that hits the race of \<open>timer_sleep\<close>, exactly the current thread is running, the ready list holds exactly the ready
  threads other than the idle thread, and the ready list, the list of sleepers and the waiters of
  every semaphore, which share one link element per thread, have no duplicates and no thread in
  common.
\<close>

theorem scheduler_invariant:
  assumes "kinv k0" "kreach (no_race P) k0 k"
  shows "(\<forall>p t. threads k p = Some t \<longrightarrow> (t_status t = THREAD_RUNNING \<longleftrightarrow> p = cur k)
      \<and> (t_status t = THREAD_READY \<and> p \<noteq> idle_thread k \<longleftrightarrow> p \<in> set (ready_list k)))
    \<and> distinct (ready_list k) \<and> distinct (blocked_list k) \<and> (\<forall>s. distinct (waiters (semas k s)))
    \<and> set (ready_list k) \<inter> set (blocked_list k) = {}
    \<and> (\<forall>s. set (waiters (semas k s)) \<inter> (set (ready_list k) \<union> set (blocked_list k)) = {})
    \<and> (\<forall>s s'. s \<noteq> s' \<longrightarrow> set (waiters (semas k s)) \<inter> set (waiters (semas k s')) = {})"
  using sched_lists [OF kreach_kinv [OF assms(2,1)]] by blast

lemma tick_no_race: "stack_of k \<noteq> [Block_now] \<Longrightarrow> \<not> race a k"
  by (simp add: race_def)

lemma boot_tick: obtains k where "do_action Tick boot_kernel = Some k" "kreach (no_race (\<lambda>_. True)) boot_kernel k"
  using action_keeps [OF boot_kinv, of Tick] boot_stack tick_no_race [of boot_kernel Tick]
    kreach_step [OF kreach_refl [of "no_race (\<lambda>_. True)" boot_kernel], of Tick]
  by (auto simp: no_race_def simp del: do_action.simps)

theorem scheduler_invariant_witness:
  "kinv boot_kernel \<and> (\<exists>k. do_action Tick boot_kernel = Some k \<and> kreach (no_race (\<lambda>_. True)) boot_kernel k
     \<and> distinct (ready_list k) \<and> set (ready_list k) \<inter> set (blocked_list k) = {})"
proof -
  obtain k where k: "do_action Tick boot_kernel = Some k" "kreach (no_race (\<lambda>_. True)) boot_kernel k"
    by (rule boot_tick)
  show ?thesis using scheduler_invariant [OF boot_kinv k(2)] k boot_kinv by blast
qed

section \<open>The race of timer_sleep\<close>

lemma due_panics:
  assumes "kinv k" "cur k \<in> set (due k)"
  shows "do_action Tick k = None"
proof (rule ccontr)
  assume "do_action Tick k \<noteq> None"
  then obtain k' where "external_interrupt timer_interrupt k = Some k'" by auto
  from tick_due_blocked [OF this] assms(2) obtain t where "threads k (cur k) = Some t" "t_status t = THREAD_BLOCKED"
    by (auto simp: due_def)
  then show False using sched_lists(1) [OF assms(1), of "cur k" t] by simp
qed

lemma tick_returns: "kinv k \<Longrightarrow> intr_on k \<Longrightarrow> cur k \<notin> set (due k) \<Longrightarrow> \<exists>k'. do_action Tick k = Some k'"
  using tick_runs [of k] unfolding runs_def by metis

text \<open>
  C2: the one way in which these actions make the kernel panic.  In every state reached without the
  race of \<open>timer_sleep\<close>, an enabled action that does not go through the list of held locks -
  semaphore operations, sleeping, yielding, exiting, context switches, timer interrupts, the idle
  loop, the rest of thread creation - fails an assertion exactly if it is a timer interrupt that
  arrives after \<open>timer_sleep\<close> has entered the running thread in the list of sleepers, before it
  disables interrupts, and finds the thread due; an action that returns keeps the invariants
  unless it hits the race.
\<close>

theorem kernel_panics_only_in_race:
  assumes "kinv k0" "kreach (no_race P) k0 k" "enabled a k" "simple_action a k"
  shows "(do_action a k = None \<longleftrightarrow> a = Tick \<and> stack_of k = [Block_now] \<and> cur k \<in> set (due k))
    \<and> (\<forall>k'. do_action a k = Some k' \<and> \<not> race a k \<longrightarrow> kinv k')"
proof -
  have k: "kinv k" by (rule kreach_kinv [OF assms(2,1)])
  have "do_action a k \<noteq> None" "\<forall>k'. do_action a k = Some k' \<longrightarrow> kinv k'" if "\<not> race a k"
    using action_keeps [OF k assms(3) that] assms(4) by (auto simp: keeps_def)
  moreover have "do_action a k = None \<longleftrightarrow> cur k \<in> set (due k)" if "race a k"
  proof -
    have "a = Tick" "intr_on k" using that assms(3) by (auto simp: race_def)
    then show ?thesis using due_panics [OF k] tick_returns [OF k] by fastforce
  qed
  ultimately show ?thesis by (cases "race a k") (auto simp: race_def simp del: do_action.simps)
qed

theorem kernel_panics_only_in_race_witness:
  "kinv boot_kernel \<and> enabled (Call (Call_sleep 3)) boot_kernel \<and> simple_action (Call (Call_sleep 3)) boot_kernel
    \<and> (\<exists>k'. timer_sleep 3 boot_kernel = Some k' \<and> kinv k')"
  using kernel_panics_only_in_race [OF boot_kinv kreach_refl, of "Call (Call_sleep 3)"] boot_kinv boot_stack
    tick_no_race [of boot_kernel "Call (Call_sleep 3)"] by auto

section \<open>Refinement\<close>

text \<open>
  C4: the operations of \<open>thread.c\<close>, \<open>synch.c\<close> and \<open>timer.c\<close> refine the abstract scheduler:
  whenever an action that does not hit the race of \<open>timer_sleep\<close> returns, the abstraction of the
  new state is a step of the abstract kernel from the abstraction of the old one.
\<close>

theorem kernel_refines_abstract:
  assumes "kinv k0" "kreach (no_race P) k0 k" "enabled a k" "\<not> race a k" "do_action a k = Some k'"
  shows "vact a (sched_view k) (sched_view k')"
  using action_keeps [OF kreach_kinv [OF assms(2,1)] assms(3,4)] assms(5) by (simp add: keeps_def)

theorem kernel_refines_abstract_witness:
  "\<exists>k'. do_action Tick boot_kernel = Some k' \<and> vact Tick (sched_view boot_kernel) (sched_view k')"
proof -
  obtain k' where k': "do_action Tick boot_kernel = Some k'" by (rule boot_tick)
  show ?thesis using kernel_refines_abstract [OF boot_kinv kreach_refl _ _ k'] boot_stack tick_no_race [of boot_kernel Tick] k' by auto
qed

lemma sleepers_live:
  assumes "kinv k" "enabled (Call c) k" "q \<in> set (blocked_list k)"
  shows "(\<exists>u. threads k q = Some u) \<and> q \<noteq> cur k"
proof -
  have i: "sched_inv (sched_view k)" and w: "\<not> sleeping_window (sched_view k) q"
    using assms stack_view [of k] by (auto simp: kinv_def sleeping_window_def)
  have "v_stat (sched_view k) q = Some THREAD_BLOCKED"
    using core_queued [OF sched_core [OF i], of Asleep q] assms(3) w by simp
  then show ?thesis using sched_running [OF i] by (auto simp: view_stat)
qed

section \<open>Runs given by their actions\<close>

fun acts :: "(action \<Rightarrow> kernel \<Rightarrow> bool) \<Rightarrow> action list \<Rightarrow> kernel \<Rightarrow> kernel option" where
  "acts P [] k = Some k"
| "acts P (a # as) k = (if enabled a k \<and> P a k then Option.bind (do_action a k) (acts P as) else None)"

lemma acts_reach: "kreach P k0 k \<Longrightarrow> acts P as k = Some k' \<Longrightarrow> kreach P k0 k'"
  by (induction as arbitrary: k) (auto simp: bind_eq_Some_conv split: if_splits intro: kreach_step)

lemmas run_simps = thread_create_def create_rest_def alloc_frame_def thread_unblock_def thread_block_def schedule_def
  next_thread_to_run_def thread_schedule_tail_def process_activate_def tss_update_def pagedir_activate_def kernel_thread_def
  no_race_def race_def timer_sleep_def timer_ticks_def block_now_def set_thread_blocked_ticks_def stack_of_def

section \<open>Locks\<close>

text \<open>
  C3: mutual exclusion.  As long as the semaphore inside a lock is used only through the lock,
  a lock that has a holder has semaphore value 0, no other thread is past the semaphore, and no
  action of another thread changes the holder: only the holder gives the lock up.
\<close>

theorem lock_mutual_exclusion:
  assumes "kinv k0" "lock_inv l (sched_view k0)" "kreach (no_race (uses_lock_only l)) k0 k"
    "lock_holder k l \<noteq> NULL" "enabled a k" "\<not> race a k" "do_action a k = Some k'" "cur k \<noteq> lock_holder k l"
  shows "lock_holder k' l = lock_holder k l \<and> sema_value (semas k (lock_sema l)) = 0
    \<and> \<not> (\<exists>ss. stack_of k = Lock_taken l # ss)"
proof -
  let ?v = "sched_view k"
  have k: "kinv k" by (rule kreach_kinv [OF assms(3,1)])
  have l: "lock_inv l ?v" by (rule kreach_lock [OF assms(3,1,2)])
  have a: "vact a ?v (sched_view k')" using action_keeps [OF k assms(5,6)] assms(7) by (simp add: keeps_def)
  have "uint (v_val ?v (lock_sema l)) = 0"
  proof -
    have "uint (v_val ?v (lock_sema l)) + 1 + lock_total l (v_cont ?v) = 1" using l assms(4) by (simp add: lock_inv_def)
    moreover have "0 \<le> uint (v_val ?v (lock_sema l))" by simp
    ultimately show ?thesis using total_ge(2) [OF l] by linarith
  qed
  moreover have "lock_holder k' l = lock_holder k l" using holder_vact [OF l _ _ a] assms(4,8) by simp
  moreover have "stack_of k \<noteq> Lock_taken l # ss" for ss
    using taken_free(1) [OF l, of "cur k" ss] stack_view [of k] k assms(4) by (auto simp: kinv_def)
  ultimately show ?thesis by (simp add: uint_0_iff)
qed

text \<open>A run of the boot kernel in which the main thread takes the lock and goes to sleep.\<close>

lemma lock_run:
  "case acts (no_race (uses_lock_only 0xc0030000)) [Call (Call_acquire 0xc0030000), Resume, Resume, Call (Call_sleep 3), Resume] boot_kernel of
     Some k \<Rightarrow> lock_holder k 0xc0030000 = 0xc000e000 \<and> cur k = 0xc0104000 \<and> enabled Resume k \<and> resume k \<noteq> None
   | None \<Rightarrow> False"
  unfolding boot_kernel_def idle_struct_def
  by (simp add: boot_simps run_simps kernel0_def main_thread_def)

theorem lock_mutual_exclusion_witness:
  "\<exists>k k'. kreach (no_race (uses_lock_only 0xc0030000)) boot_kernel k \<and> lock_holder k 0xc0030000 = 0xc000e000 \<and> cur k = 0xc0104000
     \<and> do_action Resume k = Some k' \<and> lock_holder k' 0xc0030000 = 0xc000e000"
proof -
  obtain k k' where k: "acts (no_race (uses_lock_only 0xc0030000)) [Call (Call_acquire 0xc0030000), Resume, Resume, Call (Call_sleep 3), Resume]
      boot_kernel = Some k" "lock_holder k 0xc0030000 = 0xc000e000" "cur k = 0xc0104000" "enabled Resume k" "do_action Resume k = Some k'"
    using lock_run by (auto split: option.splits simp del: acts.simps enabled.simps)
  have r: "kreach (no_race (uses_lock_only 0xc0030000)) boot_kernel k" by (rule acts_reach [OF kreach_refl k(1)])
  show ?thesis using lock_mutual_exclusion [OF boot_kinv boot_lock r _ k(4) _ k(5)] k r by (auto simp: race_def)
qed

section \<open>Scheduling\<close>



section \<open>Preemption\<close>

text \<open>A thread that only computes: timer interrupts arrive and return to it.\<close>

fun busy_ticks :: "nat \<Rightarrow> kernel \<Rightarrow> kernel option" where
  "busy_ticks 0 k = external_interrupt timer_interrupt k"
| "busy_ticks (Suc n) k = do { k \<leftarrow> external_interrupt timer_interrupt k; k \<leftarrow> resume k; busy_ticks n k }"

lemma tick_keeps:
  assumes "kinv k" "enabled Tick k" "\<not> race Tick k"
  obtains k' where "external_interrupt timer_interrupt k = Some k'" "kinv k'"
  using action_keeps [OF assms] by (auto simp: keeps_def)

lemma intr_return_frame:
  assumes "kinv k" "stack_of k = Intr_return # ss"
  obtains k' where "resume k = Some k'" "kinv k'" "stack_of k' = ss" "intr_on k'" "cur k' = cur k" "ready_list k' = ready_list k"
    "thread_ticks k' = thread_ticks k" "blocked_list k' = blocked_list k"
proof -
  obtain k' where k': "resume k = Some k'" "kinv k'" using action_keeps [OF assms(1), of Resume] assms(2) by (auto simp: keeps_def race_def)
  obtain t where t: "threads k (cur k) = Some t" "t_cont t = Intr_return # ss" using assms(2) by (auto simp: stack_of_def split: option.splits)
  have "k' = k\<lparr>threads := (threads k)(cur k \<mapsto> t\<lparr>t_cont := ss\<rparr>), intr_on := True\<rparr>"
    using k'(1) t by (simp add: resume_def upd_thread_def)
  then show ?thesis using that [OF k'] by (simp add: stack_of_def)
qed

lemma unat_eq_3: "(w :: u32) = 3 \<longleftrightarrow> unat w = 3"
  by (simp add: word_unat_eq_iff)

lemma busy_ticks_switch:
  assumes "kinv k" "enabled Tick k" "ready_list k \<noteq> []" "unat (thread_ticks k) + n + 1 = 4" "stack_of k \<noteq> [Block_now]"
  shows "\<exists>k'. busy_ticks n k = Some k' \<and> kinv k' \<and> cur k' = hd (ready_list k)"
  using assms
proof (induction n arbitrary: k)
  case 0
  obtain k' where k': "external_interrupt timer_interrupt k = Some k'" "kinv k'" by (rule tick_keeps [OF 0(1,2) tick_no_race [OF 0(5)]])
  have "thread_ticks k = 3" using 0(4) by (simp add: unat_eq_3)
  then have "\<not> thread_ticks k + 1 < TIME_SLICE" by (simp add: TIME_SLICE_def)
  then show ?case using tick_frame(4) [OF k'(1)] k' 0(3) by (simp add: Let_def)
next
  case (Suc n)
  obtain k1 where k1: "external_interrupt timer_interrupt k = Some k1" "kinv k1" by (rule tick_keeps [OF Suc(2,3) tick_no_race [OF Suc(6)]])
  have u: "unat (thread_ticks k + 1) = unat (thread_ticks k) + 1" using Suc(5) by (subst unat_add_lem [THEN iffD1]) simp_all
  then have "thread_ticks k + 1 < TIME_SLICE" using Suc(5) by (simp add: word_less_nat_alt TIME_SLICE_def)
  from tick_frame(3) [OF k1(1) this]
  have f: "cur k1 = cur k" "thread_ticks k1 = thread_ticks k + 1" "stack_of k1 = Intr_return # stack_of k"
    "ready_list k1 \<noteq> []" "hd (ready_list k1) = hd (ready_list k)" using Suc(4) by auto
  obtain k2 where k2: "resume k1 = Some k2" "kinv k2" "stack_of k2 = stack_of k" "intr_on k2" "ready_list k2 = ready_list k1"
      "thread_ticks k2 = thread_ticks k1"
    by (rule intr_return_frame [OF k1(2) f(3)])
  have "\<exists>k'. busy_ticks n k2 = Some k' \<and> kinv k' \<and> cur k' = hd (ready_list k2)"
    using k2 f u Suc(3,5,6) by (intro Suc(1)) auto
  then show ?case using k1(1) k2(1,5) f(5) by simp
qed

text \<open>
  C5: no thread keeps the processor for more than a time slice.  Whatever the running thread does
  between interrupts, after as many timer interrupts as are left of its four ticks the thread at
  the front of the ready list runs; every interrupt on the way is handled without a panic.  The
  thread is not between the insertion into the list of sleepers and the end of \<open>timer_sleep\<close>.
\<close>

theorem preemption_within_time_slice:
  assumes "kinv k0" "kreach (no_race P) k0 k" "enabled Tick k" "stack_of k \<noteq> [Block_now]" "ready_list k \<noteq> []"
    "thread_ticks k < TIME_SLICE"
  shows "\<exists>n k'. unat (thread_ticks k) + n < unat TIME_SLICE \<and> busy_ticks n k = Some k' \<and> kinv k' \<and> cur k' = hd (ready_list k)"
proof -
  have n: "unat (thread_ticks k) + (3 - unat (thread_ticks k)) + 1 = 4"
    using assms(6) by (simp add: word_less_nat_alt TIME_SLICE_def)
  show ?thesis using busy_ticks_switch [OF kreach_kinv [OF assms(2,1)] assms(3,5) n assms(4)] n
    by (intro exI [of _ "3 - unat (thread_ticks k)"]) (simp add: TIME_SLICE_def)
qed

lemma create_run:
  "case acts (no_race (\<lambda>_. True)) [Call (Call_create 0xc0030000 0xc0106000 [0x61] 31 0xc0021000), Resume, Resume, Resume, Resume, Resume, Resume, Resume] boot_kernel of
     Some k \<Rightarrow> enabled Tick k \<and> stack_of k = [] \<and> ready_list k = [0xc0106000] \<and> thread_ticks k = 0 | None \<Rightarrow> False"
  unfolding boot_kernel_def idle_struct_def
  by (simp add: boot_simps run_simps kernel0_def main_thread_def)

theorem preemption_within_time_slice_witness:
  "\<exists>k n k'. kreach (no_race (\<lambda>_. True)) boot_kernel k \<and> ready_list k = [0xc0106000] \<and> n < 4 \<and> busy_ticks n k = Some k' \<and> cur k' = 0xc0106000"
proof -
  obtain k where k: "acts (no_race (\<lambda>_. True)) [Call (Call_create 0xc0030000 0xc0106000 [0x61] 31 0xc0021000), Resume, Resume, Resume, Resume, Resume, Resume, Resume] boot_kernel = Some k"
      "enabled Tick k" "ready_list k = [0xc0106000]" "thread_ticks k = 0" "stack_of k = []"
    using create_run by (auto split: option.splits simp del: acts.simps enabled.simps)
  have r: "kreach (no_race (\<lambda>_. True)) boot_kernel k" by (rule acts_reach [OF kreach_refl k(1)])
  show ?thesis using preemption_within_time_slice [OF boot_kinv r k(2)] k(3-5) r by (fastforce simp: TIME_SLICE_def)
qed

section \<open>The alarm clock\<close>

definition by_deadline :: "kernel \<Rightarrow> bool" where
  "by_deadline k \<longleftrightarrow> sorted (map (deadline k) (blocked_list k))"

lemma sorted_while_le:
  fixes f :: "'a \<Rightarrow> int"
  assumes "sorted (map f xs)"
  shows "dropWhile (\<lambda>x. f x \<le> n) xs = filter (\<lambda>x. n < f x) xs \<and> takeWhile (\<lambda>x. f x \<le> n) xs = filter (\<lambda>x. f x \<le> n) xs"
  using assms
proof (induction xs)
  case (Cons x xs)
  have s: "sorted (map f xs)" "\<And>y. y \<in> set xs \<Longrightarrow> f x \<le> f y" using Cons(2) by auto
  have all: "\<not> f x \<le> n \<Longrightarrow> \<forall>y \<in> set xs. n < f y" using s(2) by force
  show ?case 
  proof (cases "f x \<le> n")
    case False
    then have "filter (\<lambda>x. f x \<le> n) xs = []" "filter (\<lambda>x. n < f x) xs = xs"
      using all by (auto simp: filter_empty_conv filter_id_conv not_le)
    then show ?thesis using False by simp
  qed (use Cons(1) [OF s(1)] in simp)
qed simp

text \<open>
  C7: a timer interrupt wakes exactly the sleepers that are due.  When it does not hit the race of
  \<open>timer_sleep\<close> and the list of sleepers is
  ordered by deadline, the interrupt returns, the sleepers that remain are those whose deadline
  lies after the new tick, in the same order, and the sleepers that are due are in the ready list
  in order of their deadlines, unless the slice is over and the first of them already runs.
\<close>

theorem tick_wakes_due_sleepers:
  assumes "kinv k" "enabled Tick k" "\<not> race Tick k" "by_deadline k"
  shows "\<exists>k'. external_interrupt timer_interrupt k = Some k' \<and> ticks k' = s64 (ticks k + 1)
    \<and> blocked_list k' = filter (\<lambda>p. ticks k' < deadline k p) (blocked_list k)
    \<and> (\<forall>p \<in> set (blocked_list k). deadline k p \<le> ticks k' \<longrightarrow> p = cur k' \<or> p \<in> set (ready_list k'))
    \<and> (thread_ticks k + 1 < TIME_SLICE \<longrightarrow> ready_list k' = ready_list k @ filter (\<lambda>p. deadline k p \<le> ticks k') (blocked_list k))"
proof -
  obtain k' where k': "external_interrupt timer_interrupt k = Some k'" "kinv k'" by (rule tick_keeps [OF assms(1-3)])
  note w = conjunct1 [OF sorted_while_le [OF assms(4) [unfolded by_deadline_def], of "ticks k'"]]
    conjunct2 [OF sorted_while_le [OF assms(4) [unfolded by_deadline_def], of "ticks k'"]]
  note f = tick_frame [OF k'(1)]
  have "p = cur k' \<or> p \<in> set (ready_list k')" if "p \<in> set (blocked_list k)" "deadline k p \<le> ticks k'" for p
  proof (cases "thread_ticks k + 1 < TIME_SLICE")
    case True
    then show ?thesis using f(3) that by (simp add: w)
  next
    case False
    define r where "r = ready_list k @ filter (\<lambda>p. deadline k p \<le> ticks k') (blocked_list k) @ (if cur k = idle_thread k then [] else [cur k])"
    have "ready_list k' = tl r" "cur k' = (if r = [] then idle_thread k else hd r)" using f(4) [OF False] by (simp_all add: w r_def Let_def)
    moreover have "p \<in> set r" using that by (simp add: r_def)
    ultimately show ?thesis by (cases r) auto
  qed
  then show ?thesis using k'(1) f(1-3) w by auto
qed

lemma sleep_run:
  "case acts (no_race (\<lambda>_. True)) [Call (Call_sleep 1), Resume, Resume] boot_kernel of
     Some k \<Rightarrow> enabled Tick k \<and> stack_of k = [] \<and> blocked_list k = [0xc000e000] \<and> deadline k 0xc000e000 = 1 \<and> ticks k = 0 \<and> thread_ticks k = 0
       \<and> ready_list k = [] | None \<Rightarrow> False"
  unfolding boot_kernel_def idle_struct_def
  by (simp add: boot_simps run_simps kernel0_def main_thread_def deadline_def s64_def)

theorem tick_wakes_due_sleepers_witness:
  "\<exists>k k'. kreach (no_race (\<lambda>_. True)) boot_kernel k \<and> blocked_list k = [0xc000e000] \<and> by_deadline k
     \<and> external_interrupt timer_interrupt k = Some k' \<and> blocked_list k' = [] \<and> ready_list k' = [0xc000e000]"
proof -
  obtain k where k: "acts (no_race (\<lambda>_. True)) [Call (Call_sleep 1), Resume, Resume] boot_kernel = Some k" "enabled Tick k"
      "blocked_list k = [0xc000e000]" "deadline k 0xc000e000 = 1" "ticks k = 0" "thread_ticks k = 0" "ready_list k = []" "stack_of k = []"
    using sleep_run by (auto split: option.splits simp del: acts.simps enabled.simps)
  have r: "kreach (no_race (\<lambda>_. True)) boot_kernel k" by (rule acts_reach [OF kreach_refl k(1)])
  have d: "by_deadline k" using k(3) by (simp add: by_deadline_def)
  show ?thesis using tick_wakes_due_sleepers [OF kreach_kinv [OF r boot_kinv] k(2) _ d] k(3-) r d by (auto simp: TIME_SLICE_def s64_def race_def)
qed

text \<open>
  C8: \<open>timer_sleep\<close> enters the running thread in the list of sleepers with the deadline
  \<open>ticks + n\<close>, wrapped to 64 bits, and keeps the list ordered by deadline: the thread goes
  behind every sleeper that is due no later.  The search for the place and the insertion are one
  step here; in the code, which does not disable interrupts first, a timer interrupt may also come
  between their instructions.
\<close>

theorem timer_sleep_ordered:
  assumes "kinv k" "enabled (Call (Call_sleep n)) k" "by_deadline k"
  shows "\<exists>k'. timer_sleep n k = Some k' \<and> deadline k' (cur k) = s64 (n + ticks k) \<and> by_deadline k'
    \<and> blocked_list k' = filter (\<lambda>q. deadline k q \<le> s64 (n + ticks k)) (blocked_list k)
        @ cur k # filter (\<lambda>q. s64 (n + ticks k) < deadline k q) (blocked_list k)"
proof -
  let ?p = "cur k" and ?d = "s64 (n + ticks k)"
  obtain k' where k': "timer_sleep n k = Some k'" using action_keeps [OF assms(1,2)] by (auto simp: race_def)
  have i: "sched_inv (sched_view k)" "threads_wf k" using assms(1) by (simp_all add: kinv_def)
  obtain t where t: "threads k ?p = Some t" "t_status t = THREAD_RUNNING"
    using sched_running [OF i(1)] by (auto simp: view_stat)
  have live: "\<exists>u. threads k q = Some u" "q \<noteq> ?p" if "q \<in> set (blocked_list k)" for q
    using sleepers_live [OF assms(1,2) that] by auto
  define k1 where "k1 = k\<lparr>threads := (threads k)(?p \<mapsto> t\<lparr>blocked_ticks := ?d\<rparr>)\<rparr>"
  have cmp: "(\<not> compare_thread k1 ?p q) = (deadline k q \<le> ?d)" if "q \<in> set (blocked_list k)" for q
    using live [OF that] by (auto simp: compare_thread_def k1_def deadline_def not_less)
  have k'_eq: "k' = k1\<lparr>threads := (threads k1)(?p \<mapsto> t\<lparr>blocked_ticks := ?d, t_cont := Block_now # t_cont t\<rparr>),
      blocked_list := takeWhile (\<lambda>q. \<not> compare_thread k1 ?p q) (blocked_list k) @ ?p # dropWhile (\<lambda>q. \<not> compare_thread k1 ?p q) (blocked_list k)\<rparr>"
    using k' t by (auto simp: timer_sleep_def timer_ticks_def set_thread_blocked_ticks_def upd_thread_def push_cont_def ret_simps
      k1_def dest!: current_eq)
  have b: "blocked_list k' = takeWhile (\<lambda>q. deadline k q \<le> ?d) (blocked_list k) @ ?p # dropWhile (\<lambda>q. deadline k q \<le> ?d) (blocked_list k)"
    unfolding k'_eq using cmp by (simp cong: takeWhile_cong dropWhile_cong)
  have d: "deadline k' = (deadline k)(?p := ?d)" unfolding k'_eq by (simp add: k1_def deadline_def fun_eq_iff)
  note w = sorted_while_le [OF assms(3) [unfolded by_deadline_def], of ?d]
  have m: "map (deadline k') (filter P (blocked_list k)) = map (deadline k) (filter P (blocked_list k))" for P
    using live(2) by (auto simp: d)
  have "by_deadline k'" unfolding by_deadline_def b w [THEN conjunct1] w [THEN conjunct2] map_append list.map m
    using assms(3) by (auto simp: by_deadline_def d sorted_append sorted_filter)
  then show ?thesis using k' b d w by simp
qed

theorem timer_sleep_ordered_witness:
  "kinv boot_kernel \<and> by_deadline boot_kernel \<and>
   (\<exists>k'. timer_sleep 5 boot_kernel = Some k' \<and> blocked_list k' = [0xc000e000] \<and> deadline k' 0xc000e000 = 5 \<and> by_deadline k')"
proof -
  have d: "by_deadline boot_kernel" "blocked_list boot_kernel = []" "ticks boot_kernel = 0" "cur boot_kernel = 0xc000e000"
    by (simp_all add: by_deadline_def boot_kernel_def kernel0_def)
  show ?thesis using timer_sleep_ordered [OF boot_kinv _ d(1), of 5] d boot_kinv boot_stack by (auto simp: s64_def)
qed

text \<open>
  C9: the race of \<open>timer_sleep\<close>, which disables interrupts only after the insertion into the list of
  sleepers.  If a timer interrupt in between finds the running thread due (\<open>timer_sleep (0)\<close>, or a
  tick that arrives late), it calls \<open>thread_unblock\<close> on a thread that is not blocked and the kernel
  panics; if it ends the time slice instead, it returns, and when another thread is ready, the thread is
  afterwards both in the ready list and in the list of sleepers, linked twice through one element.
\<close>

theorem timer_sleep_race:
  assumes "kinv k" "intr_on k" "race Tick k"
  shows "if cur k \<in> set (due k) then external_interrupt timer_interrupt k = None
    else \<exists>k'. external_interrupt timer_interrupt k = Some k' \<and> cur k \<in> set (blocked_list k')
      \<and> (ready_list k @ due k \<noteq> [] \<longrightarrow> cur k \<in> set (ready_list k'))"
proof (cases "cur k \<in> set (due k)")
  case True
  then show ?thesis using due_panics [OF assms(1)] by simp
next
  case False
  let ?v = "sched_view k"
  obtain k' where k': "external_interrupt timer_interrupt k = Some k'" using tick_returns [OF assms(1,2) False] by auto
  have i: "sched_inv ?v" using assms(1) by (simp add: kinv_def)
  have w: "stack_of k = [Block_now]" "TIME_SLICE \<le> thread_ticks k + 1" using assms(3) False by (auto simp: race_def)
  have c: "v_cont ?v (v_cur ?v) = [Block_now]" using w(1) stack_view [OF i] by simp
  have a: "cur k \<in> set (blocked_list k)" using core_window [OF sched_core [OF i], of "v_cur ?v"] c by simp
  have n: "cur k \<noteq> idle_thread k" using not_idle_stack [OF assms(1) w(1)] by simp
  note f = tick_frame [OF k']
  have d: "due k = takeWhile (\<lambda>p. deadline k p \<le> ticks k') (blocked_list k)" using f(1) by (simp add: due_def)
  have "set (blocked_list k) = set (due k) \<union> set (blocked_list k')"
    unfolding d f(2) by (metis set_append takeWhile_dropWhile_id)
  then have "cur k \<in> set (blocked_list k')" using a False by auto
  moreover have "ready_list k' = tl ((ready_list k @ due k) @ [cur k])" using f(4) w(2) n by (simp add: d Let_def not_less)
  then have "cur k \<in> set (ready_list k')" if "ready_list k @ due k \<noteq> []" using that by (cases "ready_list k"; cases "due k") auto
  ultimately show ?thesis using k' False by simp
qed

lemma race_run:
  "case acts (no_race (\<lambda>_. True)) [Call (Call_sleep 0)] boot_kernel of
     Some k \<Rightarrow> intr_on k \<and> race Tick k \<and> cur k \<in> set (due k) | None \<Rightarrow> False"
  unfolding boot_kernel_def idle_struct_def
  by (simp add: boot_simps run_simps kernel0_def main_thread_def s64_def due_def deadline_def)

theorem timer_sleep_race_witness:
  "\<exists>k. kreach (no_race (\<lambda>_. True)) boot_kernel k \<and> kinv k \<and> race Tick k \<and> external_interrupt timer_interrupt k = None"
proof -
  obtain k where k: "acts (no_race (\<lambda>_. True)) [Call (Call_sleep 0)] boot_kernel = Some k" "intr_on k" "race Tick k" "cur k \<in> set (due k)"
    using race_run by (auto split: option.splits simp del: acts.simps)
  have r: "kreach (no_race (\<lambda>_. True)) boot_kernel k" by (rule acts_reach [OF kreach_refl k(1)])
  then show ?thesis using timer_sleep_race [OF kreach_kinv [OF r boot_kinv] k(2,3)] k(3,4) kreach_kinv [OF r boot_kinv] by auto
qed

end
