(* ===== verification/Vaddr.thy ===== *)
theory Vaddr
  imports Prelude
begin

text \<open>
  Virtual addresses and page-table entries: \<open>threads/vaddr.h\<close> and \<open>threads/pte.h\<close>, on 32-bit
  words with the masks and shifts of the source.  A failed assertion is \<open>None\<close>.
\<close>

section \<open>Addresses\<close>

definition BITMASK :: "nat \<Rightarrow> nat \<Rightarrow> u32" where
  "BITMASK shift cnt = push_bit shift (push_bit cnt 1 - 1)"

definition PGSHIFT :: nat where "PGSHIFT = 0"
definition PGBITS :: nat where "PGBITS = 12"
definition PGSIZE :: u32 where "PGSIZE = push_bit PGBITS 1"
definition PGMASK :: u32 where "PGMASK = BITMASK PGSHIFT PGBITS"

definition pg_ofs :: "u32 \<Rightarrow> u32" where "pg_ofs va = va AND PGMASK"
definition pg_no :: "u32 \<Rightarrow> u32" where "pg_no va = drop_bit PGBITS va"
definition pg_round_up :: "u32 \<Rightarrow> u32" where "pg_round_up va = (va + PGSIZE - 1) AND NOT PGMASK"
definition pg_round_down :: "u32 \<Rightarrow> u32" where "pg_round_down va = va AND NOT PGMASK"

definition PHYS_BASE :: u32 where "PHYS_BASE = 0xc0000000"

definition is_user_vaddr :: "u32 \<Rightarrow> bool" where "is_user_vaddr va \<longleftrightarrow> va < PHYS_BASE"
definition is_kernel_vaddr :: "u32 \<Rightarrow> bool" where "is_kernel_vaddr va \<longleftrightarrow> va \<ge> PHYS_BASE"

definition ptov :: "u32 \<Rightarrow> u32 option" where
  "ptov paddr = do { kassert (paddr < PHYS_BASE); Some (paddr + PHYS_BASE) }"

definition vtop :: "u32 \<Rightarrow> u32 option" where
  "vtop va = do { kassert (is_kernel_vaddr va); Some (va - PHYS_BASE) }"

section \<open>Page-table entries\<close>

definition PTSHIFT :: nat where "PTSHIFT = PGBITS"
definition PTBITS :: nat where "PTBITS = 10"
definition PTSPAN :: u32 where "PTSPAN = push_bit PGBITS (push_bit PTBITS 1)"
definition PTMASK :: u32 where "PTMASK = BITMASK PTSHIFT PTBITS"
definition PDSHIFT :: nat where "PDSHIFT = PTSHIFT + PTBITS"
definition PDBITS :: nat where "PDBITS = 10"
definition PDMASK :: u32 where "PDMASK = BITMASK PDSHIFT PDBITS"

definition pt_no :: "u32 \<Rightarrow> u32" where "pt_no va = drop_bit PTSHIFT (va AND PTMASK)"
definition pd_no :: "u32 \<Rightarrow> u32" where "pd_no va = drop_bit PDSHIFT va"

definition PTE_FLAGS :: u32 where "PTE_FLAGS = 0x00000fff"
definition PTE_ADDR :: u32 where "PTE_ADDR = 0xfffff000"
definition PTE_AVL :: u32 where "PTE_AVL = 0x00000e00"
definition PTE_P :: u32 where "PTE_P = 0x1"
definition PTE_W :: u32 where "PTE_W = 0x2"
definition PTE_U :: u32 where "PTE_U = 0x4"
definition PTE_A :: u32 where "PTE_A = 0x20"
definition PTE_D :: u32 where "PTE_D = 0x40"

definition pde_create :: "u32 \<Rightarrow> u32 option" where
  "pde_create pt = do { kassert (pg_ofs pt = 0); p \<leftarrow> vtop pt; Some (p OR PTE_U OR PTE_P OR PTE_W) }"

definition pde_get_pt :: "u32 \<Rightarrow> u32 option" where
  "pde_get_pt pde = do { kassert (pde AND PTE_P \<noteq> 0); ptov (pde AND PTE_ADDR) }"

definition pte_create_kernel :: "u32 \<Rightarrow> bool \<Rightarrow> u32 option" where
  "pte_create_kernel page writable = do {
     kassert (pg_ofs page = 0);
     p \<leftarrow> vtop page;
     Some (p OR PTE_P OR (if writable then PTE_W else 0)) }"

definition pte_create_user :: "u32 \<Rightarrow> bool \<Rightarrow> u32 option" where
  "pte_create_user page writable = do { e \<leftarrow> pte_create_kernel page writable; Some (e OR PTE_U) }"

definition pte_get_page :: "u32 \<Rightarrow> u32 option" where
  "pte_get_page pte = ptov (pte AND PTE_ADDR)"

section \<open>Arithmetic of addresses\<close>

lemmas addr_consts = PGSHIFT_def PGBITS_def PTSHIFT_def PTBITS_def PDSHIFT_def PDBITS_def

lemma BITMASK_0: "BITMASK 0 n = mask n"
  by (simp add: BITMASK_def mask_eq_exp_minus_1 push_bit_eq_mult)

lemma BITMASK_shift: "BITMASK s n = push_bit s (mask n)"
  by (simp add: BITMASK_def mask_eq_exp_minus_1 push_bit_eq_mult)

lemma PGMASK_eq: "PGMASK = mask 12"
  by (simp add: PGMASK_def addr_consts BITMASK_0)

lemma PGSIZE_eq: "PGSIZE = 4096" "unat PGSIZE = 4096"
  by (simp_all add: PGSIZE_def addr_consts)

lemma unat_take_bit: "unat (take_bit n (w :: u32)) = unat w mod 2 ^ n"
  by (subst unsigned_take_bit_eq) (simp only: take_bit_eq_mod)

lemma unat_drop_bit32: "unat (drop_bit n (w :: u32)) = unat w div 2 ^ n"
proof -
  have "take_bit 32 (unat w) = unat w" using unat_lt2p [of w] by (simp add: take_bit_nat_eq_self)
  then have "unat (drop_bit n w) = drop_bit n (unat w)" by (simp only: unsigned_drop_bit_eq) simp
  then show ?thesis by (simp only: drop_bit_eq_div)
qed

lemma split_mask: "(w :: u32) = (w AND NOT (mask n)) + take_bit n w"
proof -
  have "(w AND NOT (mask n)) + take_bit n w = (w AND NOT (mask n)) OR take_bit n w"
    by (rule disjunctive_add) (simp add: bit_simps)
  also have "\<dots> = w" by (rule bit_word_eqI) (auto simp: bit_simps)
  finally show ?thesis by simp
qed

lemma unat_and_not_mask: "unat ((w :: u32) AND NOT (mask n)) = unat w div 2 ^ n * 2 ^ n"
proof -
  have "w AND NOT (mask n) = w - take_bit n w" using split_mask [of w n] by (metis add_diff_cancel_right')
  moreover have "take_bit n w \<le> w" by (simp add: word_le_nat_alt unat_take_bit)
  ultimately have "unat (w AND NOT (mask n)) = unat w - unat w mod 2 ^ n" by (simp add: unat_sub unat_take_bit)
  then show ?thesis by (simp add: minus_mod_eq_div_mult)
qed

lemma unat_pg_ofs: "unat (pg_ofs va) = unat va mod 4096"
  by (simp add: pg_ofs_def PGMASK_eq unat_take_bit flip: take_bit_eq_mask)

lemma unat_pg_no: "unat (pg_no va) = unat va div 4096"
  by (simp add: pg_no_def addr_consts unat_drop_bit32)

lemma unat_pd_no: "unat (pd_no va) = unat va div 2 ^ 22"
  by (simp add: pd_no_def addr_consts unat_drop_bit32)

lemma pt_no_bits: "pt_no va = take_bit 10 (drop_bit 12 va)"
  unfolding pt_no_def PTMASK_def BITMASK_shift addr_consts by (rule bit_word_eqI) (auto simp: bit_simps)

lemma unat_pt_no: "unat (pt_no va) = unat va div 4096 mod 1024"
  using unat_take_bit [of 10 "drop_bit 12 va"] unat_drop_bit32 [of 12 va] by (simp add: pt_no_bits)

lemma unat_pg_round_down: "unat (pg_round_down va) = unat va div 4096 * 4096"
  using unat_and_not_mask [of va 12] by (simp add: pg_round_down_def PGMASK_eq)

lemma pg_ofs_0: "pg_ofs va = 0 \<longleftrightarrow> unat va mod 4096 = 0"
  using unat_pg_ofs [of va] by (metis unat_eq_zero)

lemma PTE_ADDR_eq: "PTE_ADDR = NOT (mask 12)"
  by (simp add: PTE_ADDR_def mask_eq_exp_minus_1)

lemma aligned_mask: "pg_ofs va = 0 \<Longrightarrow> va AND NOT (mask 12) = va"
  using split_mask [of va 12] by (simp add: pg_ofs_def PGMASK_eq take_bit_eq_mask)

lemma aligned_bit: "pg_ofs va = 0 \<Longrightarrow> n < 12 \<Longrightarrow> \<not> bit va n"
  using aligned_mask [of va] by (metis bit_and_iff bit_mask_iff bit_not_iff)

lemma vtop_simps: "vtop va = (if PHYS_BASE \<le> va then Some (va - PHYS_BASE) else None)"
  by (simp add: vtop_def is_kernel_vaddr_def)

lemma unat_vtop: "PHYS_BASE \<le> va \<Longrightarrow> unat (va - PHYS_BASE) = unat va - 0xc0000000"
  by (simp add: unat_sub PHYS_BASE_def)

lemma ptov_vtop:
  assumes "PHYS_BASE \<le> va"
  shows "ptov (va - PHYS_BASE) = Some va"
proof -
  have "unat (va - PHYS_BASE) < 2 ^ 30" using unat_vtop [OF assms] unat_lt2p [of va] by simp
  then have "va - PHYS_BASE < PHYS_BASE" by (simp add: word_less_nat_alt PHYS_BASE_def)
  then show ?thesis by (simp add: ptov_def)
qed

lemma vtop_aligned:
  assumes "PHYS_BASE \<le> va" "pg_ofs va = 0"
  shows "pg_ofs (va - PHYS_BASE) = 0"
proof -
  have "4096 dvd unat va" using assms(2) by (simp only: pg_ofs_0 mod_eq_0_iff_dvd)
  moreover have "(4096 :: nat) dvd 0xc0000000" by simp
  ultimately have "4096 dvd unat va - 0xc0000000" by (rule dvd_diff_nat)
  then show ?thesis unfolding pg_ofs_0 unat_vtop [OF assms(1)] by (simp only: mod_eq_0_iff_dvd)
qed

lemma entry_addr:
  assumes "pg_ofs p = 0" "f AND NOT (mask 12) = (0 :: u32)"
  shows "(p OR f) AND PTE_ADDR = p"
  using aligned_mask [OF assms(1)] assms(2) by (simp add: PTE_ADDR_eq bit.conj_disj_distrib2)

lemma entry_flag:
  assumes "pg_ofs p = 0" "f < 4096"
  shows "(p OR g) AND f = g AND (f :: u32)"
proof -
  have "\<not> bit f n" if "12 \<le> n" for n
  proof -
    have "unat (take_bit 12 f) = unat f" using unat_take_bit [of 12 f] assms(2) by (simp add: word_less_nat_alt)
    then have "f = take_bit 12 f" by (simp add: word_unat_eq_iff)
    then show ?thesis using that by (metis bit_take_bit_iff not_less)
  qed
  then have "p AND f = 0" using aligned_bit [OF assms(1)] by (intro bit_word_eqI) (auto simp: bit_simps not_less intro: leI)
  then show ?thesis by (simp add: bit.conj_disj_distrib2)
qed

lemma pte_user_spec:
  assumes "pg_ofs page = 0" "PHYS_BASE \<le> page"
  shows "\<exists>e. pte_create_user page w = Some e \<and> pte_get_page e = Some page \<and> e AND PTE_P \<noteq> 0 \<and> e AND PTE_U \<noteq> 0
    \<and> (e AND PTE_W \<noteq> 0) = w \<and> e AND PTE_D = 0 \<and> e AND PTE_A = 0 \<and> vtop page = Some (e AND PTE_ADDR)"
proof -
  define p f where "p = page - PHYS_BASE" and "f = PTE_P OR (if w then PTE_W else 0) OR PTE_U"
  have p: "pg_ofs p = 0" "ptov p = Some page" using assms vtop_aligned ptov_vtop by (simp_all add: p_def)
  have e: "pte_create_user page w = Some (p OR f)"
    using assms by (simp add: pte_create_user_def pte_create_kernel_def vtop_simps p_def f_def or.assoc)
  have a: "(p OR f) AND PTE_ADDR = p"
    by (rule entry_addr [OF p(1)]) (simp add: f_def PTE_P_def PTE_W_def PTE_U_def mask_eq_exp_minus_1)
  show ?thesis unfolding e pte_get_page_def
    using assms p a entry_flag [OF p(1), of PTE_P f] entry_flag [OF p(1), of PTE_U f] entry_flag [OF p(1), of PTE_W f]
      entry_flag [OF p(1), of PTE_D f] entry_flag [OF p(1), of PTE_A f]
    by (simp add: f_def PTE_P_def PTE_W_def PTE_U_def PTE_D_def PTE_A_def vtop_simps p_def)
qed

lemma pde_spec:
  assumes "pg_ofs pt = 0" "PHYS_BASE \<le> pt"
  shows "\<exists>e. pde_create pt = Some e \<and> pde_get_pt e = Some pt \<and> e \<noteq> 0"
proof -
  define p f where "p = pt - PHYS_BASE" and "f = PTE_U OR PTE_P OR PTE_W"
  have p: "pg_ofs p = 0" "ptov p = Some pt" using assms vtop_aligned ptov_vtop by (simp_all add: p_def)
  have e: "pde_create pt = Some (p OR f)" using assms by (simp add: pde_create_def vtop_simps p_def f_def or.assoc)
  have a: "(p OR f) AND PTE_ADDR = p"
    by (rule entry_addr [OF p(1)]) (simp add: f_def PTE_P_def PTE_W_def PTE_U_def mask_eq_exp_minus_1)
  have "(p OR f) AND PTE_P \<noteq> 0" using entry_flag [OF p(1), of PTE_P f] by (simp add: f_def PTE_P_def PTE_W_def PTE_U_def)
  then show ?thesis unfolding e pde_get_pt_def using p a by auto
qed

section \<open>Properties\<close>

text \<open>
  Note: an address is determined by its page-directory index, page-table index and offset, which are
  below 1024, 1024 and 4096, and it is their recombination.
\<close>

theorem address_decomposition:
  "pd_no va < 1024 \<and> pt_no va < 1024 \<and> pg_ofs va < 4096
   \<and> va = push_bit 22 (pd_no va) OR push_bit 12 (pt_no va) OR pg_ofs va
   \<and> pg_no va = push_bit 10 (pd_no va) OR pt_no va"
proof -
  have p: "pt_no va = take_bit 10 (drop_bit 12 va)" "pd_no va = drop_bit 22 va" "pg_ofs va = take_bit 12 va" "pg_no va = drop_bit 12 va"
    by (simp_all add: pt_no_bits pd_no_def addr_consts pg_ofs_def pg_no_def PGMASK_eq take_bit_eq_mask)
  have "pd_no va < 1024" "pt_no va < 1024" "pg_ofs va < 4096"
    using unat_pd_no [of va] unat_pt_no [of va] unat_pg_ofs [of va] unat_lt2p [of va]
    by (simp_all add: word_less_nat_alt)
  moreover have "va = push_bit 22 (pd_no va) OR push_bit 12 (pt_no va) OR pg_ofs va"
    unfolding p
  proof (rule bit_word_eqI)
    fix n :: nat
    assume "n < LENGTH(32)"
    then show "bit va n = bit (push_bit 22 (drop_bit 22 va) OR push_bit 12 (take_bit 10 (drop_bit 12 va)) OR take_bit 12 va) n"
      by (cases "n < 12"; cases "n < 22") (auto simp: bit_simps)
  qed
  moreover have "pg_no va = push_bit 10 (pd_no va) OR pt_no va"
    unfolding p by (rule bit_word_eqI) (auto simp: bit_simps not_le)
  ultimately show ?thesis by blast
qed

text \<open>
  Note: a page-table entry made for a page is present, gives the page back, and carries exactly the
  requested write permission; a page-directory entry gives its page table back.  Entries are made
  exactly for page-aligned kernel addresses, and the address handed to the processor is the
  physical address.
\<close>

theorem entry_roundtrip:
  "(case pte_create_user page w of
      None \<Rightarrow> 0 < pg_ofs page \<or> is_user_vaddr page
    | Some e \<Rightarrow> pte_get_page e = Some page \<and> e AND PTE_P \<noteq> 0 \<and> e AND PTE_U \<noteq> 0 \<and> (e AND PTE_W \<noteq> 0) = w
        \<and> e AND PTE_D = 0 \<and> e AND PTE_A = 0 \<and> vtop page = Some (e AND PTE_ADDR))
   \<and> (case pde_create pt of
      None \<Rightarrow> 0 < pg_ofs pt \<or> is_user_vaddr pt
    | Some e \<Rightarrow> pde_get_pt e = Some pt)" (is "?pte \<and> ?pde")
proof -
  have k: "is_user_vaddr x \<longleftrightarrow> \<not> PHYS_BASE \<le> x" for x by (auto simp: is_user_vaddr_def)
  have n: "pte_create_user page w = None" if "\<not> (pg_ofs page = 0 \<and> PHYS_BASE \<le> page)"
    using that by (auto simp: pte_create_user_def pte_create_kernel_def vtop_simps)
  have m: "pde_create pt = None" if "\<not> (pg_ofs pt = 0 \<and> PHYS_BASE \<le> pt)"
    using that by (auto simp: pde_create_def vtop_simps)
  have u: "pg_ofs page = 0 \<Longrightarrow> PHYS_BASE \<le> page \<Longrightarrow> ?pte" using pte_user_spec [of page w] by auto
  have v: "pg_ofs pt = 0 \<Longrightarrow> PHYS_BASE \<le> pt \<Longrightarrow> ?pde" using pde_spec [of pt] by auto
  have ?pte using u n k [of page] by (cases "pg_ofs page = 0 \<and> PHYS_BASE \<le> page") (auto simp: word_greater_zero_iff)
  moreover have ?pde using v m k [of pt] by (cases "pg_ofs pt = 0 \<and> PHYS_BASE \<le> pt") (auto simp: word_greater_zero_iff)
  ultimately show ?thesis ..
qed

end
