(* ===== verification/Palloc.thy ===== *)
theory Palloc
  imports Vaddr Bitmap_Alloc
begin

text \<open>
  The page allocator \<open>threads/palloc.c\<close>: two pools of pages, each with a bitmap of the pages in
  use.  Memory is a function from addresses (multiples of four) to 32-bit words, so that the
  contents of allocated and freed pages and the page tables built in them are visible.  The
  operations hold the pool's lock around the bitmap search and run as one step here.
\<close>

section \<open>Model\<close>

record pool =
  used_map :: bitmap
  pool_base :: u32

text \<open>The memory with its pools, and the registers of the paging unit that \<open>pagedir.c\<close> uses.\<close>

record memory =
  mem :: "u32 \<Rightarrow> u32"
  kernel_pool :: pool
  user_pool :: pool
  init_ram_pages :: u32
  base_page_dir :: u32
  pdbr :: u32
  tlb :: "u32 \<Rightarrow> u32 option"

definition PAL_ASSERT :: u32 where "PAL_ASSERT = 1"
definition PAL_ZERO :: u32 where "PAL_ZERO = 2"
definition PAL_USER :: u32 where "PAL_USER = 4"

definition DIV_ROUND_UP :: "u32 \<Rightarrow> u32 \<Rightarrow> u32" where
  "DIV_ROUND_UP x step = (x + step - 1) div step"

text \<open>\<open>memset\<close> of whole pages, with a byte whose four-fold repetition is \<open>v\<close>.\<close>

definition fill :: "u32 \<Rightarrow> u32 \<Rightarrow> u32 \<Rightarrow> (u32 \<Rightarrow> u32) \<Rightarrow> u32 \<Rightarrow> u32" where
  "fill p v bytes m = (\<lambda>a. if unat p \<le> unat a \<and> unat a < unat p + unat bytes then v else m a)"

text \<open>
  In the code the bitmap of a pool occupies the first pages of the pool's memory.  Here its words are the
  component \<open>used_map\<close> of the pool; they start as whatever the memory contains there and are not written
  back, so \<open>mem\<close> says nothing about these pages.  No page of a pool is among them.
\<close>

definition init_pool :: "u32 \<Rightarrow> u32 \<Rightarrow> (u32 \<Rightarrow> u32) \<Rightarrow> pool option" where
  "init_pool base page_cnt m = do {
     let bm_pages = DIV_ROUND_UP (bitmap_buf_size page_cnt) PGSIZE;
     kassert (bm_pages \<le> page_cnt);
     let page_cnt = page_cnt - bm_pages;
     b \<leftarrow> bitmap_create_in_buf page_cnt (map (\<lambda>i. m (base + 8 + 4 * of_nat i)) [0..<unat (elem_cnt page_cnt)]) (bm_pages * PGSIZE);
     Some \<lparr>used_map = b, pool_base = base + bm_pages * PGSIZE\<rparr> }"

definition palloc_init :: "u32 \<Rightarrow> memory \<Rightarrow> memory option" where
  "palloc_init user_page_limit s = do {
     free_start \<leftarrow> ptov (1024 * 1024);
     free_end \<leftarrow> ptov (init_ram_pages s * PGSIZE);
     let free_pages = (free_end - free_start) div PGSIZE;
     let user_pages = free_pages div 2;
     let user_pages = (if user_pages > user_page_limit then user_page_limit else user_pages);
     let kernel_pages = free_pages - user_pages;
     k \<leftarrow> init_pool free_start kernel_pages (mem s);
     u \<leftarrow> init_pool (free_start + kernel_pages * PGSIZE) user_pages (mem s);
     Some (s\<lparr>kernel_pool := k, user_pool := u\<rparr>) }"

definition page_from_pool :: "pool \<Rightarrow> u32 \<Rightarrow> bool" where
  "page_from_pool p page = (let page_no = pg_no page; start_page = pg_no (pool_base p);
     end_page = start_page + bitmap_size (used_map p) in page_no \<ge> start_page \<and> page_no < end_page)"

definition palloc_get_multiple :: "u32 \<Rightarrow> u32 \<Rightarrow> memory \<Rightarrow> (u32 \<times> memory) option" where
  "palloc_get_multiple flags page_cnt s =
     (if page_cnt = 0 then Some (0, s)
      else do {
        let user = (flags AND PAL_USER \<noteq> 0);
        let pool = (if user then user_pool s else kernel_pool s);
        (page_idx, b) \<leftarrow> bitmap_scan_and_flip (used_map pool) 0 page_cnt False;
        let s = (if user then s\<lparr>user_pool := pool\<lparr>used_map := b\<rparr>\<rparr> else s\<lparr>kernel_pool := pool\<lparr>used_map := b\<rparr>\<rparr>);
        let pages = (if page_idx \<noteq> BITMAP_ERROR then pool_base pool + PGSIZE * page_idx else 0);
        if pages \<noteq> 0
        then Some (pages, if flags AND PAL_ZERO \<noteq> 0 then s\<lparr>mem := fill pages 0 (PGSIZE * page_cnt) (mem s)\<rparr> else s)
        else do { kassert (flags AND PAL_ASSERT = 0); Some (0, s) } })"

definition palloc_get_page :: "u32 \<Rightarrow> memory \<Rightarrow> (u32 \<times> memory) option" where
  "palloc_get_page flags s = palloc_get_multiple flags 1 s"

definition palloc_free_multiple :: "u32 \<Rightarrow> u32 \<Rightarrow> memory \<Rightarrow> memory option" where
  "palloc_free_multiple pages page_cnt s = do {
     kassert (pg_ofs pages = 0);
     if pages = 0 \<or> page_cnt = 0 then Some s
     else do {
       let from_kernel = page_from_pool (kernel_pool s) pages;
       kassert (from_kernel \<or> page_from_pool (user_pool s) pages);
       let pool = (if from_kernel then kernel_pool s else user_pool s);
       let page_idx = pg_no pages - pg_no (pool_base pool);
       let s = s\<lparr>mem := fill pages 0xcccccccc (PGSIZE * page_cnt) (mem s)\<rparr>;
       b \<leftarrow> bitmap_set_multiple (used_map pool) page_idx page_cnt False;
       Some (if from_kernel then s\<lparr>kernel_pool := pool\<lparr>used_map := b\<rparr>\<rparr> else s\<lparr>user_pool := pool\<lparr>used_map := b\<rparr>\<rparr>) } }"

definition palloc_free_page :: "u32 \<Rightarrow> memory \<Rightarrow> memory option" where
  "palloc_free_page page s = palloc_free_multiple page 1 s"

section \<open>Pages in use\<close>

text \<open>Pages are identified by their number, the address divided by the page size.\<close>

definition pages_at :: "u32 \<Rightarrow> nat \<Rightarrow> nat set" where
  "pages_at p n = {unat p div 4096..<unat p div 4096 + n}"

definition pool_span :: "pool \<Rightarrow> nat set" where
  "pool_span P = pages_at (pool_base P) (unat (bit_cnt (used_map P)))"

definition pool_owned :: "pool \<Rightarrow> nat set" where
  "pool_owned P = (+) (unat (pool_base P) div 4096) ` bitmap_used (used_map P)"

definition pool_inv :: "pool \<Rightarrow> bool" where
  "pool_inv P \<longleftrightarrow> wf_bitmap (used_map P) \<and> pg_ofs (pool_base P) = 0 \<and> PHYS_BASE \<le> pool_base P
     \<and> unat (pool_base P) + 4096 * unat (bit_cnt (used_map P)) \<le> 2 ^ 32"

definition palloc_inv :: "memory \<Rightarrow> bool" where
  "palloc_inv s \<longleftrightarrow> pool_inv (kernel_pool s) \<and> pool_inv (user_pool s)
     \<and> pool_span (kernel_pool s) \<inter> pool_span (user_pool s) = {}"

definition owned :: "memory \<Rightarrow> nat set" where
  "owned s = pool_owned (kernel_pool s) \<union> pool_owned (user_pool s)"

definition the_pool :: "u32 \<Rightarrow> memory \<Rightarrow> pool" where
  "the_pool flags s = (if flags AND PAL_USER \<noteq> 0 then user_pool s else kernel_pool s)"

definition no_room :: "u32 \<Rightarrow> nat \<Rightarrow> memory \<Rightarrow> bool" where
  "no_room flags n s \<longleftrightarrow> (\<forall>j. {j..<j + n} \<subseteq> pool_span (the_pool flags s) \<longrightarrow> {j..<j + n} \<inter> pool_owned (the_pool flags s) \<noteq> {})"

lemma pool_owned_span: "pool_owned P \<subseteq> pool_span P"
  by (auto simp: pool_owned_def pool_span_def pages_at_def bitmap_used_def)

lemma aligned_eq: "pg_ofs p = 0 \<Longrightarrow> unat p = 4096 * (unat p div 4096)"
  by (simp add: pg_ofs_0 minus_mod_eq_mult_div [symmetric])

lemma pool_page:
  assumes "pool_inv P" "unat i < unat (bit_cnt (used_map P))"
  shows "unat (pool_base P + PGSIZE * i) = unat (pool_base P) + 4096 * unat i"
    "pg_ofs (pool_base P + PGSIZE * i) = 0" "PHYS_BASE \<le> pool_base P + PGSIZE * i"
    "pages_at (pool_base P + PGSIZE * i) n = {unat (pool_base P) div 4096 + unat i..<unat (pool_base P) div 4096 + unat i + n}"
proof -
  have b: "unat (pool_base P) + 4096 * unat i < 2 ^ 32" "pg_ofs (pool_base P) = 0" "PHYS_BASE \<le> pool_base P"
    using assms by (auto simp: pool_inv_def)
  have m: "unat (PGSIZE * i) = 4096 * unat i" using b(1) by (subst unat_mult_lem [THEN iffD1]) (simp_all add: PGSIZE_eq)
  show u: "unat (pool_base P + PGSIZE * i) = unat (pool_base P) + 4096 * unat i"
    using b(1) by (subst unat_add_lem [THEN iffD1]) (simp_all add: m)
  show "pg_ofs (pool_base P + PGSIZE * i) = 0" using b(2) unfolding pg_ofs_0 u by simp
  show "PHYS_BASE \<le> pool_base P + PGSIZE * i" using b(3) unfolding word_le_nat_alt u by simp
  show "pages_at (pool_base P + PGSIZE * i) n = {unat (pool_base P) div 4096 + unat i..<unat (pool_base P) div 4096 + unat i + n}"
    unfolding pages_at_def u by (simp add: add.commute)
qed

lemma shift_run: "(+) k ` run_of i n = {k + unat i..<k + unat i + unat n}"
  by (simp add: run_of_def ac_simps)

lemma pool_get:
  assumes P: "pool_inv P" and n: "0 < n" and g: "bitmap_scan_and_flip (used_map P) 0 n False = Some (i, b)"
  shows "i \<noteq> BITMAP_ERROR \<Longrightarrow> pool_inv (P\<lparr>used_map := b\<rparr>) \<and> pool_span (P\<lparr>used_map := b\<rparr>) = pool_span P
      \<and> unat i + unat n \<le> unat (bit_cnt (used_map P))
      \<and> pages_at (pool_base P + PGSIZE * i) (unat n) \<subseteq> pool_span P - pool_owned P
      \<and> pool_owned (P\<lparr>used_map := b\<rparr>) = pool_owned P \<union> pages_at (pool_base P + PGSIZE * i) (unat n)"
    "i = BITMAP_ERROR \<Longrightarrow> b = used_map P
      \<and> (\<forall>j. {j..<j + unat n} \<subseteq> pool_span P \<longrightarrow> {j..<j + unat n} \<inter> pool_owned P \<noteq> {})"
proof -
  have w: "wf_bitmap (used_map P)" using P by (simp add: pool_inv_def)
  note f = bitmap_get_used [OF w n g]
  let ?k = "unat (pool_base P) div 4096"
  have n0: "0 < unat n" using n by (simp add: word_less_nat_alt)
  show "pool_inv (P\<lparr>used_map := b\<rparr>) \<and> pool_span (P\<lparr>used_map := b\<rparr>) = pool_span P
      \<and> unat i + unat n \<le> unat (bit_cnt (used_map P))
      \<and> pages_at (pool_base P + PGSIZE * i) (unat n) \<subseteq> pool_span P - pool_owned P
      \<and> pool_owned (P\<lparr>used_map := b\<rparr>) = pool_owned P \<union> pages_at (pool_base P + PGSIZE * i) (unat n)" if "i \<noteq> BITMAP_ERROR"
  proof -
    note t = f(3) [OF that]
    have p: "pages_at (pool_base P + PGSIZE * i) (unat n) = (+) ?k ` run_of i n"
      using pool_page(4) [OF P, of i] t n0 by (simp add: shift_run)
    have "(+) ?k ` run_of i n \<inter> pool_owned P = {}" using t by (auto simp: pool_owned_def)
    moreover have "(+) ?k ` run_of i n \<subseteq> pool_span P" using t by (auto simp: pool_span_def pages_at_def run_of_def)
    ultimately show ?thesis using t f(1,2) P unfolding p by (auto simp: pool_inv_def pool_span_def pool_owned_def)
  qed
  show "b = used_map P \<and> (\<forall>j. {j..<j + unat n} \<subseteq> pool_span P \<longrightarrow> {j..<j + unat n} \<inter> pool_owned P \<noteq> {})" if e: "i = BITMAP_ERROR"
  proof (intro conjI allI impI)
    show "b = used_map P" using g e by (auto simp: bitmap_scan_and_flip_def ret_simps)
    fix j assume j: "{j..<j + unat n} \<subseteq> pool_span P"
    then have r: "?k \<le> j" "j + unat n \<le> ?k + unat (bit_cnt (used_map P))"
      using n0 by (auto simp: pool_span_def pages_at_def atLeastLessThan_subset_iff)
    then obtain x where x: "x \<in> {j - ?k..<j - ?k + unat n}" "x \<in> bitmap_used (used_map P)"
    proof -
      have "j - ?k + unat n \<le> unat (bit_cnt (used_map P))" using r by linarith
      then show ?thesis using f(4) [OF e] that by blast
    qed
    then have "?k + x \<in> {j..<j + unat n}" "?k + x \<in> pool_owned P" using r by (auto simp: pool_owned_def)
    then show "{j..<j + unat n} \<inter> pool_owned P \<noteq> {}" by blast
  qed
qed

lemma pool_rel:
  assumes P: "pool_inv P" and a: "pg_ofs p = 0" "pages_at p (unat n) \<subseteq> pool_owned P" and n: "0 < n"
  shows "page_from_pool P p" "\<exists>b. bitmap_set_multiple (used_map P) (pg_no p - pg_no (pool_base P)) n False = Some b
      \<and> pool_inv (P\<lparr>used_map := b\<rparr>) \<and> pool_span (P\<lparr>used_map := b\<rparr>) = pool_span P
      \<and> pool_owned (P\<lparr>used_map := b\<rparr>) = pool_owned P - pages_at p (unat n)"
proof -
  let ?k = "unat (pool_base P) div 4096" and ?i = "pg_no p - pg_no (pool_base P)"
  have n0: "0 < unat n" using n by (simp add: word_less_nat_alt)
  have r: "?k \<le> unat p div 4096" "unat p div 4096 + unat n \<le> ?k + unat (bit_cnt (used_map P))"
    using order.trans [OF a(2) pool_owned_span] n0 by (auto simp: pool_span_def pages_at_def atLeastLessThan_subset_iff)
  have i: "unat ?i = unat p div 4096 - ?k" using r(1) by (simp add: unat_sub word_le_nat_alt unat_pg_no)
  have sp: "?k + unat (bit_cnt (used_map P)) \<le> 2 ^ 20" using P by (simp add: pool_inv_def pg_ofs_0) linarith
  then have "unat (pg_no (pool_base P) + bit_cnt (used_map P)) = ?k + unat (bit_cnt (used_map P))"
    by (subst unat_add_lem [THEN iffD1]) (simp_all add: unat_pg_no)
  then show "page_from_pool P p"
    using r n0 by (simp add: page_from_pool_def bitmap_size_def word_le_nat_alt word_less_nat_alt unat_pg_no)
  have p: "pages_at p (unat n) = (+) ?k ` run_of ?i n" using r(1) by (simp add: shift_run i pages_at_def)
  have sub: "run_of ?i n \<subseteq> bitmap_used (used_map P)" using a(2) unfolding p pool_owned_def by (simp add: inj_image_subset_iff)
  have in_range: "unat ?i + unat n \<le> unat (bit_cnt (used_map P))" using r i by linarith
  have w: "wf_bitmap (used_map P)" using P by (simp add: pool_inv_def)
  obtain b where b: "bitmap_set_multiple (used_map P) ?i n False = Some b" "wf_bitmap b" "bit_cnt b = bit_cnt (used_map P)"
      "bitmap_used b = bitmap_used (used_map P) - run_of ?i n"
    using bitmap_rel_used [OF w sub in_range] by blast
  have "pool_owned (P\<lparr>used_map := b\<rparr>) = pool_owned P - pages_at p (unat n)"
    unfolding p pool_owned_def by (simp add: b(4) image_set_diff)
  then show "\<exists>b. bitmap_set_multiple (used_map P) ?i n False = Some b
      \<and> pool_inv (P\<lparr>used_map := b\<rparr>) \<and> pool_span (P\<lparr>used_map := b\<rparr>) = pool_span P
      \<and> pool_owned (P\<lparr>used_map := b\<rparr>) = pool_owned P - pages_at p (unat n)"
    using b(1-3) P by (auto simp: pool_inv_def pool_span_def)
qed

lemma pool_not_from:
  assumes "pool_inv P" "page_from_pool P p"
  shows "unat p div 4096 \<in> pool_span P"
proof -
  let ?k = "unat (pool_base P) div 4096"
  have sp: "?k + unat (bit_cnt (used_map P)) \<le> 2 ^ 20" using assms(1) by (simp add: pool_inv_def pg_ofs_0) linarith
  then have "unat (pg_no (pool_base P) + bit_cnt (used_map P)) = ?k + unat (bit_cnt (used_map P))"
    by (subst unat_add_lem [THEN iffD1]) (simp_all add: unat_pg_no)
  then show ?thesis using assms(2)
    by (simp add: page_from_pool_def bitmap_size_def word_le_nat_alt word_less_nat_alt unat_pg_no pool_span_def pages_at_def)
qed

section \<open>The allocator\<close>

lemma in_pages_at: "pg_ofs p = 0 \<Longrightarrow> unat p \<le> unat a \<and> unat a < unat p + 4096 * n \<longleftrightarrow> unat a div 4096 \<in> pages_at p n"
  using aligned_eq [of p] by (auto simp: pages_at_def)

lemma fill_pages:
  assumes "pg_ofs p = 0" "unat p + 4096 * unat n \<le> 2 ^ 32" "p \<noteq> 0"
  shows "fill p v (PGSIZE * n) m = (\<lambda>a. if unat a div 4096 \<in> pages_at p (unat n) then v else m a)"
proof -
  have "0 < unat p" using assms(3) by (simp add: unat_gt_0)
  then have "4096 * unat n < 2 ^ 32" using assms(2) by linarith
  then have "unat (PGSIZE * n) = 4096 * unat n" by (subst unat_mult_lem [THEN iffD1]) (simp_all add: PGSIZE_eq)
  then show ?thesis by (auto simp: fill_def fun_eq_iff in_pages_at [OF assms(1), symmetric])
qed

lemma palloc_get_spec:
  assumes s: "palloc_inv s" and n: "0 < n"
  shows "case palloc_get_multiple flags n s of
      None \<Rightarrow> flags AND PAL_ASSERT \<noteq> 0 \<and> no_room flags (unat n) s
    | Some (p, s') \<Rightarrow>
        if p = 0 then no_room flags (unat n) s \<and> s' = s
        else palloc_inv s' \<and> pg_ofs p = 0 \<and> PHYS_BASE \<le> p
          \<and> pages_at p (unat n) \<subseteq> pool_span (the_pool flags s) \<and> pages_at p (unat n) \<inter> owned s = {}
          \<and> owned s' = owned s \<union> pages_at p (unat n)
          \<and> mem s' = (\<lambda>a. if flags AND PAL_ZERO \<noteq> 0 \<and> unat a div 4096 \<in> pages_at p (unat n) then 0 else mem s a)
          \<and> pool_span (kernel_pool s') = pool_span (kernel_pool s) \<and> pool_span (user_pool s') = pool_span (user_pool s)"
proof -
  define P where "P = the_pool flags s"
  have P: "pool_inv P" using s by (simp add: P_def the_pool_def palloc_inv_def)
  have n0: "n \<noteq> 0" using n by auto
  obtain i b where g: "bitmap_scan_and_flip (used_map P) 0 n False = Some (i, b)"
    using bm.get_returns [of "used_map P" n] P n by (auto simp: pool_inv_def)
  note f = pool_get [OF P n g]
  define s1 where "s1 = (if flags AND PAL_USER \<noteq> 0 then s\<lparr>user_pool := P\<lparr>used_map := b\<rparr>\<rparr> else s\<lparr>kernel_pool := P\<lparr>used_map := b\<rparr>\<rparr>)"
  have e: "palloc_get_multiple flags n s = (let pages = (if i \<noteq> BITMAP_ERROR then pool_base P + PGSIZE * i else 0) in
      if pages \<noteq> 0 then Some (pages, if flags AND PAL_ZERO \<noteq> 0 then s1\<lparr>mem := fill pages 0 (PGSIZE * n) (mem s1)\<rparr> else s1)
      else do { kassert (flags AND PAL_ASSERT = 0); Some (0, s1) })"
    using n0 g by (simp add: palloc_get_multiple_def P_def the_pool_def s1_def Let_def)
  show ?thesis
  proof (cases "i = BITMAP_ERROR")
    case True
    have "s1 = s" using f(2) [OF True] by (simp add: s1_def P_def the_pool_def)
    moreover have "no_room flags (unat n) s" using f(2) [OF True] by (simp add: no_room_def P_def)
    ultimately show ?thesis unfolding e using True by (simp add: kassert_def)
  next
    case False
    note t = f(1) [OF False]
    have lt: "unat i < unat (bit_cnt (used_map P))" using t n by (simp add: word_less_nat_alt)
    define p where "p = pool_base P + PGSIZE * i"
    note q = pool_page [OF P lt, folded p_def]
    have nz: "p \<noteq> 0" using q(3) by (auto simp: PHYS_BASE_def)
    have "unat p + 4096 * unat n \<le> 2 ^ 32" using q(1) t P unfolding pool_inv_def by auto
    then have fl: "fill p 0 (PGSIZE * n) m = (\<lambda>a. if unat a div 4096 \<in> pages_at p (unat n) then 0 else m a)" for m
      by (rule fill_pages [OF q(2) _ nz])
    have m: "mem s1 = mem s" by (simp add: s1_def)
    have d: "pages_at p (unat n) \<subseteq> pool_span P - pool_owned P" using t by (simp add: p_def)
    have o: "owned s1 = owned s \<union> pages_at p (unat n)" "pages_at p (unat n) \<inter> owned s = {}" "palloc_inv s1"
      using s t d pool_owned_span [of "kernel_pool s"] pool_owned_span [of "user_pool s"]
      unfolding s1_def P_def the_pool_def owned_def palloc_inv_def p_def by (auto split: if_splits)
    have sp: "pool_span (kernel_pool s1) = pool_span (kernel_pool s)" "pool_span (user_pool s1) = pool_span (user_pool s)"
      using t unfolding s1_def P_def the_pool_def by auto
    show ?thesis unfolding e
      using False nz q o d m fl sp by (auto simp: Let_def p_def [symmetric] P_def [symmetric] owned_def palloc_inv_def fun_eq_iff)
  qed
qed

lemma palloc_free_spec:
  assumes s: "palloc_inv s" and p: "pg_ofs p = 0" "pages_at p (unat n) \<subseteq> owned s"
    and one: "pages_at p (unat n) \<subseteq> pool_span (kernel_pool s) \<or> pages_at p (unat n) \<subseteq> pool_span (user_pool s)"
  shows "\<exists>s'. palloc_free_multiple p n s = Some s' \<and> palloc_inv s' \<and> owned s' = owned s - pages_at p (unat n)
    \<and> mem s' = (\<lambda>a. if unat a div 4096 \<in> pages_at p (unat n) then 0xcccccccc else mem s a)
    \<and> pool_span (kernel_pool s') = pool_span (kernel_pool s) \<and> pool_span (user_pool s') = pool_span (user_pool s)"
proof (cases "n = 0")
  case True
  then show ?thesis using p(1) s by (simp add: palloc_free_multiple_def pages_at_def)
next
  case False
  then have n: "0 < n" "0 < unat n" by (simp_all add: word_gt_0 unat_gt_0)
  have inv: "pool_inv (kernel_pool s)" "pool_inv (user_pool s)" "pool_span (kernel_pool s) \<inter> pool_span (user_pool s) = {}"
    using s by (simp_all add: palloc_inv_def)
  define kern where "kern = (pages_at p (unat n) \<subseteq> pool_span (kernel_pool s))"
  define P where "P = (if kern then kernel_pool s else user_pool s)"
  have P: "pool_inv P" using inv by (simp add: P_def)
  have o: "pages_at p (unat n) \<subseteq> pool_owned P"
  proof (cases kern)
    case True
    then have "pages_at p (unat n) \<inter> pool_owned (user_pool s) = {}" using inv(3) pool_owned_span [of "user_pool s"] by (auto simp: kern_def)
    then show ?thesis using p(2) True by (auto simp: P_def owned_def)
  next
    case False
    then have "pages_at p (unat n) \<inter> pool_owned (kernel_pool s) = {}"
      using one inv(3) pool_owned_span [of "kernel_pool s"] by (auto simp: kern_def)
    then show ?thesis using p(2) False by (auto simp: P_def owned_def)
  qed
  note r = pool_rel [OF P p(1) o n(1)]
  obtain b where b: "bitmap_set_multiple (used_map P) (pg_no p - pg_no (pool_base P)) n False = Some b"
      "pool_inv (P\<lparr>used_map := b\<rparr>)" "pool_span (P\<lparr>used_map := b\<rparr>) = pool_span P"
      "pool_owned (P\<lparr>used_map := b\<rparr>) = pool_owned P - pages_at p (unat n)"
    using r(2) by blast
  have "unat p div 4096 \<in> pages_at p (unat n)" using n(2) by (simp add: pages_at_def)
  then have hd: "unat p div 4096 \<in> pool_span P" using o pool_owned_span [of P] by blast
  have fr: "page_from_pool (kernel_pool s) p = kern"
    using r(1) pool_not_from [OF inv(1), of p] hd inv(3) by (auto simp: P_def split: if_splits)
  have "pool_span P \<subseteq> {0xc0000..}" using P by (auto simp: pool_inv_def pool_span_def pages_at_def word_le_nat_alt PHYS_BASE_def)
  then have nz: "p \<noteq> 0" using hd by auto
  have "unat p div 4096 + unat n \<le> unat (pool_base P) div 4096 + unat (bit_cnt (used_map P))"
    using order.trans [OF o pool_owned_span] n(2) by (auto simp: pool_span_def pages_at_def atLeastLessThan_subset_iff)
  then have "unat p + 4096 * unat n \<le> unat (pool_base P) + 4096 * unat (bit_cnt (used_map P))"
    using aligned_eq [OF p(1)] aligned_eq [of "pool_base P"] P unfolding pool_inv_def by linarith
  then have "unat p + 4096 * unat n \<le> 2 ^ 32" using P unfolding pool_inv_def by linarith
  note fl = fill_pages [OF p(1) this nz]
  define s' where "s' = (let s = s\<lparr>mem := fill p 0xcccccccc (PGSIZE * n) (mem s)\<rparr> in
     if kern then s\<lparr>kernel_pool := P\<lparr>used_map := b\<rparr>\<rparr> else s\<lparr>user_pool := P\<lparr>used_map := b\<rparr>\<rparr>)"
  have e: "palloc_free_multiple p n s = Some s'"
    using p(1) nz False fr r(1) b(1) by (auto simp: palloc_free_multiple_def Let_def s'_def P_def)
  have "owned s' = owned s - pages_at p (unat n)"
    using b(4) o inv(3) pool_owned_span [of "kernel_pool s"] pool_owned_span [of "user_pool s"]
    unfolding s'_def P_def owned_def Let_def by (auto split: if_splits)
  moreover have "palloc_inv s'" "pool_span (kernel_pool s') = pool_span (kernel_pool s)" "pool_span (user_pool s') = pool_span (user_pool s)"
    using b(2,3) inv by (auto simp: s'_def P_def palloc_inv_def Let_def)
  moreover have "mem s' = (\<lambda>a. if unat a div 4096 \<in> pages_at p (unat n) then 0xcccccccc else mem s a)"
    by (simp add: s'_def Let_def fl)
  ultimately show ?thesis using e by blast
qed

section \<open>The interface for clients\<close>

text \<open>
  What page tables, the frame table, the block allocator and thread creation rely on: a page that is
  handed out is aligned, belongs to nobody, and belongs to the caller until it is freed.
\<close>

locale page_source =
  fixes inv :: "'s \<Rightarrow> bool"
    and in_use :: "'s \<Rightarrow> nat set"
    and get :: "'s \<Rightarrow> (u32 \<times> 's) option"
    and rel :: "u32 \<Rightarrow> 's \<Rightarrow> 's option"
  assumes get_law: "inv s \<Longrightarrow> get s = Some (p, s') \<Longrightarrow> p \<noteq> 0 \<Longrightarrow>
      inv s' \<and> pg_ofs p = 0 \<and> PHYS_BASE \<le> p \<and> unat p div 4096 \<notin> in_use s \<and> in_use s' = insert (unat p div 4096) (in_use s)"
    and none_law: "inv s \<Longrightarrow> get s = Some (0, s') \<Longrightarrow> s' = s"
    and rel_law: "inv s \<Longrightarrow> pg_ofs p = 0 \<Longrightarrow> unat p div 4096 \<in> in_use s \<Longrightarrow>
      \<exists>s'. rel p s = Some s' \<and> inv s' \<and> in_use s' = in_use s - {unat p div 4096}"
begin

lemma get_rel_roundtrip:
  assumes "inv s" "get s = Some (p, s')" "p \<noteq> 0"
  shows "\<exists>s''. rel p s' = Some s'' \<and> inv s'' \<and> in_use s'' = in_use s"
  using get_law [OF assms] rel_law [of s' p] by auto

text \<open>Requests until memory runs out, newest page first.\<close>

fun get_pages :: "nat \<Rightarrow> 's \<Rightarrow> u32 list \<Rightarrow> (u32 list \<times> 's) option" where
  "get_pages 0 s ps = Some (ps, s)"
| "get_pages (Suc n) s ps = do { (p, s) \<leftarrow> get s; if p = 0 then Some (ps, s) else get_pages n s (p # ps) }"

lemma get_pages_distinct:
  assumes "inv s" "distinct ps" "(\<lambda>p. unat p div 4096) ` set ps \<subseteq> in_use s" "get_pages n s ps = Some (ps', s')"
  shows "inv s' \<and> distinct ps' \<and> (\<lambda>p. unat p div 4096) ` set ps' \<subseteq> in_use s' \<and> in_use s \<subseteq> in_use s'"
  using assms
proof (induction n arbitrary: s ps)
  case (Suc n)
  obtain p s1 where g: "get s = Some (p, s1)" and r: "(if p = 0 then Some (ps, s1) else get_pages n s1 (p # ps)) = Some (ps', s')"
    using Suc.prems(4) by (auto simp: ret_simps)
  show ?case
  proof (cases "p = 0")
    case True
    then show ?thesis using r Suc.prems none_law [OF Suc.prems(1)] g by auto
  next
    case False
    note l = get_law [OF Suc.prems(1) g False]
    have "p \<notin> set ps" using l Suc.prems(3) by auto
    then have "inv s' \<and> distinct ps' \<and> (\<lambda>p. unat p div 4096) ` set ps' \<subseteq> in_use s' \<and> in_use s1 \<subseteq> in_use s'"
      using l Suc.prems(2,3) r False by (intro Suc.IH [of s1 "p # ps"]) auto
    then show ?thesis using l by auto
  qed
qed simp

end

lemma pages_at_1 [simp]: "pages_at p 1 = {unat p div 4096}" "pages_at p (Suc 0) = {unat p div 4096}"
  by (auto simp: pages_at_def)

interpretation pg: page_source palloc_inv owned "palloc_get_page flags" palloc_free_page for flags
proof unfold_locales
  fix s p s'
  assume s: "palloc_inv s" and g: "palloc_get_page flags s = Some (p, s')"
  note f = palloc_get_spec [OF s, of 1 flags, unfolded palloc_get_page_def [symmetric] g]
  show "palloc_inv s' \<and> pg_ofs p = 0 \<and> PHYS_BASE \<le> p \<and> unat p div 4096 \<notin> owned s
      \<and> owned s' = insert (unat p div 4096) (owned s)" if "p \<noteq> 0"
    using f that by auto
next
  fix s s'
  assume "palloc_inv s" "palloc_get_page flags s = Some (0, s')"
  then show "s' = s" using palloc_get_spec [of s 1 flags] by (simp add: palloc_get_page_def)
next
  fix s p
  assume "palloc_inv s" "pg_ofs p = 0" "unat p div 4096 \<in> owned s"
  then show "\<exists>s'. palloc_free_page p s = Some s' \<and> palloc_inv s' \<and> owned s' = owned s - {unat p div 4096}"
    using palloc_free_spec [of s p 1] pool_owned_span [of "kernel_pool s"] pool_owned_span [of "user_pool s"]
    by (auto simp: palloc_free_page_def owned_def)
qed

section \<open>Initialization\<close>

lemma buf_size:
  assumes "unat n \<le> 2 ^ 18"
  shows "unat (elem_cnt n) = (unat n + 31) div 32" "unat (bitmap_buf_size n) = 8 + 4 * ((unat n + 31) div 32)"
proof -
  show e: "unat (elem_cnt n) = (unat n + 31) div 32" using elem_cnt_bits [of n] assms by simp
  have m: "unat (4 * elem_cnt n) = 4 * ((unat n + 31) div 32)" using assms by (subst unat_mult_lem [THEN iffD1]) (simp_all add: e)
  show "unat (bitmap_buf_size n) = 8 + 4 * ((unat n + 31) div 32)" unfolding bitmap_buf_size_def byte_cnt_def using assms
    by (subst unat_add_lem [THEN iffD1]) (simp_all add: m)
qed

text \<open>The pages that \<open>struct bitmap\<close> (8 bytes) and the words of a bitmap of \<open>n\<close> bits occupy.\<close>

definition map_pages :: "nat \<Rightarrow> nat" where
  "map_pages n = (8 + 4 * ((n + 31) div 32) + 4095) div 4096"

lemma init_pool_spec:
  assumes b: "pg_ofs base = 0" "PHYS_BASE \<le> base" "unat base + 4096 * unat n \<le> 2 ^ 32" and n: "2 \<le> unat n"
  shows "\<exists>P. init_pool base n m = Some P \<and> pool_inv P \<and> pool_owned P = {}
    \<and> pool_span P = {unat base div 4096 + map_pages (unat n)..<unat base div 4096 + unat n}"
proof -
  have b': "0xc0000000 \<le> unat base" using b(2) by (simp add: word_le_nat_alt PHYS_BASE_def)
  then have nb: "unat n \<le> 2 ^ 18" using b(3) by simp
  define k where "k = DIV_ROUND_UP (bitmap_buf_size n) PGSIZE"
  have k: "unat k = (8 + 4 * ((unat n + 31) div 32) + 4095) div 4096"
  proof -
    have s: "unat (bitmap_buf_size n + PGSIZE) = 8 + 4 * ((unat n + 31) div 32) + 4096"
      using nb by (subst unat_add_lem [THEN iffD1]) (simp_all add: buf_size [OF nb] PGSIZE_eq)
    then have "1 \<le> bitmap_buf_size n + PGSIZE" by (simp add: word_le_nat_alt)
    then have "unat (bitmap_buf_size n + PGSIZE - 1) = 8 + 4 * ((unat n + 31) div 32) + 4095" by (simp add: unat_sub s)
    then show ?thesis by (simp add: k_def DIV_ROUND_UP_def unat_div_distrib PGSIZE_eq)
  qed
  have kn: "unat k < unat n" "0 < unat k" "8 + 4 * ((unat n + 31) div 32) \<le> 4096 * unat k" using n k by auto
  have un: "unat (n - k) = unat n - unat k" using kn by (simp add: unat_sub word_le_nat_alt)
  have uk: "unat (k * PGSIZE) = 4096 * unat k" using kn nb by (subst unat_mult_lem [THEN iffD1]) (simp_all add: PGSIZE_eq mult.commute)
  have ub: "unat (base + k * PGSIZE) = unat base + 4096 * unat k"
    using kn b(3) by (subst unat_add_lem [THEN iffD1]) (simp_all add: uk)
  have nk: "unat (n - k) \<le> 2 ^ 18" using un nb by simp
  define junk where "junk = map (\<lambda>i. m (base + 8 + 4 * of_nat i)) [0..<unat (elem_cnt (n - k))]"
  have "unat (n - k) \<le> 32 * length junk" using buf_size(1) [OF nk] by (simp add: junk_def)
  moreover have "(unat n - unat k + 31) div 32 \<le> (unat n + 31) div 32" by (intro div_le_mono) simp
  then have "bitmap_buf_size (n - k) \<le> k * PGSIZE"
    using kn(3) unfolding word_le_nat_alt buf_size(2) [OF nk] uk un by linarith
  ultimately obtain bm where bm: "bitmap_create_in_buf (n - k) junk (k * PGSIZE) = Some bm" "wf_bitmap bm" "bit_cnt bm = n - k"
      "bits_of bm = replicate (unat (n - k)) False"
    using bitmap_create_in_buf_bits by blast
  define P where "P = \<lparr>used_map = bm, pool_base = base + k * PGSIZE\<rparr>"
  have "init_pool base n m = Some P"
    using kn(1) bm(1) by (simp add: init_pool_def k_def [symmetric] junk_def [symmetric] P_def Let_def word_le_nat_alt)
  moreover have "pool_inv P"
  proof -
    have "4096 * (unat n - unat k) = 4096 * unat n - 4096 * unat k" by (simp add: diff_mult_distrib2)
    then show ?thesis using b b' ub un kn bm(2,3) by (simp add: pool_inv_def P_def pg_ofs_0 word_le_nat_alt PHYS_BASE_def)
  qed
  moreover have "pool_owned P = {}" using bm(3,4) by (auto simp: pool_owned_def P_def bitmap_used_def)
  moreover have "pool_span P = {unat base div 4096 + unat k..<unat base div 4096 + unat n}"
    using kn(1) bm(3) ub un by (auto simp: pool_span_def pages_at_def P_def)
  ultimately show ?thesis using k by (auto simp: map_pages_def)
qed

section \<open>Properties\<close>

text \<open>
  C20: on a machine with between 260 and 262144 pages (1 GB, what the kernel can map) and a limit of
  at least two user pages, \<open>palloc_init\<close> returns with both pools well formed and no page in use.  The
  pages above 1 MB are divided: half of them, or as many as the limit allows, go to the user pool and the
  others, below, to the kernel pool; each pool consists of exactly the pages of its part that follow the
  pages its bitmap occupies.
\<close>

theorem palloc_init_establishes:
  assumes "260 \<le> unat (init_ram_pages s)" "unat (init_ram_pages s) \<le> 2 ^ 18" "2 \<le> unat limit"
  shows "\<exists>s'. palloc_init limit s = Some s' \<and> palloc_inv s' \<and> owned s' = {}
    \<and> (let free = unat (init_ram_pages s) - 256; user = min (unat limit) (free div 2); kernel = free - user in
        pool_span (kernel_pool s') = {0xc0100 + map_pages kernel..<0xc0100 + kernel}
        \<and> pool_span (user_pool s') = {0xc0100 + kernel + map_pages user..<0xc0000 + unat (init_ram_pages s)})"
proof -
  define r where "r = unat (init_ram_pages s)"
  have r: "260 \<le> r" "r \<le> 2 ^ 18" using assms by (simp_all add: r_def)
  have m: "unat (init_ram_pages s * PGSIZE) = 4096 * r"
    using r by (subst unat_mult_lem [THEN iffD1]) (simp_all add: PGSIZE_eq r_def mult.commute)
  have e: "ptov (init_ram_pages s * PGSIZE) = Some (init_ram_pages s * PGSIZE + PHYS_BASE)"
    using m r by (simp add: ptov_def word_less_nat_alt PHYS_BASE_def)
  have st: "ptov 1048576 = Some 0xc0100000" by (simp add: ptov_def PHYS_BASE_def)
  define f where "f = (init_ram_pages s * PGSIZE + PHYS_BASE - 0xc0100000) div PGSIZE"
  have f: "unat f = r - 256"
  proof -
    have d: "init_ram_pages s * PGSIZE + PHYS_BASE - 0xc0100000 = init_ram_pages s * PGSIZE - 0x100000" by (simp add: PHYS_BASE_def)
    have "unat (init_ram_pages s * PGSIZE - 0x100000) = 4096 * r - 0x100000"
      using m r by (simp add: unat_sub word_le_nat_alt)
    then have "unat f = (4096 * r - 0x100000) div 4096" unfolding f_def d unat_div_distrib PGSIZE_eq(2) by simp
    then show ?thesis using r by simp
  qed
  define u where "u = (if f div 2 > limit then limit else f div 2)"
  have u: "unat u = min (unat limit) ((r - 256) div 2)"
    by (auto simp: u_def unat_div_distrib f word_less_nat_alt min_def)
  have u2: "2 \<le> unat u" "unat u \<le> unat limit" "2 * unat u \<le> r - 256" using u assms(3) r by auto
  have k: "unat (f - u) = r - 256 - unat u" using u2 f by (simp add: unat_sub word_le_nat_alt)
  have k': "unat (f - u) + unat u = r - 256" "2 \<le> unat (f - u)" using k u2 r by auto
  have "unat (f - u) \<le> 261888" using k' r by simp
  then obtain K where K: "init_pool 0xc0100000 (f - u) (mem s) = Some K" "pool_inv K" "pool_owned K = {}"
      "pool_span K = {0xc0100 + map_pages (unat (f - u))..<0xc0100 + unat (f - u)}"
    using init_pool_spec [of "0xc0100000" "f - u" "mem s"] k' r by (auto simp: pg_ofs_0 PHYS_BASE_def)
  have km: "unat ((f - u) * PGSIZE) = 4096 * unat (f - u)"
    using k' r by (subst unat_mult_lem [THEN iffD1]) (simp_all add: PGSIZE_eq mult.commute)
  have ub: "unat (0xc0100000 + (f - u) * PGSIZE) = 0xc0100000 + 4096 * unat (f - u)"
    using k' r u2 by (subst unat_add_lem [THEN iffD1]) (simp_all add: km)
  have "4096 * unat (f - u) + 4096 * unat u \<le> 1072693248" using k' r by simp
  then obtain U where U: "init_pool (0xc0100000 + (f - u) * PGSIZE) u (mem s) = Some U" "pool_inv U" "pool_owned U = {}"
      "pool_span U = {0xc0100 + unat (f - u) + map_pages (unat u)..<0xc0100 + unat (f - u) + unat u}"
    using init_pool_spec [of "0xc0100000 + (f - u) * PGSIZE" u "mem s"] k' r u2 ub
    by (auto simp: pg_ofs_0 word_le_nat_alt PHYS_BASE_def)
  define s' where "s' = s\<lparr>kernel_pool := K, user_pool := U\<rparr>"
  have "palloc_init limit s = Some s'"
    using K(1) U(1) by (cases "f div 2 > limit") (simp_all add: palloc_init_def st e Let_def f_def [symmetric] u_def s'_def)
  moreover have "pool_span K \<inter> pool_span U = {}" unfolding K(4) U(4) by auto
  then have "palloc_inv s'" using K(2) U(2) by (simp add: palloc_inv_def s'_def)
  moreover have "{0xc0100 + unat (f - u) + map_pages (unat u)..<0xc0100 + unat (f - u) + unat u}
      = {0xc0100 + unat (f - u) + map_pages (unat u)..<0xc0000 + r}"
    by (rule arg_cong [where f = "atLeastLessThan _"]) (use k' r(1) in simp)
  moreover have "owned s' = {}" using K(3) U(3) by (simp add: owned_def s'_def)
  ultimately show ?thesis using K(4) U(4) unfolding Let_def r_def [symmetric] u [symmetric] k [symmetric]
    by (intro exI [of _ s']) (simp add: s'_def)
qed

theorem palloc_init_establishes_witness:
  "\<exists>s'. palloc_init 1000000 \<lparr>mem = \<lambda>_. 0, kernel_pool = undefined, user_pool = undefined, init_ram_pages = 1024,
      base_page_dir = 0, pdbr = 0, tlb = \<lambda>_. None\<rparr> = Some s' \<and> palloc_inv s' \<and> owned s' = {}
      \<and> pool_span (kernel_pool s') = {0xc0101..<0xc0280} \<and> pool_span (user_pool s') = {0xc0281..<0xc0400}"
  using palloc_init_establishes [of "\<lparr>mem = \<lambda>_. 0, kernel_pool = undefined, user_pool = undefined, init_ram_pages = 1024,
      base_page_dir = 0, pdbr = 0, tlb = \<lambda>_. None\<rparr>" 1000000] by (simp add: map_pages_def)

text \<open>
  C13: \<open>palloc_get_multiple\<close> hands out \<open>page_cnt\<close> consecutive aligned pages of the right pool that
  nobody uses, zeroed when asked, and touches no other memory; it returns the null pointer, or panics
  under \<open>PAL_ASSERT\<close>, exactly when no such run of pages is free, and then changes nothing.
\<close>

theorem palloc_get_multiple_correct:
  assumes "palloc_inv s" "0 < n"
  shows "case palloc_get_multiple flags n s of
      None \<Rightarrow> flags AND PAL_ASSERT \<noteq> 0 \<and> no_room flags (unat n) s
    | Some (p, s') \<Rightarrow>
        if p = 0 then no_room flags (unat n) s \<and> s' = s
        else palloc_inv s' \<and> pg_ofs p = 0 \<and> PHYS_BASE \<le> p
          \<and> pages_at p (unat n) \<subseteq> pool_span (the_pool flags s) \<and> pages_at p (unat n) \<inter> owned s = {}
          \<and> owned s' = owned s \<union> pages_at p (unat n)
          \<and> mem s' = (\<lambda>a. if flags AND PAL_ZERO \<noteq> 0 \<and> unat a div 4096 \<in> pages_at p (unat n) then 0 else mem s a)"
  using palloc_get_spec [OF assms, of flags] by (auto split: option.splits if_splits)

definition two_pages :: memory where
  "two_pages = \<lparr>mem = \<lambda>_. 7, kernel_pool = \<lparr>used_map = \<lparr>bit_cnt = 2, bits = [1]\<rparr>, pool_base = 0xc0101000\<rparr>,
     user_pool = \<lparr>used_map = \<lparr>bit_cnt = 2, bits = [0]\<rparr>, pool_base = 0xc0104000\<rparr>, init_ram_pages = 262,
     base_page_dir = 0xc0101000, pdbr = 0, tlb = \<lambda>_. None\<rparr>"

lemma two_pages_inv: "palloc_inv two_pages"
  by (auto simp: palloc_inv_def pool_inv_def two_pages_def wf_bitmap_def pg_ofs_0 PHYS_BASE_def pool_span_def pages_at_def)

theorem palloc_get_multiple_correct_witness:
  "palloc_inv two_pages \<and> (case palloc_get_multiple PAL_ZERO 1 two_pages of
      None \<Rightarrow> PAL_ZERO AND PAL_ASSERT \<noteq> 0
    | Some (p, s') \<Rightarrow> p = 0 \<or> owned s' = owned two_pages \<union> pages_at p 1)"
  using palloc_get_multiple_correct [OF two_pages_inv, of 1 PAL_ZERO] two_pages_inv
  by (auto split: option.splits if_splits)

text \<open>
  C14: freeing pages that are in use in one of the pools, however they were allocated, returns, gives
  back exactly these pages, overwrites them with the pattern \<open>0xcc\<close>, leaves all other memory as it is
  and keeps the pools well formed and where they are.
\<close>

theorem palloc_free_multiple_correct:
  assumes "palloc_inv s" "pg_ofs p = 0"
    "pages_at p (unat n) \<subseteq> pool_owned (kernel_pool s) \<or> pages_at p (unat n) \<subseteq> pool_owned (user_pool s)"
  shows "\<exists>s'. palloc_free_multiple p n s = Some s' \<and> palloc_inv s' \<and> owned s' = owned s - pages_at p (unat n)
    \<and> mem s' = (\<lambda>a. if unat a div 4096 \<in> pages_at p (unat n) then 0xcccccccc else mem s a)
    \<and> pool_span (kernel_pool s') = pool_span (kernel_pool s) \<and> pool_span (user_pool s') = pool_span (user_pool s)"
proof (rule palloc_free_spec [OF assms(1,2)])
  show "pages_at p (unat n) \<subseteq> owned s" using assms(3) by (auto simp: owned_def)
  show "pages_at p (unat n) \<subseteq> pool_span (kernel_pool s) \<or> pages_at p (unat n) \<subseteq> pool_span (user_pool s)"
    using assms(3) pool_owned_span [of "kernel_pool s"] pool_owned_span [of "user_pool s"] by blast
qed

theorem palloc_free_multiple_correct_witness:
  "pages_at 0xc0101000 1 \<subseteq> pool_owned (kernel_pool two_pages)
   \<and> (\<exists>s'. palloc_free_multiple 0xc0101000 1 two_pages = Some s' \<and> owned s' = {} \<and> mem s' 0xc0101004 = 0xcccccccc
        \<and> mem s' 0xc0102000 = 7)"
proof -
  have b: "bitmap_used \<lparr>bit_cnt = 2, bits = [1]\<rparr> = {0}" "bitmap_used \<lparr>bit_cnt = 2, bits = [0]\<rparr> = {}"
    by (auto simp: bitmap_used_def bits_of_def upt_rec bit_at_def nth_Cons' split: if_splits)
  have o: "pool_owned (kernel_pool two_pages) = {0xc0101}" "pool_owned (user_pool two_pages) = {}"
    by (simp_all add: pool_owned_def two_pages_def b)
  have u: "pages_at 0xc0101000 (unat (1 :: u32)) = {0xc0101}" by simp
  have m: "mem two_pages = (\<lambda>_. 7)" by (simp add: two_pages_def)
  show ?thesis using palloc_free_multiple_correct [OF two_pages_inv, of "0xc0101000" 1] unfolding u m owned_def o
    by (auto simp: pg_ofs_0)
qed

end
