(* ===== verification/Pagedir.thy ===== *)
theory Pagedir
  imports Palloc
begin

text \<open>
  Page directories, \<open>userprog/pagedir.c\<close>, built in the memory of the page allocator.  The
  translation look-aside buffer holds copies of page-table entries; loading the page-directory base
  register empties it.
\<close>

section \<open>Model\<close>

definition store :: "u32 \<Rightarrow> u32 \<Rightarrow> memory \<Rightarrow> memory" where
  "store a v s = s\<lparr>mem := (mem s)(a := v)\<rparr>"

definition pagedir_activate :: "u32 \<Rightarrow> memory \<Rightarrow> memory option" where
  "pagedir_activate pd s = do {
     let pd = (if pd = 0 then base_page_dir s else pd);
     p \<leftarrow> vtop pd;
     Some (s\<lparr>pdbr := p, tlb := \<lambda>_. None\<rparr>) }"

definition active_pd :: "memory \<Rightarrow> u32 option" where
  "active_pd s = ptov (pdbr s)"

definition invalidate_pagedir :: "u32 \<Rightarrow> memory \<Rightarrow> memory option" where
  "invalidate_pagedir pd s = do {
     a \<leftarrow> active_pd s;
     if a = pd then pagedir_activate pd s else Some s }"

definition pagedir_create :: "memory \<Rightarrow> (u32 \<times> memory) option" where
  "pagedir_create s = do {
     (pd, s) \<leftarrow> palloc_get_page 0 s;
     if pd \<noteq> 0
     then Some (pd, s\<lparr>mem := (\<lambda>a. if unat a div 4096 = unat pd div 4096 then mem s (a - pd + base_page_dir s) else mem s a)\<rparr>)
     else Some (pd, s) }"

definition lookup_page :: "u32 \<Rightarrow> u32 \<Rightarrow> bool \<Rightarrow> memory \<Rightarrow> (u32 \<times> memory) option" where
  "lookup_page pd vaddr create s = do {
     kassert (pd \<noteq> 0);
     kassert (\<not> create \<or> is_user_vaddr vaddr);
     let pde = pd + 4 * pd_no vaddr;
     (found, s) \<leftarrow>
       (if mem s pde = 0 then
          if create then do {
            (pt, s) \<leftarrow> palloc_get_page PAL_ZERO s;
            if pt = 0 then Some (False, s)
            else do { e \<leftarrow> pde_create pt; Some (True, store pde e s) } }
          else Some (False, s)
        else Some (True, s));
     if found then do { pt \<leftarrow> pde_get_pt (mem s pde); Some (pt + 4 * pt_no vaddr, s) }
     else Some (0, s) }"

definition pagedir_set_page :: "u32 \<Rightarrow> u32 \<Rightarrow> u32 \<Rightarrow> bool \<Rightarrow> memory \<Rightarrow> (bool \<times> memory) option" where
  "pagedir_set_page pd upage kpage writable s = do {
     kassert (pg_ofs upage = 0);
     kassert (pg_ofs kpage = 0);
     kassert (is_user_vaddr upage);
     p \<leftarrow> vtop kpage;
     kassert (drop_bit PTSHIFT p < init_ram_pages s);
     kassert (pd \<noteq> base_page_dir s);
     (pte, s) \<leftarrow> lookup_page pd upage True s;
     if pte \<noteq> 0 then do {
       kassert (mem s pte AND PTE_P = 0);
       e \<leftarrow> pte_create_user kpage writable;
       Some (True, store pte e s) }
     else Some (False, s) }"

definition pagedir_get_page :: "u32 \<Rightarrow> u32 \<Rightarrow> memory \<Rightarrow> u32 option" where
  "pagedir_get_page pd uaddr s = do {
     kassert (is_user_vaddr uaddr);
     (pte, s) \<leftarrow> lookup_page pd uaddr False s;
     if pte \<noteq> 0 \<and> mem s pte AND PTE_P \<noteq> 0
     then do { page \<leftarrow> pte_get_page (mem s pte); Some (page + pg_ofs uaddr) }
     else Some 0 }"

definition pagedir_clear_page :: "u32 \<Rightarrow> u32 \<Rightarrow> memory \<Rightarrow> memory option" where
  "pagedir_clear_page pd upage s = do {
     kassert (pg_ofs upage = 0);
     kassert (is_user_vaddr upage);
     (pte, s) \<leftarrow> lookup_page pd upage False s;
     if pte \<noteq> 0 \<and> mem s pte AND PTE_P \<noteq> 0
     then invalidate_pagedir pd (store pte (mem s pte AND NOT PTE_P) s)
     else Some s }"

definition pagedir_is_dirty :: "u32 \<Rightarrow> u32 \<Rightarrow> memory \<Rightarrow> bool option" where
  "pagedir_is_dirty pd vpage s = do {
     (pte, s) \<leftarrow> lookup_page pd vpage False s;
     Some (pte \<noteq> 0 \<and> mem s pte AND PTE_D \<noteq> 0) }"

definition pagedir_set_dirty :: "u32 \<Rightarrow> u32 \<Rightarrow> bool \<Rightarrow> memory \<Rightarrow> memory option" where
  "pagedir_set_dirty pd vpage dirty s = do {
     (pte, s) \<leftarrow> lookup_page pd vpage False s;
     if pte \<noteq> 0 then
       if dirty then Some (store pte (mem s pte OR PTE_D) s)
       else invalidate_pagedir pd (store pte (mem s pte AND NOT PTE_D) s)
     else Some s }"

definition pagedir_is_accessed :: "u32 \<Rightarrow> u32 \<Rightarrow> memory \<Rightarrow> bool option" where
  "pagedir_is_accessed pd vpage s = do {
     (pte, s) \<leftarrow> lookup_page pd vpage False s;
     Some (pte \<noteq> 0 \<and> mem s pte AND PTE_A \<noteq> 0) }"

definition pagedir_set_accessed :: "u32 \<Rightarrow> u32 \<Rightarrow> bool \<Rightarrow> memory \<Rightarrow> memory option" where
  "pagedir_set_accessed pd vpage accessed s = do {
     (pte, s) \<leftarrow> lookup_page pd vpage False s;
     if pte \<noteq> 0 then
       if accessed then Some (store pte (mem s pte OR PTE_A) s)
       else invalidate_pagedir pd (store pte (mem s pte AND NOT PTE_A) s)
     else Some s }"

text \<open>
  \<open>pagedir_destroy\<close> and its two loops, over the entries of a page table and of the directory.  The
  function that frees a page is an argument, so that the calls themselves can be talked about: a page
  freed twice is marked free twice, which the resulting bitmap does not show.
\<close>

fun destroy_ptes :: "(u32 \<Rightarrow> memory \<Rightarrow> memory option) \<Rightarrow> u32 list \<Rightarrow> memory \<Rightarrow> memory option" where
  "destroy_ptes free_page [] s = Some s"
| "destroy_ptes free_page (pte # ptes) s = do {
     s \<leftarrow> (if mem s pte AND PTE_P \<noteq> 0 then do { page \<leftarrow> pte_get_page (mem s pte); free_page page s } else Some s);
     destroy_ptes free_page ptes s }"

fun destroy_pdes :: "(u32 \<Rightarrow> memory \<Rightarrow> memory option) \<Rightarrow> u32 list \<Rightarrow> memory \<Rightarrow> memory option" where
  "destroy_pdes free_page [] s = Some s"
| "destroy_pdes free_page (pde # pdes) s = do {
     s \<leftarrow> (if mem s pde AND PTE_P \<noteq> 0 then do {
             pt \<leftarrow> pde_get_pt (mem s pde);
             s \<leftarrow> destroy_ptes free_page (map (\<lambda>i. pt + 4 * of_nat i) [0..<1024]) s;
             free_page pt s }
           else Some s);
     destroy_pdes free_page pdes s }"

definition pagedir_destroy_with :: "(u32 \<Rightarrow> memory \<Rightarrow> memory option) \<Rightarrow> u32 \<Rightarrow> memory \<Rightarrow> memory option" where
  "pagedir_destroy_with free_page pd s =
     (if pd = 0 then Some s
      else do {
        kassert (pd \<noteq> base_page_dir s);
        s \<leftarrow> destroy_pdes free_page (map (\<lambda>i. pd + 4 * of_nat i) [0..<unat (pd_no PHYS_BASE)]) s;
        free_page pd s })"

definition pagedir_destroy :: "u32 \<Rightarrow> memory \<Rightarrow> memory option" where
  "pagedir_destroy pd s = pagedir_destroy_with palloc_free_page pd s"

section \<open>The tables in memory\<close>

abbreviation pn :: "u32 \<Rightarrow> nat" where
  "pn a \<equiv> unat a div 4096"

definition pt_of :: "memory \<Rightarrow> u32 \<Rightarrow> u32 \<Rightarrow> u32 option" where
  "pt_of s pd i = (if mem s (pd + 4 * i) = 0 then None else pde_get_pt (mem s (pd + 4 * i)))"

definition pte_at :: "memory \<Rightarrow> u32 \<Rightarrow> u32 \<Rightarrow> u32 option" where
  "pte_at s pd va = map_option (\<lambda>pt. pt + 4 * pt_no va) (pt_of s pd (pd_no va))"

text \<open>What the processor finds for an address: the entry, when it is present.\<close>

definition translate :: "memory \<Rightarrow> u32 \<Rightarrow> u32 \<Rightarrow> u32 option" where
  "translate s pd va = (case pte_at s pd va of None \<Rightarrow> None
     | Some a \<Rightarrow> if mem s a AND PTE_P \<noteq> 0 then Some (mem s a) else None)"

text \<open>
  A set of page directories in memory: directories and page tables are pages in use, every user entry
  of a directory is empty or points to a page table, and no two entries share one.
\<close>

definition is_table :: "memory \<Rightarrow> u32 set \<Rightarrow> u32 \<Rightarrow> bool" where
  "is_table s D pt \<longleftrightarrow> pg_ofs pt = 0 \<and> PHYS_BASE \<le> pt \<and> pn pt \<in> owned s \<and> pt \<notin> D"

definition pds_wf :: "memory \<Rightarrow> u32 set \<Rightarrow> bool" where
  "pds_wf s D \<longleftrightarrow> palloc_inv s
     \<and> (\<forall>pd \<in> D. pg_ofs pd = 0 \<and> PHYS_BASE \<le> pd \<and> pn pd \<in> owned s)
     \<and> (\<forall>pd \<in> D. \<forall>i < 768. mem s (pd + 4 * i) \<noteq> 0 \<longrightarrow> (\<exists>pt. pde_get_pt (mem s (pd + 4 * i)) = Some pt \<and> is_table s D pt))
     \<and> (\<forall>pd \<in> D. \<forall>pd' \<in> D. \<forall>i < 768. \<forall>j < 768. \<forall>pt. pt_of s pd i = Some pt \<longrightarrow> pt_of s pd' j = Some pt \<longrightarrow> pd = pd' \<and> i = j)"

lemma word_add_index:
  assumes "pg_ofs p = 0" "i < 1024"
  shows "unat (p + 4 * i) = unat p + 4 * unat i" "pn (p + 4 * i) = pn p"
proof -
  have i: "unat i < 1024" using assms(2) by (simp add: word_less_nat_alt)
  have "pn p < 2 ^ 20" using unat_lt2p [of p] by simp
  then have p: "unat p \<le> 2 ^ 32 - 4096" using aligned_eq [OF assms(1)] by simp
  have m: "unat (4 * i) = 4 * unat i" using i by (subst unat_mult_lem [THEN iffD1]) simp_all
  show u: "unat (p + 4 * i) = unat p + 4 * unat i" using p i by (subst unat_add_lem [THEN iffD1]) (simp_all add: m)
  have "(4096 * pn p + 4 * unat i) div 4096 = pn p" using i by simp
  then show "pn (p + 4 * i) = pn p" unfolding u using aligned_eq [OF assms(1)] by simp
qed

lemma pn_eq_iff: "pg_ofs p = 0 \<Longrightarrow> pg_ofs q = 0 \<Longrightarrow> pn p = pn q \<longleftrightarrow> p = q"
  using aligned_eq by (metis word_unat_eq_iff)

lemma index_eq_iff:
  assumes "pg_ofs p = 0" "pg_ofs q = 0" "i < 1024" "j < 1024"
  shows "p + 4 * i = q + 4 * j \<longleftrightarrow> p = q \<and> i = j"
proof
  assume e: "p + 4 * i = q + 4 * j"
  then have "pn p = pn q" using word_add_index(2) [OF assms(1,3)] word_add_index(2) [OF assms(2,4)] by metis
  then have pq: "p = q" using pn_eq_iff [OF assms(1,2)] by simp
  then have "unat i = unat j" using word_add_index(1) [OF assms(1,3)] word_add_index(1) [OF assms(2,4)] e by simp
  then show "p = q \<and> i = j" using pq by (simp add: word_unat_eq_iff)
qed simp

lemma pd_no_user: "is_user_vaddr va \<Longrightarrow> pd_no va < 768"
  by (simp add: is_user_vaddr_def PHYS_BASE_def word_less_nat_alt unat_pd_no)

lemma index_bounds: "pd_no va < 1024" "pt_no va < 1024"
  using unat_pd_no [of va] unat_pt_no [of va] unat_lt2p [of va] by (simp_all add: word_less_nat_alt)

lemma same_page_iff: "pd_no va = pd_no va' \<and> pt_no va = pt_no va' \<longleftrightarrow> pg_no va = pg_no va'"
proof -
  have "unat va div 4096 div 1024 = unat va div 2 ^ 22" for va :: u32 by (simp add: div_mult2_eq [symmetric])
  then show ?thesis unfolding word_unat_eq_iff unat_pd_no unat_pt_no unat_pg_no
    by (metis div_mult_mod_eq)
qed

lemma pds_wfD:
  assumes "pds_wf s D"
  shows "palloc_inv s" "pd \<in> D \<Longrightarrow> pg_ofs pd = 0" "pd \<in> D \<Longrightarrow> PHYS_BASE \<le> pd" "pd \<in> D \<Longrightarrow> pn pd \<in> owned s"
    "pd \<in> D \<Longrightarrow> i < 768 \<Longrightarrow> mem s (pd + 4 * i) \<noteq> 0 \<Longrightarrow> \<exists>pt. pde_get_pt (mem s (pd + 4 * i)) = Some pt \<and> is_table s D pt"
    "pd \<in> D \<Longrightarrow> pd' \<in> D \<Longrightarrow> i < 768 \<Longrightarrow> j < 768 \<Longrightarrow> pt_of s pd i = Some pt \<Longrightarrow> pt_of s pd' j = Some pt \<Longrightarrow> pd = pd' \<and> i = j"
  using assms unfolding pds_wf_def by blast+

lemma pt_of_table:
  assumes "pds_wf s D" "pd \<in> D" "i < 768" "pt_of s pd i = Some pt"
  shows "is_table s D pt" "pg_ofs pt = 0" "pn pt \<in> owned s" "pt \<notin> D"
proof -
  show "is_table s D pt" using pds_wfD(5) [OF assms(1-3)] assms(4) by (auto simp: pt_of_def split: if_splits)
  then show "pg_ofs pt = 0" "pn pt \<in> owned s" "pt \<notin> D" by (simp_all add: is_table_def)
qed

lemma small_index: "(i :: u32) < 768 \<Longrightarrow> i < 1024"
  by (simp add: word_less_nat_alt)

text \<open>A change of memory and pools that keeps the contents of the pages in use keeps the tables.\<close>

lemma pds_wf_frame:
  assumes "pds_wf s D" "palloc_inv s'" "owned s \<subseteq> owned s'" "\<And>a. pn a \<in> owned s \<Longrightarrow> mem s' a = mem s a"
  shows "pds_wf s' D" "pd \<in> D \<Longrightarrow> i < 768 \<Longrightarrow> pt_of s' pd i = pt_of s pd i"
    "pd \<in> D \<Longrightarrow> is_user_vaddr va \<Longrightarrow> pte_at s' pd va = pte_at s pd va"
    "pd \<in> D \<Longrightarrow> is_user_vaddr va \<Longrightarrow> translate s' pd va = translate s pd va"
proof -
  note w = pds_wfD [OF assms(1)]
  have m: "mem s' (pd + 4 * i) = mem s (pd + 4 * i)" if "pd \<in> D" "i < 768" for pd i
    using assms(4) word_add_index(2) [OF w(2) [OF that(1)] small_index [OF that(2)]] w(4) [OF that(1)] by simp
  show p: "pt_of s' pd i = pt_of s pd i" if "pd \<in> D" "i < 768" for pd i using m [OF that] by (simp add: pt_of_def)
  show q: "pte_at s' pd va = pte_at s pd va" if "pd \<in> D" "is_user_vaddr va" for pd va
    using p [OF that(1) pd_no_user [OF that(2)]] by (simp add: pte_at_def)
  have "is_table s' D pt" if "is_table s D pt" for pt using that assms(3) by (auto simp: is_table_def)
  then have "pd \<in> D \<Longrightarrow> i < 768 \<Longrightarrow> mem s' (pd + 4 * i) \<noteq> 0 \<Longrightarrow> \<exists>pt. pde_get_pt (mem s' (pd + 4 * i)) = Some pt \<and> is_table s' D pt" for pd i
    using w(5) m by metis
  moreover have "pd \<in> D \<Longrightarrow> pg_ofs pd = 0 \<and> PHYS_BASE \<le> pd \<and> pn pd \<in> owned s'" for pd using w(2-4) assms(3) by blast
  ultimately show "pds_wf s' D" using assms(2) w(6) p unfolding pds_wf_def by simp
  show "translate s' pd va = translate s pd va" if d: "pd \<in> D" "is_user_vaddr va"
  proof (cases "pte_at s pd va")
    case (Some a)
    then obtain pt where pt: "pt_of s pd (pd_no va) = Some pt" "a = pt + 4 * pt_no va" by (auto simp: pte_at_def)
    note t = pt_of_table [OF assms(1) d(1) pd_no_user [OF d(2)] pt(1)]
    have "mem s' a = mem s a" using assms(4) word_add_index(2) [OF t(2) index_bounds(2)] t(3) pt(2) by simp
    then show ?thesis using q [OF d] by (simp add: translate_def Some)
  qed (use q [OF d] in \<open>simp add: translate_def\<close>)
qed

lemma store_simps [simp]: "mem (store a v s) = (mem s)(a := v)" "owned (store a v s) = owned s"
    "palloc_inv (store a v s) = palloc_inv s" "tlb (store a v s) = tlb s" "pdbr (store a v s) = pdbr s"
    "base_page_dir (store a v s) = base_page_dir s" "init_ram_pages (store a v s) = init_ram_pages s"
  by (simp_all add: store_def owned_def palloc_inv_def)

text \<open>Writing a page-table entry changes the translation of its page, in its directory, and no other.\<close>

lemma store_pte:
  assumes w: "pds_wf s D" and d: "pd \<in> D" "is_user_vaddr va" and a: "pte_at s pd va = Some a"
  shows "pds_wf (store a e s) D" "pd' \<in> D \<Longrightarrow> is_user_vaddr va' \<Longrightarrow> pte_at (store a e s) pd' va' = pte_at s pd' va'"
    "pd' \<in> D \<Longrightarrow> is_user_vaddr va' \<Longrightarrow> translate (store a e s) pd' va' =
       (if pd' = pd \<and> pg_no va' = pg_no va then if e AND PTE_P \<noteq> 0 then Some e else None else translate s pd' va')"
proof -
  obtain pt where pt: "pt_of s pd (pd_no va) = Some pt" "a = pt + 4 * pt_no va" using a by (auto simp: pte_at_def)
  note t = pt_of_table [OF w d(1) pd_no_user [OF d(2)] pt(1)]
  have m: "mem (store a e s) (pd' + 4 * i) = mem s (pd' + 4 * i)" if "pd' \<in> D" "i < 768" for pd' i
    using index_eq_iff [OF pds_wfD(2) [OF w that(1)] t(2) small_index [OF that(2)] index_bounds(2)] t(4) that(1) pt(2) by auto
  have p: "pt_of (store a e s) pd' i = pt_of s pd' i" if "pd' \<in> D" "i < 768" for pd' i
    using m [OF that] by (simp add: pt_of_def)
  show q: "pte_at (store a e s) pd' va' = pte_at s pd' va'" if "pd' \<in> D" "is_user_vaddr va'" for pd' va'
    using p [OF that(1) pd_no_user [OF that(2)]] by (simp add: pte_at_def)
  have "is_table (store a e s) D x = is_table s D x" for x by (simp add: is_table_def)
  then show "pds_wf (store a e s) D" using w m p unfolding pds_wf_def by simp
  show "translate (store a e s) pd' va' =
       (if pd' = pd \<and> pg_no va' = pg_no va then if e AND PTE_P \<noteq> 0 then Some e else None else translate s pd' va')"
    if d': "pd' \<in> D" "is_user_vaddr va'"
  proof (cases "pte_at s pd' va'")
    case None
    have "\<not> (pd' = pd \<and> pg_no va' = pg_no va)"
    proof
      assume "pd' = pd \<and> pg_no va' = pg_no va"
      then show False using None a same_page_iff [of va' va] by (simp add: pte_at_def)
    qed
    then show ?thesis using q [OF d'] None by (simp add: translate_def)
  next
    case (Some a')
    then obtain pt' where pt': "pt_of s pd' (pd_no va') = Some pt'" "a' = pt' + 4 * pt_no va'" by (auto simp: pte_at_def)
    note t' = pt_of_table [OF w d'(1) pd_no_user [OF d'(2)] pt'(1)]
    have eq: "a' = a \<longleftrightarrow> pd' = pd \<and> pg_no va' = pg_no va"
      using index_eq_iff [OF t'(2) t(2) index_bounds(2) index_bounds(2)] pt pt'
        pds_wfD(6) [OF w d'(1) d(1) pd_no_user [OF d'(2)] pd_no_user [OF d(2)]] same_page_iff [of va' va] by (metis option.inject)
    show ?thesis using q [OF d'] Some eq by (auto simp: translate_def)
  qed
qed

section \<open>Looking up entries\<close>

lemma palloc_get_frame:
  assumes "palloc_get_multiple flags n s = Some (p, s')"
  shows "tlb s' = tlb s" "pdbr s' = pdbr s" "base_page_dir s' = base_page_dir s" "init_ram_pages s' = init_ram_pages s"
  using assms by (auto simp: palloc_get_multiple_def Let_def ret_simps kassert_def split: if_splits)

lemma table_entry_nonzero:
  assumes "pg_ofs pt = 0" "PHYS_BASE \<le> pt" "i < 1024"
  shows "pt + 4 * i \<noteq> 0"
proof
  assume "pt + 4 * i = 0"
  then have "unat pt = 0" using word_add_index(1) [OF assms(1,3)] by simp
  then show False using assms(2) by (simp add: word_le_nat_alt PHYS_BASE_def)
qed

lemma pte_at_nonzero:
  assumes "pds_wf s D" "pd \<in> D" "is_user_vaddr va" "pte_at s pd va = Some a"
  shows "a \<noteq> 0"
proof -
  obtain pt where pt: "pt_of s pd (pd_no va) = Some pt" "a = pt + 4 * pt_no va" using assms(4) by (auto simp: pte_at_def)
  then show ?thesis using pt_of_table(1) [OF assms(1,2) pd_no_user [OF assms(3)] pt(1)] table_entry_nonzero index_bounds(2)
    by (simp add: is_table_def)
qed

lemma pd_nonzero: "pds_wf s D \<Longrightarrow> pd \<in> D \<Longrightarrow> pd \<noteq> 0"
  using pds_wfD(3) [of s D pd] by (auto simp: PHYS_BASE_def)

lemma lookup_existing:
  assumes w: "pds_wf s D" and d: "pd \<in> D" "is_user_vaddr va" and a: "pte_at s pd va = Some a"
  shows "lookup_page pd va create s = Some (a, s)"
  using a d(2) pd_nonzero [OF w d(1)] by (auto simp: lookup_page_def pte_at_def pt_of_def split: if_splits)

lemma lookup_page_eq:
  assumes w: "pds_wf s D" and d: "pd \<in> D" "is_user_vaddr va"
  shows "lookup_page pd va False s = Some (case pte_at s pd va of None \<Rightarrow> 0 | Some a \<Rightarrow> a, s)"
proof (cases "pte_at s pd va")
  case None
  then have "mem s (pd + 4 * pd_no va) = 0"
    using pds_wfD(5) [OF w d(1) pd_no_user [OF d(2)]] by (auto simp: pte_at_def pt_of_def split: if_splits)
  then show ?thesis using None pd_nonzero [OF w d(1)] by (simp add: lookup_page_def)
qed (use lookup_existing [OF w d] in simp)

text \<open>A new page table: it is a zeroed page that no directory uses, entered in an empty slot.\<close>

lemma new_table:
  assumes w: "pds_wf s D" and d: "pd \<in> D" "is_user_vaddr va" and none: "pte_at s pd va = None"
    and g: "palloc_get_page PAL_ZERO s = Some (pt, s1)" "pt \<noteq> 0" and e: "pde_create pt = Some e" "pde_get_pt e = Some pt" "e \<noteq> 0"
  defines "s2 \<equiv> store (pd + 4 * pd_no va) e s1"
  shows "pds_wf s2 D" "pte_at s2 pd va = Some (pt + 4 * pt_no va)"
    "pd' \<in> D \<Longrightarrow> is_user_vaddr va' \<Longrightarrow> translate s2 pd' va' = translate s pd' va'"
proof -
  have g': "palloc_inv s1" "pg_ofs pt = 0" "PHYS_BASE \<le> pt" "pn pt \<notin> owned s" "owned s1 = insert (pn pt) (owned s)"
    using pg.get_law [OF pds_wfD(1) [OF w] g] by auto
  have m1: "mem s1 a = (if pn a = pn pt then 0 else mem s a)" for a
    using palloc_get_spec [OF pds_wfD(1) [OF w], of 1 PAL_ZERO] g by (simp add: palloc_get_page_def PAL_ZERO_def)
  have fr: "mem s1 a = mem s a" if "pn a \<in> owned s" for a using m1 that g'(4) by auto
  have w1: "pds_wf s1 D" by (rule pds_wf_frame(1) [OF w g'(1) _ fr]) (use g'(5) in auto)
  have p1: "pt_of s1 pd' i = pt_of s pd' i" if "pd' \<in> D" "i < 768" for pd' i
    by (rule pds_wf_frame(2) [OF w g'(1) _ fr that]) (use g'(5) in auto)
  have ptD: "pt \<notin> D" using g'(4) pds_wfD(4) [OF w] by auto
  have isl: "pd_no va < 768" using d(2) by (rule pd_no_user)
  have m2: "mem s2 (pd' + 4 * i) = (if pd' = pd \<and> i = pd_no va then e else mem s1 (pd' + 4 * i))" if "pd' \<in> D" "i < 768" for pd' i
    using index_eq_iff [OF pds_wfD(2) [OF w that(1)] pds_wfD(2) [OF w d(1)] small_index [OF that(2)] small_index [OF isl]]
    by (simp add: s2_def)
  have p2: "pt_of s2 pd' i = (if pd' = pd \<and> i = pd_no va then Some pt else pt_of s pd' i)" if "pd' \<in> D" "i < 768" for pd' i
    using m2 [OF that] p1 [OF that] e by (auto simp: pt_of_def)
  have tab: "is_table s2 D x = is_table s1 D x" for x by (simp add: is_table_def s2_def)
  have t2: "\<exists>x. pde_get_pt (mem s2 (pd' + 4 * i)) = Some x \<and> is_table s2 D x" if "pd' \<in> D" "i < 768" "mem s2 (pd' + 4 * i) \<noteq> 0" for pd' i
  proof (cases "pd' = pd \<and> i = pd_no va")
    case True
    then show ?thesis unfolding tab using m2 [OF that(1,2)] e g' ptD by (simp add: is_table_def)
  next
    case False
    then show ?thesis using m2 [OF that(1,2)] pds_wfD(5) [OF w1 that(1,2)] that(3) by (auto simp: tab)
  qed
  have old: "x \<noteq> pt" if "pd' \<in> D" "i < 768" "pt_of s pd' i = Some x" for pd' i x
    using pt_of_table(3) [OF w that] g'(4) by auto
  have u2: "pd1 = pd2 \<and> i = j" if "pd1 \<in> D" "pd2 \<in> D" "i < 768" "j < 768" "pt_of s2 pd1 i = Some x" "pt_of s2 pd2 j = Some x" for pd1 pd2 i j x
    using that(5,6) p2 [OF that(1,3)] p2 [OF that(2,4)] old [OF that(1,3), of x] old [OF that(2,4), of x] pds_wfD(6) [OF w that(1-4), of x]
    by (auto split: if_splits)
  have "pd' \<in> D \<Longrightarrow> pg_ofs pd' = 0 \<and> PHYS_BASE \<le> pd' \<and> pn pd' \<in> owned s2" for pd'
    using pds_wfD(2-4) [OF w1] by (simp add: s2_def)
  then show w2: "pds_wf s2 D" using g'(1) t2 u2 unfolding pds_wf_def by (simp add: s2_def)
  show "pte_at s2 pd va = Some (pt + 4 * pt_no va)" using p2 [OF d(1) isl] by (simp add: pte_at_def)
  show "translate s2 pd' va' = translate s pd' va'" if d': "pd' \<in> D" "is_user_vaddr va'" for pd' va'
  proof (cases "pd' = pd \<and> pd_no va' = pd_no va")
    case True
    have n: "pte_at s pd' va' = None" using none True by (simp add: pte_at_def)
    have "pt + 4 * pt_no va' \<noteq> pd + 4 * pd_no va"
      using index_eq_iff [OF g'(2) pds_wfD(2) [OF w d(1)] index_bounds(2) small_index [OF isl]] ptD d(1) by auto
    then have "mem s2 (pt + 4 * pt_no va') = 0"
      using m1 [of "pt + 4 * pt_no va'"] word_add_index(2) [OF g'(2) index_bounds(2)] by (simp add: s2_def)
    then show ?thesis using p2 [OF d'(1) pd_no_user [OF d'(2)]] True n by (simp add: translate_def pte_at_def)
  next
    case False
    have q: "pte_at s2 pd' va' = pte_at s pd' va'" using p2 [OF d'(1) pd_no_user [OF d'(2)]] False by (auto simp: pte_at_def)
    show ?thesis
    proof (cases "pte_at s pd' va'")
      case (Some a)
      then obtain x where x: "pt_of s pd' (pd_no va') = Some x" "a = x + 4 * pt_no va'" by (auto simp: pte_at_def)
      note t = pt_of_table [OF w d'(1) pd_no_user [OF d'(2)] x(1)]
      have "a \<noteq> pd + 4 * pd_no va"
        using index_eq_iff [OF t(2) pds_wfD(2) [OF w d(1)] index_bounds(2) small_index [OF isl]] t(4) d(1) x(2) by auto
      moreover have "mem s1 a = mem s a" using fr word_add_index(2) [OF t(2) index_bounds(2)] t(3) x(2) by simp
      ultimately show ?thesis using q Some by (simp add: translate_def s2_def)
    qed (use q in \<open>simp add: translate_def\<close>)
  qed
qed

lemma lookup_create:
  assumes w: "pds_wf s D" and d: "pd \<in> D" "is_user_vaddr va"
  obtains a s' where "lookup_page pd va True s = Some (a, s')" "pds_wf s' D"
    "\<forall>pd' va'. pd' \<in> D \<longrightarrow> is_user_vaddr va' \<longrightarrow> translate s' pd' va' = translate s pd' va'"
    "a = 0 \<longrightarrow> s' = s \<and> no_room PAL_ZERO 1 s" "a \<noteq> 0 \<longrightarrow> pte_at s' pd va = Some a"
    "tlb s' = tlb s" "pdbr s' = pdbr s" "base_page_dir s' = base_page_dir s" "init_ram_pages s' = init_ram_pages s"
proof (cases "pte_at s pd va")
  case (Some a)
  then show ?thesis using that lookup_existing [OF w d Some] w pte_at_nonzero [OF w d Some] by blast
next
  case None
  then have z: "mem s (pd + 4 * pd_no va) = 0"
    using pds_wfD(5) [OF w d(1) pd_no_user [OF d(2)]] by (auto simp: pte_at_def pt_of_def split: if_splits)
  have f: "case palloc_get_page PAL_ZERO s of None \<Rightarrow> False | Some (p, s') \<Rightarrow> p = 0 \<longrightarrow> no_room PAL_ZERO 1 s \<and> s' = s"
    using palloc_get_spec [OF pds_wfD(1) [OF w], of 1 PAL_ZERO]
    by (auto simp: palloc_get_page_def PAL_ZERO_def PAL_ASSERT_def split: option.splits if_splits)
  then obtain pt s1 where g: "palloc_get_page PAL_ZERO s = Some (pt, s1)" "pt = 0 \<Longrightarrow> no_room PAL_ZERO 1 s \<and> s1 = s"
    by (auto split: option.splits)
  note fr = palloc_get_frame [OF g(1) [unfolded palloc_get_page_def]]
  have l: "lookup_page pd va True s = do {
     (found, s) \<leftarrow> (if pt = 0 then Some (False, s1) else do { e \<leftarrow> pde_create pt; Some (True, store (pd + 4 * pd_no va) e s1) });
     if found then do { pt \<leftarrow> pde_get_pt (mem s (pd + 4 * pd_no va)); Some (pt + 4 * pt_no va, s) } else Some (0, s) }"
    using d(2) pd_nonzero [OF w d(1)] by (simp add: lookup_page_def z g(1) Let_def)
  show ?thesis
  proof (cases "pt = 0")
    case True
    then show ?thesis using that [of 0 s] l g(2) w by simp
  next
    case False
    have g': "pg_ofs pt = 0" "PHYS_BASE \<le> pt" using pg.get_law [OF pds_wfD(1) [OF w] g(1) False] by auto
    obtain e where e: "pde_create pt = Some e" "pde_get_pt e = Some pt" "e \<noteq> 0" using pde_spec [OF g'] by blast
    note n = new_table [OF w d None g(1) False e]
    have "lookup_page pd va True s = Some (pt + 4 * pt_no va, store (pd + 4 * pd_no va) e s1)" using l False e by simp
    then show ?thesis
      using that n fr table_entry_nonzero [OF g' index_bounds(2)] by simp
  qed
qed

section \<open>The look-aside buffer\<close>

text \<open>
  A cached entry agrees with the table: same page and permissions, and it claims accessed or dirty
  only where the table does (the processor sets the bits in the table only when the cached copy does
  not have them yet).
\<close>

definition cached_ok :: "u32 \<Rightarrow> u32 \<Rightarrow> bool" where
  "cached_ok e pte \<longleftrightarrow> (e AND (PTE_ADDR OR PTE_W OR PTE_U) = pte AND (PTE_ADDR OR PTE_W OR PTE_U))
     \<and> (e AND PTE_D \<noteq> 0 \<longrightarrow> pte AND PTE_D \<noteq> 0) \<and> (e AND PTE_A \<noteq> 0 \<longrightarrow> pte AND PTE_A \<noteq> 0)"

definition tlb_ok :: "memory \<Rightarrow> u32 \<Rightarrow> bool" where
  "tlb_ok s pd \<longleftrightarrow> (\<forall>va e. is_user_vaddr va \<longrightarrow> tlb s (pg_no va) = Some e \<longrightarrow>
     (\<exists>pte. translate s pd va = Some pte \<and> cached_ok e pte))"

lemma tlb_okD: "tlb_ok s pd \<Longrightarrow> is_user_vaddr va \<Longrightarrow> tlb s (pg_no va) = Some e \<Longrightarrow> \<exists>pte. translate s pd va = Some pte \<and> cached_ok e pte"
  by (simp add: tlb_ok_def)

lemma tlb_ok_mono:
  assumes "tlb_ok s pd" "tlb s' = tlb s"
    and "\<And>va pte. is_user_vaddr va \<Longrightarrow> translate s pd va = Some pte \<Longrightarrow>
      \<exists>pte'. translate s' pd va = Some pte' \<and> (\<forall>e. cached_ok e pte \<longrightarrow> cached_ok e pte')"
  shows "tlb_ok s' pd"
  using assms unfolding tlb_ok_def by metis

lemma tlb_ok_same:
  assumes "tlb_ok s pd" "tlb s' = tlb s" "\<And>va. is_user_vaddr va \<Longrightarrow> translate s' pd va = translate s pd va"
  shows "tlb_ok s' pd"
  using assms(1,2) by (rule tlb_ok_mono) (use assms(3) in auto)

lemma active_vtop: "active_pd s = Some pd \<Longrightarrow> PHYS_BASE \<le> pd \<Longrightarrow> vtop pd = Some (pdbr s)"
  by (auto simp: active_pd_def ptov_def vtop_simps ret_simps)

lemma invalidate_spec:
  assumes "active_pd s = Some act" "PHYS_BASE \<le> act" "pd \<noteq> 0"
  shows "invalidate_pagedir pd s = Some (if pd = act then s\<lparr>tlb := \<lambda>_. None\<rparr> else s)"
  using assms active_vtop [OF assms(1,2)] by (auto simp: invalidate_pagedir_def pagedir_activate_def)

lemma flush_simps [simp]: "translate (s\<lparr>tlb := t\<rparr>) pd va = translate s pd va" "pds_wf (s\<lparr>tlb := t\<rparr>) D = pds_wf s D"
    "tlb_ok (s\<lparr>tlb := \<lambda>_. None\<rparr>) pd" "active_pd (s\<lparr>tlb := t\<rparr>) = active_pd s" "mem (s\<lparr>tlb := t\<rparr>) = mem s"
  by (simp_all add: translate_def pte_at_def pt_of_def pds_wf_def is_table_def palloc_inv_def owned_def tlb_ok_def active_pd_def
    split: option.splits)

lemma active_store [simp]: "active_pd (store a v s) = active_pd s"
  by (simp add: active_pd_def)

text \<open>
  The common part of the operations that change an existing entry: the entry is written, and the
  buffer is flushed when the directory is the active one and the change takes something away.
\<close>

lemma change_entry:
  assumes w: "pds_wf s D" and d: "pd \<in> D" "is_user_vaddr va" and a: "pte_at s pd va = Some a"
    and act: "active_pd s = Some act" "act \<in> D" "tlb_ok s act"
    and keep: "flush \<or> mem s a AND PTE_P \<noteq> 0 \<and> e AND PTE_P \<noteq> 0 \<and> (\<forall>c. cached_ok c (mem s a) \<longrightarrow> cached_ok c e)
      \<or> mem s a AND PTE_P = 0"
  defines "s1 \<equiv> store a e s"
  shows "\<exists>s'. (if flush then invalidate_pagedir pd s1 else Some s1) = Some s' \<and> pds_wf s' D \<and> tlb_ok s' act \<and> active_pd s' = Some act
    \<and> mem s' = (mem s)(a := e)
    \<and> (\<forall>pd' \<in> D. \<forall>va'. is_user_vaddr va' \<longrightarrow> translate s' pd' va' =
        (if pd' = pd \<and> pg_no va' = pg_no va then if e AND PTE_P \<noteq> 0 then Some e else None else translate s pd' va'))"
proof -
  have w1: "pds_wf s1 D" using store_pte(1) [OF w d a, of e] by (simp add: s1_def)
  have act1: "active_pd s1 = Some act" "tlb s1 = tlb s" "mem s1 = (mem s)(a := e)" using act by (simp_all add: s1_def)
  have phys: "PHYS_BASE \<le> act" using pds_wfD(3) [OF w act(2)] .
  define s' where "s' = (if flush \<and> pd = act then s1\<lparr>tlb := \<lambda>_. None\<rparr> else s1)"
  have r: "(if flush then invalidate_pagedir pd s1 else Some s1) = Some s'"
    using invalidate_spec [OF act1(1) phys pd_nonzero [OF w d(1)]] by (auto simp: s'_def)
  have tr: "translate s' pd' va' = (if pd' = pd \<and> pg_no va' = pg_no va then if e AND PTE_P \<noteq> 0 then Some e else None else translate s pd' va')"
    if "pd' \<in> D" "is_user_vaddr va'" for pd' va'
  proof -
    have "translate s' pd' va' = translate (store a e s) pd' va'" by (simp add: s'_def s1_def)
    also have "\<dots> = (if pd' = pd \<and> pg_no va' = pg_no va then if e AND PTE_P \<noteq> 0 then Some e else None else translate s pd' va')"
      by (rule store_pte(3) [OF w d a that])
    finally show ?thesis .
  qed
  have here: "translate s pd va' = (if mem s a AND PTE_P \<noteq> 0 then Some (mem s a) else None)" if "pg_no va' = pg_no va" for va'
  proof -
    have "pte_at s pd va' = pte_at s pd va" using that same_page_iff [of va' va] by (simp add: pte_at_def)
    then show ?thesis using a by (simp add: translate_def)
  qed
  have "tlb_ok s' act"
  proof (cases "flush \<and> pd = act")
    case False
    show ?thesis
    proof (rule tlb_ok_mono [OF act(3)])
      show "tlb s' = tlb s" using False act1(2) by (auto simp: s'_def)
      fix va' pte assume v: "is_user_vaddr va'" "translate s act va' = Some pte"
      show "\<exists>pte'. translate s' act va' = Some pte' \<and> (\<forall>c. cached_ok c pte \<longrightarrow> cached_ok c pte')"
      proof (cases "act = pd \<and> pg_no va' = pg_no va")
        case True
        then have "pte = mem s a" "mem s a AND PTE_P \<noteq> 0" using here [of va'] v(2) by (auto split: if_splits)
        then show ?thesis using True keep False tr [OF act(2) v(1)] by auto
      qed (use tr [OF act(2) v(1)] v(2) in auto)
    qed
  qed (simp add: s'_def)
  then show ?thesis using r w1 act1 tr by (intro exI [of _ s']) (auto simp: s'_def)
qed

section \<open>Mapping and unmapping\<close>

lemma pagedir_get_page_eq:
  assumes "pds_wf s D" "pd \<in> D" "is_user_vaddr va"
  shows "pagedir_get_page pd va s = (case translate s pd va of None \<Rightarrow> Some 0
    | Some e \<Rightarrow> do { page \<leftarrow> pte_get_page e; Some (page + pg_ofs va) })"
  using lookup_page_eq [OF assms] pte_at_nonzero [OF assms] assms(3)
  by (auto simp: pagedir_get_page_def translate_def split: option.splits)

text \<open>
  C11: mapping a page.  When \<open>pagedir_set_page\<close> succeeds, every address of the user page is
  translated to the frame, by an entry that is present, accessible to user programs, writable exactly
  if asked and otherwise clear, and no translation of another page or of another process's directory
  changes; when it fails, no page was free for a page table and nothing has changed.  It never
  panics on an unmapped page, keeps the tables of all directories well formed, and leaves no stale
  entry in the look-aside buffer.
\<close>

theorem pagedir_set_page_correct:
  assumes w: "pds_wf s D" and d: "pd \<in> D" "is_user_vaddr upage" "pg_ofs upage = 0" "translate s pd upage = None"
    and k: "pg_ofs kpage = 0" "PHYS_BASE \<le> kpage" "drop_bit PTSHIFT (kpage - PHYS_BASE) < init_ram_pages s"
    and b: "pd \<noteq> base_page_dir s" and act: "active_pd s = Some act" "act \<in> D" "tlb_ok s act"
  shows "\<exists>ok s'. pagedir_set_page pd upage kpage writable s = Some (ok, s') \<and> pds_wf s' D \<and> tlb_ok s' act
    \<and> (\<not> ok \<longrightarrow> s' = s \<and> no_room PAL_ZERO 1 s)
    \<and> (\<forall>pd' \<in> D. \<forall>va. is_user_vaddr va \<longrightarrow> translate s' pd' va =
        (if ok \<and> pd' = pd \<and> pg_no va = pg_no upage
         then Some ((kpage - PHYS_BASE) OR PTE_P OR (if writable then PTE_W else 0) OR PTE_U) else translate s pd' va))
    \<and> (\<forall>pd' \<in> D. \<forall>va. is_user_vaddr va \<longrightarrow> pagedir_get_page pd' va s' =
        (if ok \<and> pd' = pd \<and> pg_no va = pg_no upage then Some (kpage + pg_ofs va) else pagedir_get_page pd' va s))"
proof -
  obtain a s1 where l: "lookup_page pd upage True s = Some (a, s1)" "pds_wf s1 D"
      "\<forall>pd' va'. pd' \<in> D \<longrightarrow> is_user_vaddr va' \<longrightarrow> translate s1 pd' va' = translate s pd' va'"
      "a = 0 \<longrightarrow> s1 = s \<and> no_room PAL_ZERO 1 s" "a \<noteq> 0 \<longrightarrow> pte_at s1 pd upage = Some a"
      "tlb s1 = tlb s" "pdbr s1 = pdbr s" "base_page_dir s1 = base_page_dir s" "init_ram_pages s1 = init_ram_pages s"
    by (rule lookup_create [OF w d(1,2)])
  obtain e where e: "pte_create_user kpage writable = Some e" "pte_get_page e = Some kpage" "e AND PTE_P \<noteq> 0"
    using pte_user_spec [OF k(1,2)] by blast
  have ev: "e = (kpage - PHYS_BASE) OR PTE_P OR (if writable then PTE_W else 0) OR PTE_U"
    using e(1) k by (auto simp: pte_create_user_def pte_create_kernel_def vtop_simps or.assoc)
  have r: "pagedir_set_page pd upage kpage writable s = (if a \<noteq> 0 then do {
       kassert (mem s1 a AND PTE_P = 0); Some (True, store a e s1) } else Some (False, s1))"
    using d k b l(1) e(1) by (simp add: pagedir_set_page_def vtop_simps)
  show ?thesis
  proof (cases "a = 0")
    case True
    then show ?thesis using r l(4) w act(3) by (intro exI [of _ False] exI [of _ s]) simp
  next
    case False
    have pa: "pte_at s1 pd upage = Some a" using l(5) False by simp
    have "translate s1 pd upage = None" using l(3) d(1,2,4) by simp
    then have np: "mem s1 a AND PTE_P = 0" using pa by (simp add: translate_def split: if_splits)
    have t1: "tlb_ok s1 act" by (rule tlb_ok_same [OF act(3) l(6)]) (use l(3) act(2) in auto)
    have a1: "active_pd s1 = Some act" using act(1) l(7) by (simp add: active_pd_def)
    obtain s2 where c: "Some (store a e s1) = Some s2" "pds_wf s2 D" "tlb_ok s2 act"
        "\<forall>pd' \<in> D. \<forall>va'. is_user_vaddr va' \<longrightarrow> translate s2 pd' va' =
          (if pd' = pd \<and> pg_no va' = pg_no upage then if e AND PTE_P \<noteq> 0 then Some e else None else translate s1 pd' va')"
      using change_entry [OF l(2) d(1,2) pa a1 act(2) t1, of False e] np by auto
    have "pagedir_get_page pd' va s2 = (if pd' = pd \<and> pg_no va = pg_no upage then Some (kpage + pg_ofs va) else pagedir_get_page pd' va s)"
      if "pd' \<in> D" "is_user_vaddr va" for pd' va
      using pagedir_get_page_eq [OF c(2) that] pagedir_get_page_eq [OF w that] c(4) that l(3) e by simp
    moreover have "translate s2 pd' va = (if pd' = pd \<and> pg_no va = pg_no upage then Some e else translate s pd' va)"
      if "pd' \<in> D" "is_user_vaddr va" for pd' va using c(4) that l(3) e(3) by simp
    moreover have "pagedir_set_page pd upage kpage writable s = Some (True, s2)" using r False np c(1) by simp
    ultimately show ?thesis unfolding ev [symmetric] using c(2,3) by (intro exI [of _ True] exI [of _ s2]) simp
  qed
qed

text \<open>
  C24: unmapping a page.  After \<open>pagedir_clear_page\<close> no address of the page is translated, all other
  translations in all directories are as before, and the look-aside buffer of the active directory
  holds no entry that the tables do not.
\<close>

theorem pagedir_clear_page_correct:
  assumes w: "pds_wf s D" and d: "pd \<in> D" "is_user_vaddr upage" "pg_ofs upage = 0"
    and act: "active_pd s = Some act" "act \<in> D" "tlb_ok s act"
  shows "\<exists>s'. pagedir_clear_page pd upage s = Some s' \<and> pds_wf s' D \<and> tlb_ok s' act
    \<and> (\<forall>pd' \<in> D. \<forall>va. is_user_vaddr va \<longrightarrow> pagedir_get_page pd' va s' =
        (if pd' = pd \<and> pg_no va = pg_no upage then Some 0 else pagedir_get_page pd' va s))"
proof -
  have none: "pagedir_get_page pd va s = Some 0" if "translate s pd upage = None" "pg_no va = pg_no upage" "is_user_vaddr va" for va
  proof -
    have "translate s pd va = translate s pd upage" using that(2) same_page_iff [of va upage] by (simp add: translate_def pte_at_def)
    then show ?thesis using pagedir_get_page_eq [OF w d(1) that(3)] that(1) by simp
  qed
  show ?thesis
  proof (cases "translate s pd upage")
    case None
    then have "pagedir_clear_page pd upage s = Some s"
      using d lookup_page_eq [OF w d(1,2)] by (auto simp: pagedir_clear_page_def translate_def split: option.splits if_splits)
    then show ?thesis using None none w act(3) by auto
  next
    case (Some pte)
    then obtain a where a: "pte_at s pd upage = Some a" "mem s a AND PTE_P \<noteq> 0"
      by (auto simp: translate_def split: option.splits if_splits)
    let ?e = "mem s a AND NOT PTE_P"
    have p: "?e AND PTE_P = 0" by (simp add: and.assoc)
    obtain s' where c: "invalidate_pagedir pd (store a ?e s) = Some s'" "pds_wf s' D" "tlb_ok s' act"
        "\<forall>pd' \<in> D. \<forall>va'. is_user_vaddr va' \<longrightarrow> translate s' pd' va' =
          (if pd' = pd \<and> pg_no va' = pg_no upage then if ?e AND PTE_P \<noteq> 0 then Some ?e else None else translate s pd' va')"
      using change_entry [OF w d(1,2) a(1) act, of True ?e] by auto
    have "pagedir_clear_page pd upage s = Some s'"
      using d lookup_existing [OF w d(1,2) a(1), of False] a(2) pte_at_nonzero [OF w d(1,2) a(1)] c(1)
      by (simp add: pagedir_clear_page_def)
    moreover have "pagedir_get_page pd' va s' = (if pd' = pd \<and> pg_no va = pg_no upage then Some 0 else pagedir_get_page pd' va s)"
      if "pd' \<in> D" "is_user_vaddr va" for pd' va
      using pagedir_get_page_eq [OF c(2) that] pagedir_get_page_eq [OF w that] c(4) that p by simp
    ultimately show ?thesis using c by blast
  qed
qed

text \<open>A directory without entries, in the first page of a kernel pool of two pages, active.\<close>

definition one_dir :: memory where
  "one_dir = \<lparr>mem = \<lambda>_. 0, kernel_pool = \<lparr>used_map = \<lparr>bit_cnt = 2, bits = [1]\<rparr>, pool_base = 0xc0101000\<rparr>,
     user_pool = \<lparr>used_map = \<lparr>bit_cnt = 2, bits = [0]\<rparr>, pool_base = 0xc0104000\<rparr>, init_ram_pages = 262,
     base_page_dir = 0xc0100000, pdbr = 0x101000, tlb = \<lambda>_. None\<rparr>"

lemma one_dir_wf: "pds_wf one_dir {0xc0101000}" "active_pd one_dir = Some 0xc0101000" "tlb_ok one_dir 0xc0101000"
    "translate one_dir pd va = None"
proof -
  have "palloc_inv one_dir"
    by (auto simp: palloc_inv_def pool_inv_def one_dir_def wf_bitmap_def pg_ofs_0 PHYS_BASE_def pool_span_def pages_at_def)
  moreover have "0 \<in> bitmap_used \<lparr>bit_cnt = 2, bits = [1]\<rparr>" by (simp add: bitmap_used_def bits_of_def bit_at_def)
  then have "pn 0xc0101000 \<in> owned one_dir" by (auto simp: owned_def pool_owned_def one_dir_def intro!: image_eqI [of _ _ 0])
  ultimately show "pds_wf one_dir {0xc0101000}"
    by (simp add: pds_wf_def pt_of_def pg_ofs_0 PHYS_BASE_def) (simp add: one_dir_def)
  show "active_pd one_dir = Some 0xc0101000" by (simp add: active_pd_def one_dir_def ptov_def PHYS_BASE_def)
  show "tlb_ok one_dir 0xc0101000" by (simp add: tlb_ok_def one_dir_def)
  show "translate one_dir pd va = None" by (simp add: translate_def pte_at_def pt_of_def one_dir_def)
qed

theorem pagedir_set_page_correct_witness:
  "\<exists>ok s'. pagedir_set_page 0xc0101000 0x8048000 0xc0104000 True one_dir = Some (ok, s') \<and> pds_wf s' {0xc0101000}
     \<and> (ok \<longrightarrow> pagedir_get_page 0xc0101000 0x8048123 s' = Some 0xc0104123 \<and> translate s' 0xc0101000 0x8048123 = Some 0x104007)"
proof -
  have a: "is_user_vaddr 0x8048000" "pg_ofs 0x8048000 = 0" "pg_ofs 0xc0104000 = 0" "PHYS_BASE \<le> 0xc0104000"
    "drop_bit PTSHIFT (0xc0104000 - PHYS_BASE) < init_ram_pages one_dir" "0xc0101000 \<noteq> base_page_dir one_dir"
    "is_user_vaddr 0x8048123" "pg_no 0x8048123 = pg_no 0x8048000" "0xc0104000 + pg_ofs 0x8048123 = 0xc0104123"
    "(0xc0104000 - PHYS_BASE) OR PTE_P OR PTE_W OR PTE_U = 0x104007"
    by (simp_all add: PTE_P_def PTE_W_def PTE_U_def is_user_vaddr_def PHYS_BASE_def pg_ofs_def PGMASK_eq mask_eq_exp_minus_1 PTSHIFT_def PGBITS_def one_dir_def pg_no_def
      drop_bit_eq_div)
  show ?thesis
    using pagedir_set_page_correct [OF one_dir_wf(1) _ a(1,2) one_dir_wf(4) a(3-6) one_dir_wf(2) _ one_dir_wf(3), of True] a(7-10)
    by fastforce
qed

theorem pagedir_clear_page_correct_witness:
  "\<exists>s'. pagedir_clear_page 0xc0101000 0x8048000 one_dir = Some s' \<and> pagedir_get_page 0xc0101000 0x8048123 s' = Some 0"
proof -
  have a: "is_user_vaddr 0x8048000" "pg_ofs 0x8048000 = 0" "is_user_vaddr 0x8048123" "pg_no 0x8048123 = pg_no 0x8048000"
    by (simp_all add: is_user_vaddr_def PHYS_BASE_def pg_ofs_def PGMASK_eq mask_eq_exp_minus_1 PGBITS_def pg_no_def drop_bit_eq_div)
  show ?thesis using pagedir_clear_page_correct [OF one_dir_wf(1) _ a(1,2) one_dir_wf(2) _ one_dir_wf(3)] a(3,4) by fastforce
qed

section \<open>Accessed and dirty bits\<close>

lemma pagedir_get_page_flags:
  assumes "pds_wf s D" "pds_wf s' D" "pd \<in> D" "is_user_vaddr va"
    and "pte_at s' pd va = pte_at s pd va"
    and "\<And>a. pte_at s pd va = Some a \<Longrightarrow> mem s' a AND PTE_P = mem s a AND PTE_P \<and> mem s' a AND PTE_ADDR = mem s a AND PTE_ADDR"
  shows "pagedir_get_page pd va s' = pagedir_get_page pd va s"
  using pagedir_get_page_eq [OF assms(1,3,4)] pagedir_get_page_eq [OF assms(2-4)] assms(5,6)
  by (auto simp: translate_def pte_get_page_def split: option.splits)

lemma change_flag:
  assumes w: "pds_wf s D" and d: "pd \<in> D" "is_user_vaddr va" and a: "pte_at s pd va = Some a"
    and act: "active_pd s = Some act" "act \<in> D" "tlb_ok s act"
    and e: "e AND PTE_P = mem s a AND PTE_P" "e AND PTE_ADDR = mem s a AND PTE_ADDR"
    and keep: "flush \<or> (\<forall>c. cached_ok c (mem s a) \<longrightarrow> cached_ok c e)"
  shows "\<exists>s'. (if flush then invalidate_pagedir pd (store a e s) else Some (store a e s)) = Some s' \<and> pds_wf s' D \<and> tlb_ok s' act
    \<and> mem s' = (mem s)(a := e) \<and> pte_at s' pd va = Some a
    \<and> (\<forall>pd' \<in> D. \<forall>va'. is_user_vaddr va' \<longrightarrow> pagedir_get_page pd' va' s' = pagedir_get_page pd' va' s)"
proof -
  obtain s' where c: "(if flush then invalidate_pagedir pd (store a e s) else Some (store a e s)) = Some s'" "pds_wf s' D" "tlb_ok s' act"
      "mem s' = (mem s)(a := e)"
    using change_entry [OF w d a act, of flush e] keep e(1) by auto
  have same: "pte_at s' pd' va' = pte_at s pd' va'" if "pd' \<in> D" "is_user_vaddr va'" for pd' va'
  proof -
    have "pte_at s' pd' va' = pte_at (store a e s) pd' va'" using c(4) by (simp add: pte_at_def pt_of_def)
    then show ?thesis using store_pte(2) [OF w d a that, of e] by simp
  qed
  have "pagedir_get_page pd' va' s' = pagedir_get_page pd' va' s" if "pd' \<in> D" "is_user_vaddr va'" for pd' va'
    by (rule pagedir_get_page_flags [OF w c(2) that same [OF that]]) (use c(4) e in auto)
  then show ?thesis using c same [OF d] a by auto
qed

lemma is_flag_eq:
  assumes "pds_wf s D" "pd \<in> D" "is_user_vaddr va"
  shows "pagedir_is_accessed pd va s = Some (case pte_at s pd va of None \<Rightarrow> False | Some a \<Rightarrow> mem s a AND PTE_A \<noteq> 0)"
    "pagedir_is_dirty pd va s = Some (case pte_at s pd va of None \<Rightarrow> False | Some a \<Rightarrow> mem s a AND PTE_D \<noteq> 0)"
  using lookup_page_eq [OF assms] pte_at_nonzero [OF assms]
  by (auto simp: pagedir_is_accessed_def pagedir_is_dirty_def split: option.splits)

lemma flag_bits:
  fixes x :: u32
  shows "(x OR PTE_A) AND PTE_P = x AND PTE_P" "(x OR PTE_A) AND PTE_ADDR = x AND PTE_ADDR" "(x OR PTE_A) AND PTE_D = x AND PTE_D"
    "(x OR PTE_D) AND PTE_P = x AND PTE_P" "(x OR PTE_D) AND PTE_ADDR = x AND PTE_ADDR" "(x OR PTE_D) AND PTE_A = x AND PTE_A"
    "(x AND NOT PTE_A) AND PTE_P = x AND PTE_P" "(x AND NOT PTE_A) AND PTE_ADDR = x AND PTE_ADDR" "(x AND NOT PTE_A) AND PTE_D = x AND PTE_D"
    "(x AND NOT PTE_D) AND PTE_P = x AND PTE_P" "(x AND NOT PTE_D) AND PTE_ADDR = x AND PTE_ADDR" "(x AND NOT PTE_D) AND PTE_A = x AND PTE_A"
    "(x AND NOT PTE_A) AND PTE_A = 0" "(x AND NOT PTE_D) AND PTE_D = 0" "(x OR PTE_A) AND PTE_A \<noteq> 0" "(x OR PTE_D) AND PTE_D \<noteq> 0"
  by (simp_all add: bit.conj_disj_distrib2 and.assoc PTE_A_def PTE_D_def PTE_P_def PTE_ADDR_def)

lemma cached_ok_or: "cached_ok c x \<Longrightarrow> cached_ok c (x OR PTE_A)" "cached_ok c x \<Longrightarrow> cached_ok c (x OR PTE_D)"
  by (auto simp: cached_ok_def bit.conj_disj_distrib2 and.assoc PTE_A_def PTE_D_def PTE_P_def PTE_ADDR_def PTE_W_def PTE_U_def)

text \<open>
  C25: clearing or setting the accessed or dirty bit of a page changes that bit of the page-table entry
  and no other bit of memory: every translation keeps its frame, the bit reads back as it was set when the page
  has a page table, and the look-aside buffer never keeps a copy that still has a bit the table has
  lost, which would hide later accesses from the kernel.
\<close>

theorem pagedir_bits_coherent:
  assumes w: "pds_wf s D" and d: "pd \<in> D" "is_user_vaddr vpage"
    and act: "active_pd s = Some act" "act \<in> D" "tlb_ok s act"
  shows "(\<exists>s'. pagedir_set_accessed pd vpage v s = Some s' \<and> pds_wf s' D \<and> tlb_ok s' act
      \<and> mem s' = (case pte_at s pd vpage of None \<Rightarrow> mem s
          | Some a \<Rightarrow> (mem s)(a := if v then mem s a OR PTE_A else mem s a AND NOT PTE_A))
      \<and> pagedir_is_accessed pd vpage s' = Some (v \<and> pte_at s pd vpage \<noteq> None)
      \<and> pagedir_is_dirty pd vpage s' = pagedir_is_dirty pd vpage s
      \<and> (\<forall>pd' \<in> D. \<forall>va. is_user_vaddr va \<longrightarrow> pagedir_get_page pd' va s' = pagedir_get_page pd' va s))
    \<and> (\<exists>s'. pagedir_set_dirty pd vpage v s = Some s' \<and> pds_wf s' D \<and> tlb_ok s' act
      \<and> mem s' = (case pte_at s pd vpage of None \<Rightarrow> mem s
          | Some a \<Rightarrow> (mem s)(a := if v then mem s a OR PTE_D else mem s a AND NOT PTE_D))
      \<and> pagedir_is_dirty pd vpage s' = Some (v \<and> pte_at s pd vpage \<noteq> None)
      \<and> pagedir_is_accessed pd vpage s' = pagedir_is_accessed pd vpage s
      \<and> (\<forall>pd' \<in> D. \<forall>va. is_user_vaddr va \<longrightarrow> pagedir_get_page pd' va s' = pagedir_get_page pd' va s))" (is "?acc \<and> ?dirty")
proof (cases "pte_at s pd vpage")
  case None
  then show ?thesis using w act(3) is_flag_eq [OF w d] lookup_page_eq [OF w d]
    by (simp add: pagedir_set_accessed_def pagedir_set_dirty_def)
next
  case (Some a)
  note l = lookup_existing [OF w d Some, of False] pte_at_nonzero [OF w d Some]
  note c = change_flag [OF w d Some act]
  have ?acc
  proof -
    define e where "e = (if v then mem s a OR PTE_A else mem s a AND NOT PTE_A)"
    have eb: "e AND PTE_P = mem s a AND PTE_P" "e AND PTE_ADDR = mem s a AND PTE_ADDR" "e AND PTE_D = mem s a AND PTE_D"
      by (simp_all add: e_def flag_bits)
    have ev: "(e AND PTE_A \<noteq> 0) = v" using flag_bits(13,15) [of "mem s a"] by (auto simp: e_def)
    have "\<not> v \<or> (\<forall>c. cached_ok c (mem s a) \<longrightarrow> cached_ok c e)" using cached_ok_or(1) by (simp add: e_def)
    then obtain s' where s': "(if \<not> v then invalidate_pagedir pd (store a e s) else Some (store a e s)) = Some s'" "pds_wf s' D" "tlb_ok s' act"
        "mem s' = (mem s)(a := e)" "pte_at s' pd vpage = Some a"
        "\<forall>pd' \<in> D. \<forall>va'. is_user_vaddr va' \<longrightarrow> pagedir_get_page pd' va' s' = pagedir_get_page pd' va' s"
      using c [OF eb(1,2), of "\<not> v"] by auto
    have "pagedir_set_accessed pd vpage v s = Some s'"
      using l s'(1) by (simp add: pagedir_set_accessed_def e_def split: if_splits)
    then show ?thesis using s' Some is_flag_eq [OF w d] is_flag_eq [OF s'(2) d] eb ev by (auto simp: e_def [symmetric])
  qed
  moreover have ?dirty
  proof -
    define e where "e = (if v then mem s a OR PTE_D else mem s a AND NOT PTE_D)"
    have eb: "e AND PTE_P = mem s a AND PTE_P" "e AND PTE_ADDR = mem s a AND PTE_ADDR" "e AND PTE_A = mem s a AND PTE_A"
      by (simp_all add: e_def flag_bits)
    have ev: "(e AND PTE_D \<noteq> 0) = v" using flag_bits(14,16) [of "mem s a"] by (auto simp: e_def)
    have "\<not> v \<or> (\<forall>c. cached_ok c (mem s a) \<longrightarrow> cached_ok c e)" using cached_ok_or(2) by (simp add: e_def)
    then obtain s' where s': "(if \<not> v then invalidate_pagedir pd (store a e s) else Some (store a e s)) = Some s'" "pds_wf s' D" "tlb_ok s' act"
        "mem s' = (mem s)(a := e)" "pte_at s' pd vpage = Some a"
        "\<forall>pd' \<in> D. \<forall>va'. is_user_vaddr va' \<longrightarrow> pagedir_get_page pd' va' s' = pagedir_get_page pd' va' s"
      using c [OF eb(1,2), of "\<not> v"] by auto
    have "pagedir_set_dirty pd vpage v s = Some s'"
      using l s'(1) by (simp add: pagedir_set_dirty_def e_def split: if_splits)
    then show ?thesis using s' Some is_flag_eq [OF w d] is_flag_eq [OF s'(2) d] eb ev by (auto simp: e_def [symmetric])
  qed
  ultimately show ?thesis ..
qed

text \<open>A directory with one page table, which maps one page, accessed but not dirty.\<close>

definition mapped_dir :: memory where
  "mapped_dir = \<lparr>mem = (\<lambda>_. 0)(0xc0101080 := 0x102007, 0xc0102120 := 0x104027),
     kernel_pool = \<lparr>used_map = \<lparr>bit_cnt = 2, bits = [3]\<rparr>, pool_base = 0xc0101000\<rparr>,
     user_pool = \<lparr>used_map = \<lparr>bit_cnt = 2, bits = [1]\<rparr>, pool_base = 0xc0104000\<rparr>, init_ram_pages = 262,
     base_page_dir = 0xc0100000, pdbr = 0x101000, tlb = (\<lambda>_. None)(0x8048 := Some 0x104027)\<rparr>"

lemma mapped_dir_owned: "owned mapped_dir = {0xc0101, 0xc0102, 0xc0104}" "palloc_inv mapped_dir"
proof -
  have "bitmap_used \<lparr>bit_cnt = 2, bits = [3]\<rparr> = {0, 1}" "bitmap_used \<lparr>bit_cnt = 2, bits = [1]\<rparr> = {0}"
    by (auto simp: bitmap_used_def bits_of_def upt_rec bit_at_def nth_Cons' split: if_splits)
  then show "owned mapped_dir = {0xc0101, 0xc0102, 0xc0104}" by (auto simp: owned_def pool_owned_def mapped_dir_def)
  show "palloc_inv mapped_dir"
    by (auto simp: palloc_inv_def pool_inv_def mapped_dir_def wf_bitmap_def pg_ofs_0 PHYS_BASE_def pool_span_def pages_at_def)
qed

lemma mapped_dir_pde: "mem mapped_dir (0xc0101000 + 4 * i) = (if i = 32 then 0x102007 else 0)" if "i < 1024"
proof -
  have e: "(0xc0101000 :: u32) + 4 * i = 0xc0101080 \<longleftrightarrow> i = 32"
    using index_eq_iff [of "0xc0101000" "0xc0101000" i 32] that by (simp add: pg_ofs_0)
  have "pn (0xc0101000 + 4 * i) = pn 0xc0101000" using word_add_index(2) [of "0xc0101000" i] that by (simp add: pg_ofs_0)
  then have "(0xc0101000 :: u32) + 4 * i \<noteq> 0xc0102120" by auto
  then show ?thesis using e by (simp add: mapped_dir_def)
qed

lemma mapped_dir_wf: "pds_wf mapped_dir {0xc0101000}" "active_pd mapped_dir = Some 0xc0101000" "tlb_ok mapped_dir 0xc0101000"
    "pte_at mapped_dir 0xc0101000 0x8048000 = Some 0xc0102120"
proof -
  have pt: "pde_get_pt 0x102007 = Some 0xc0102000"
    by (simp add: pde_get_pt_def PTE_P_def PTE_ADDR_def ptov_def PHYS_BASE_def)
  have po: "pt_of mapped_dir 0xc0101000 i = (if i = 32 then Some 0xc0102000 else None)" if "i < 1024" for i
    unfolding pt_of_def mapped_dir_pde [OF that] using pt by simp
  show "pds_wf mapped_dir {0xc0101000}"
    using mapped_dir_owned pt po mapped_dir_pde small_index
    by (auto simp: pds_wf_def is_table_def pg_ofs_0 PHYS_BASE_def split: if_splits)
  show "active_pd mapped_dir = Some 0xc0101000" by (simp add: active_pd_def mapped_dir_def ptov_def PHYS_BASE_def)
  have ix: "pd_no 0x8048000 = 32" "pt_no 0x8048000 = 72" "pg_no 0x8048000 = 0x8048"
    by (simp_all add: pd_no_def pt_no_def pg_no_def addr_consts drop_bit_eq_div PTMASK_def BITMASK_def mask_eq_exp_minus_1)
  then show pa: "pte_at mapped_dir 0xc0101000 0x8048000 = Some 0xc0102120" using po [of 32] by (simp add: pte_at_def)
  show "tlb_ok mapped_dir 0xc0101000" unfolding tlb_ok_def
  proof (intro allI impI)
    fix va e assume v: "is_user_vaddr va" "tlb mapped_dir (pg_no va) = Some e"
    then have va: "pg_no va = pg_no 0x8048000" "e = 0x104027" using ix(3) by (auto simp: mapped_dir_def split: if_splits)
    then have "pte_at mapped_dir 0xc0101000 va = Some 0xc0102120"
      using pa same_page_iff [of va "0x8048000"] by (simp add: pte_at_def)
    then have "translate mapped_dir 0xc0101000 va = Some 0x104027" by (simp add: translate_def mapped_dir_def PTE_P_def)
    then show "\<exists>pte. translate mapped_dir 0xc0101000 va = Some pte \<and> cached_ok e pte" using va(2) by (simp add: cached_ok_def)
  qed
qed

theorem pagedir_bits_coherent_witness:
  "\<exists>s'. pagedir_set_accessed 0xc0101000 0x8048000 False mapped_dir = Some s' \<and> tlb_ok s' 0xc0101000
     \<and> mem s' = (mem mapped_dir)(0xc0102120 := 0x104007)
     \<and> pagedir_is_accessed 0xc0101000 0x8048000 s' = Some False"
proof -
  have a: "is_user_vaddr 0x8048000" by (simp add: is_user_vaddr_def PHYS_BASE_def)
  have e: "mem mapped_dir 0xc0102120 AND NOT PTE_A = 0x104007" by (simp add: mapped_dir_def PTE_A_def)
  show ?thesis
    using pagedir_bits_coherent [OF mapped_dir_wf(1) _ a mapped_dir_wf(2) _ mapped_dir_wf(3), of "0xc0101000" False] e
    by (auto simp: mapped_dir_wf(4))
qed

end
