(* ===== verification/Pagedir_Free.thy ===== *)
theory Pagedir_Free
  imports Pagedir
begin

text \<open>
  \<open>pagedir_destroy\<close>: it frees every page a directory maps, every page table and the directory itself,
  each once, and reads each table before the table's page is overwritten.
\<close>

section \<open>The pages a directory references\<close>

definition table_slots :: "u32 \<Rightarrow> u32 list" where
  "table_slots pt = map (\<lambda>i. pt + 4 * of_nat i) [0..<1024]"

definition dir_slots :: "u32 \<Rightarrow> u32 list" where
  "dir_slots pd = map (\<lambda>i. pd + 4 * of_nat i) [0..<768]"

text \<open>In the order in which they are freed: the pages of a table, then the table.\<close>

definition table_pages :: "memory \<Rightarrow> u32 list \<Rightarrow> u32 list" where
  "table_pages s slots = map (\<lambda>a. the (pte_get_page (mem s a))) (filter (\<lambda>a. mem s a AND PTE_P \<noteq> 0) slots)"

definition slot_pages :: "memory \<Rightarrow> u32 \<Rightarrow> u32 list" where
  "slot_pages s a = (if mem s a AND PTE_P \<noteq> 0
     then let pt = the (pde_get_pt (mem s a)) in table_pages s (table_slots pt) @ [pt] else [])"

definition dir_pages :: "memory \<Rightarrow> u32 list \<Rightarrow> u32 list" where
  "dir_pages s slots = concat (map (slot_pages s) slots)"

definition refs_ok :: "memory \<Rightarrow> u32 list \<Rightarrow> bool" where
  "refs_ok s slots \<longleftrightarrow> (\<forall>a \<in> set slots. mem s a AND PTE_P \<noteq> 0 \<longrightarrow> (\<exists>p. pte_get_page (mem s a) = Some p \<and> pg_ofs p = 0))"

lemma sub_single_disjoint: "A \<subseteq> {b} \<Longrightarrow> b \<notin> B \<Longrightarrow> A \<inter> B = {}"
  by blast

lemma slots_pn:
  assumes "pg_ofs p = 0" "n \<le> 1024"
  shows "a \<in> set (map (\<lambda>i. p + 4 * of_nat i) [0..<n]) \<Longrightarrow> pn a = pn p"
proof -
  assume "a \<in> set (map (\<lambda>i. p + 4 * of_nat i) [0..<n])"
  then obtain i where i: "i < n" "a = p + 4 * of_nat i" by auto
  have "(of_nat i :: u32) < 1024" using i(1) assms(2) by (simp add: word_less_nat_alt unat_of_nat)
  then show "pn a = pn p" using word_add_index(2) [OF assms(1)] i(2) by simp
qed

lemma table_slots_pn: "pg_ofs pt = 0 \<Longrightarrow> a \<in> set (table_slots pt) \<Longrightarrow> pn a = pn pt"
  using slots_pn [of pt 1024 a] by (simp add: table_slots_def)

lemma get_page_aligned:
  assumes "pte_get_page e = Some p"
  shows "pg_ofs p = 0"
proof -
  have "p = (e AND PTE_ADDR) + PHYS_BASE" using assms by (auto simp: pte_get_page_def ptov_def ret_simps)
  moreover have "pg_ofs (x + PHYS_BASE) = 0" if "pg_ofs x = 0" for x :: u32
  proof -
    have "unat (x + PHYS_BASE) mod 4096 = (unat x + 0xc0000000) mod 4096"
      by (simp add: unat_word_ariths PHYS_BASE_def mod_mod_cancel)
    moreover have "(unat x + 4096 * 0xc0000) mod 4096 = unat x mod 4096" by (rule mod_mult_self2)
    ultimately show ?thesis using that unfolding pg_ofs_0 by simp
  qed
  moreover have "pg_ofs (e AND PTE_ADDR) = 0"
    by (simp add: pg_ofs_def PGMASK_eq PTE_ADDR_eq and.assoc)
  ultimately show ?thesis by simp
qed

text \<open>
  \<open>palloc_free_page\<close> with the assertion that \<open>palloc_free_multiple\<close> has commented out: the page is in use.
\<close>

definition free_in_use :: "u32 \<Rightarrow> memory \<Rightarrow> memory option" where
  "free_in_use p s = do { kassert (pn p \<in> owned s); palloc_free_page p s }"

lemma free_page_spec:
  assumes "palloc_inv s" "pg_ofs p = 0" "pn p \<in> owned s"
  shows "\<exists>s'. palloc_free_page p s = Some s' \<and> free_in_use p s = Some s' \<and> palloc_inv s' \<and> owned s' = owned s - {pn p} \<and> (\<forall>x. pn x \<noteq> pn p \<longrightarrow> mem s' x = mem s x)"
proof -
  have "pages_at p (unat 1) \<subseteq> pool_span (kernel_pool s) \<or> pages_at p (unat 1) \<subseteq> pool_span (user_pool s)"
    using assms(3) pool_owned_span [of "kernel_pool s"] pool_owned_span [of "user_pool s"] by (auto simp: owned_def)
  from palloc_free_spec [OF assms(1,2) _ this] show ?thesis using assms(3) by (auto simp: palloc_free_page_def free_in_use_def)
qed

text \<open>Freeing the pages of some slots leaves everything outside these pages alone.\<close>

lemma destroy_ptes_spec:
  assumes "palloc_inv s" "refs_ok s slots" "distinct (map pn (table_pages s slots))" "pn ` set (table_pages s slots) \<subseteq> owned s"
    "pn ` set slots \<inter> pn ` set (table_pages s slots) = {}"
  shows "\<exists>s'. destroy_ptes palloc_free_page slots s = Some s' \<and> destroy_ptes free_in_use slots s = Some s' \<and> palloc_inv s' \<and> owned s' = owned s - pn ` set (table_pages s slots)
    \<and> (\<forall>a. pn a \<notin> pn ` set (table_pages s slots) \<longrightarrow> mem s' a = mem s a)"
  using assms
proof (induction slots arbitrary: s)
  case (Cons a slots)
  show ?case
  proof (cases "mem s a AND PTE_P \<noteq> 0")
    case False
    then have "table_pages s (a # slots) = table_pages s slots" by (simp add: table_pages_def)
    then show ?thesis using Cons.IH [OF Cons.prems(1)] Cons.prems False by (simp add: refs_ok_def)
  next
    case True
    then obtain p where p: "pte_get_page (mem s a) = Some p" using Cons.prems(2) by (auto simp: refs_ok_def)
    have tp: "table_pages s (a # slots) = p # table_pages s slots" using True p by (simp add: table_pages_def)
    have al: "pg_ofs p = 0" using get_page_aligned [OF p] .
    have own: "pn p \<in> owned s" using Cons.prems(4) tp by simp
    obtain s1 where s1: "palloc_free_page p s = Some s1" "palloc_inv s1" "owned s1 = owned s - {pn p}"
        "\<And>x. pn x \<noteq> pn p \<Longrightarrow> mem s1 x = mem s x" "free_in_use p s = Some s1"
      using free_page_spec [OF Cons.prems(1) al own] by blast
    have m: "mem s1 x = mem s x" if "x \<in> set slots" for x
    proof (rule s1(4))
      have "pn p \<notin> pn ` set slots" using Cons.prems(5) tp by simp
      then show "pn x \<noteq> pn p" using that by (metis imageI)
    qed
    then have t1: "table_pages s1 slots = table_pages s slots" "refs_ok s1 slots = refs_ok s slots"
      by (auto simp: table_pages_def refs_ok_def intro!: arg_cong2 [where f = map] filter_cong map_cong)
    have "pn p \<notin> pn ` set (table_pages s slots)" "distinct (map pn (table_pages s slots))"
      "pn ` set slots \<inter> pn ` set (table_pages s slots) = {}" "refs_ok s1 slots"
      using Cons.prems(2,3,5) t1 tp by (auto simp: refs_ok_def)
    moreover have "pn ` set (table_pages s slots) \<subseteq> owned s" using Cons.prems(4) tp by simp
    ultimately have pre: "refs_ok s1 slots" "distinct (map pn (table_pages s1 slots))" "pn ` set (table_pages s1 slots) \<subseteq> owned s1"
      "pn ` set slots \<inter> pn ` set (table_pages s1 slots) = {}"
      unfolding t1(1) s1(3) by (simp_all add: subset_Diff_insert)
    obtain s' where s': "destroy_ptes palloc_free_page slots s1 = Some s'" "palloc_inv s'" "owned s' = owned s1 - pn ` set (table_pages s slots)"
        "\<forall>x. pn x \<notin> pn ` set (table_pages s slots) \<longrightarrow> mem s' x = mem s1 x" "destroy_ptes free_in_use slots s1 = Some s'"
      using Cons.IH [OF s1(2) pre] unfolding t1(1) by blast
    have "destroy_ptes palloc_free_page (a # slots) s = Some s'" "destroy_ptes free_in_use (a # slots) s = Some s'"
      using True p s1(1,5) s'(1,5) by simp_all
    then show ?thesis using s' s1(3,4) tp by auto
  qed
qed (simp add: table_pages_def)

lemma table_pages_cong: "(\<And>x. x \<in> set slots \<Longrightarrow> mem s' x = mem s x) \<Longrightarrow> table_pages s' slots = table_pages s slots"
  by (auto simp: table_pages_def intro!: map_cong filter_cong)

definition dir_ok :: "memory \<Rightarrow> u32 list \<Rightarrow> bool" where
  "dir_ok s slots \<longleftrightarrow> (\<forall>a \<in> set slots. mem s a AND PTE_P \<noteq> 0 \<longrightarrow>
     (\<exists>pt. pde_get_pt (mem s a) = Some pt \<and> pg_ofs pt = 0 \<and> refs_ok s (table_slots pt)))"

lemma slot_pages_cong:
  assumes "mem s' a = mem s a" "\<And>x. x \<in> set (table_slots (the (pde_get_pt (mem s a)))) \<Longrightarrow> mem s a AND PTE_P \<noteq> 0 \<Longrightarrow> mem s' x = mem s x"
  shows "slot_pages s' a = slot_pages s a"
  using assms table_pages_cong [of "table_slots (the (pde_get_pt (mem s a)))" s' s] by (auto simp: slot_pages_def Let_def)

lemma destroy_pdes_spec:
  assumes "palloc_inv s" "dir_ok s slots" "distinct (map pn (dir_pages s slots))" "pn ` set (dir_pages s slots) \<subseteq> owned s"
    "pn ` set slots \<inter> pn ` set (dir_pages s slots) = {}"
  shows "\<exists>s'. destroy_pdes palloc_free_page slots s = Some s' \<and> destroy_pdes free_in_use slots s = Some s' \<and> palloc_inv s' \<and> owned s' = owned s - pn ` set (dir_pages s slots)
    \<and> (\<forall>a. pn a \<notin> pn ` set (dir_pages s slots) \<longrightarrow> mem s' a = mem s a)"
  using assms
proof (induction slots arbitrary: s)
  case (Cons a slots)
  have dp: "dir_pages s (a # slots) = slot_pages s a @ dir_pages s slots" by (simp add: dir_pages_def)
  show ?case
  proof (cases "mem s a AND PTE_P \<noteq> 0")
    case False
    then have "dir_pages s (a # slots) = dir_pages s slots" by (simp add: dp slot_pages_def)
    then show ?thesis using Cons.IH [OF Cons.prems(1)] Cons.prems False by (simp add: dir_ok_def)
  next
    case True
    then obtain pt where pt: "pde_get_pt (mem s a) = Some pt" "pg_ofs pt = 0" "refs_ok s (table_slots pt)"
      using Cons.prems(2) by (auto simp: dir_ok_def)
    let ?tp = "table_pages s (table_slots pt)"
    have sp: "slot_pages s a = ?tp @ [pt]" using True pt(1) by (simp add: slot_pages_def)
    have ps: "pn ` set (table_slots pt) \<subseteq> {pn pt}" using table_slots_pn [OF pt(2)] by auto
    have dist: "distinct (map pn ?tp)" "pn pt \<notin> pn ` set ?tp" "pn ` (set ?tp \<union> {pt}) \<inter> pn ` set (dir_pages s slots) = {}"
      using Cons.prems(3) unfolding dp sp by auto
    have "pn ` set ?tp \<subseteq> owned s" using Cons.prems(4) unfolding dp sp by (simp add: image_Un)
    moreover have "pn ` set (table_slots pt) \<inter> pn ` set ?tp = {}" by (rule sub_single_disjoint [OF ps dist(2)])
    ultimately obtain s1 where s1: "destroy_ptes palloc_free_page (table_slots pt) s = Some s1" "palloc_inv s1" "owned s1 = owned s - pn ` set ?tp"
        "\<forall>x. pn x \<notin> pn ` set ?tp \<longrightarrow> mem s1 x = mem s x" "destroy_ptes free_in_use (table_slots pt) s = Some s1"
      using destroy_ptes_spec [OF Cons.prems(1) pt(3) dist(1)] by blast
    have own: "pn pt \<in> owned s1" using Cons.prems(4) dist(2) s1(3) unfolding dp sp by auto
    obtain s2 where s2: "palloc_free_page pt s1 = Some s2" "palloc_inv s2" "owned s2 = owned s1 - {pn pt}"
        "\<And>x. pn x \<noteq> pn pt \<Longrightarrow> mem s2 x = mem s1 x" "free_in_use pt s1 = Some s2"
      using free_page_spec [OF s1(2) pt(2) own] by blast
    have m: "mem s2 x = mem s x" if "pn x \<notin> pn ` set (slot_pages s a)" for x using s1(4) s2(4) that unfolding sp by auto
    have ms: "mem s2 x = mem s x" if "x \<in> set slots" for x using m Cons.prems(5) that unfolding dp by auto
    have mt: "mem s2 y = mem s y" if x: "x \<in> set slots" "mem s x AND PTE_P \<noteq> 0" "y \<in> set (table_slots (the (pde_get_pt (mem s x))))" for x y
    proof -
      obtain q where q: "pde_get_pt (mem s x) = Some q" "pg_ofs q = 0" using Cons.prems(2) x(1,2) by (auto simp: dir_ok_def)
      have "q \<in> set (slot_pages s x)" using x(2) q(1) by (simp add: slot_pages_def)
      then have "q \<in> set (dir_pages s slots)" using x(1) by (auto simp: dir_pages_def)
      then have "pn q \<in> pn ` set (dir_pages s slots)" by (rule imageI)
      moreover have "pn y = pn q" using table_slots_pn [OF q(2), of y] x(3) q(1) by simp
      ultimately have "pn y \<notin> pn ` set (slot_pages s a)" using dist(3) unfolding sp by auto
      then show ?thesis by (rule m)
    qed
    have d2: "dir_pages s2 slots = dir_pages s slots"
      unfolding dir_pages_def using slot_pages_cong [OF ms mt] by (intro arg_cong [where f = concat] map_cong) auto
    have ok2: "dir_ok s2 slots"
      using Cons.prems(2) ms mt by (force simp: dir_ok_def refs_ok_def)
    obtain s' where s': "destroy_pdes palloc_free_page slots s2 = Some s'" "palloc_inv s'" "owned s' = owned s2 - pn ` set (dir_pages s slots)"
        "\<forall>x. pn x \<notin> pn ` set (dir_pages s slots) \<longrightarrow> mem s' x = mem s2 x" "destroy_pdes free_in_use slots s2 = Some s'"
    proof -
      define A B where "A = pn ` set ?tp" and "B = pn ` set (dir_pages s slots)"
      have "B \<subseteq> owned s" "pn pt \<notin> B" "A \<inter> B = {}" "owned s2 = owned s - A - {pn pt}"
        using Cons.prems(4) dist(3) s1(3) s2(3) unfolding dp sp A_def B_def by (simp_all add: image_Un)
      then have sub: "pn ` set (dir_pages s slots) \<subseteq> owned s2" unfolding B_def [symmetric] by blast
      have dj: "pn ` set slots \<inter> pn ` set (dir_pages s slots) = {}" "distinct (map pn (dir_pages s slots))"
        using Cons.prems(3,5) unfolding dp by (simp_all add: image_Un Int_Un_distrib)
      from Cons.IH [OF s2(2) ok2, unfolded d2, OF dj(2) sub dj(1)] show ?thesis using that by blast
    qed
    have "destroy_pdes palloc_free_page (a # slots) s = Some s'" "destroy_pdes free_in_use (a # slots) s = Some s'"
      using True pt(1) s1(1,5) s2(1,5) s'(1,5) by (simp_all add: table_slots_def)
    moreover have "\<forall>x. pn x \<notin> pn ` set (slot_pages s a @ dir_pages s slots) \<longrightarrow> mem s' x = mem s x"
      using s'(4) m by (simp add: image_Un)
    moreover have "owned s' = owned s - pn ` set (slot_pages s a @ dir_pages s slots)"
      unfolding s'(3) s2(3) s1(3) sp by (simp add: image_Un) blast
    ultimately show ?thesis using s'(2) unfolding dp by blast
  qed
qed (simp add: dir_pages_def)

section \<open>Properties\<close>

text \<open>
  C12: no leak and no double free.  When the pages a directory references are in use and distinct,
  \<open>pagedir_destroy\<close> returns, frees exactly the mapped user pages, the page tables and the directory,
  and leaves all other memory as it was.  Every page is in use at the moment it is freed: the assertion
  about this that \<open>palloc_free_multiple\<close> has commented out would hold in every call.
\<close>

theorem pagedir_destroy_frees_all:
  assumes "palloc_inv s" "pg_ofs pd = 0" "pd \<noteq> 0" "pd \<noteq> base_page_dir s"
    "dir_ok s (dir_slots pd)" "distinct (map pn (dir_pages s (dir_slots pd) @ [pd]))" "pn ` set (dir_pages s (dir_slots pd) @ [pd]) \<subseteq> owned s"
  shows "\<exists>s'. pagedir_destroy pd s = Some s' \<and> pagedir_destroy_with free_in_use pd s = Some s' \<and> palloc_inv s' \<and> owned s' = owned s - pn ` set (dir_pages s (dir_slots pd) @ [pd])
    \<and> (\<forall>a. pn a \<notin> pn ` set (dir_pages s (dir_slots pd) @ [pd]) \<longrightarrow> mem s' a = mem s a)"
proof -
  have n: "unat (pd_no PHYS_BASE) = 768" by (simp add: unat_pd_no PHYS_BASE_def)
  have sl: "pn ` set (dir_slots pd) \<subseteq> {pn pd}" using slots_pn [OF assms(2), of 768] unfolding dir_slots_def by auto
  have "pn ` set (dir_slots pd) \<inter> pn ` set (dir_pages s (dir_slots pd)) = {}" "distinct (map pn (dir_pages s (dir_slots pd)))" "pn ` set (dir_pages s (dir_slots pd)) \<subseteq> owned s"
    using sl assms(6,7) by auto
  then obtain s1 where s1: "destroy_pdes palloc_free_page (dir_slots pd) s = Some s1" "palloc_inv s1" "owned s1 = owned s - pn ` set (dir_pages s (dir_slots pd))"
      "\<forall>a. pn a \<notin> pn ` set (dir_pages s (dir_slots pd)) \<longrightarrow> mem s1 a = mem s a" "destroy_pdes free_in_use (dir_slots pd) s = Some s1"
    using destroy_pdes_spec [OF assms(1,5)] by blast
  have own: "pn pd \<in> owned s1" using assms(6,7) s1(3) by auto
  obtain s2 where s2: "palloc_free_page pd s1 = Some s2" "palloc_inv s2" "owned s2 = owned s1 - {pn pd}"
      "\<And>x. pn x \<noteq> pn pd \<Longrightarrow> mem s2 x = mem s1 x" "free_in_use pd s1 = Some s2"
    using free_page_spec [OF s1(2) assms(2) own] by blast
  have "pagedir_destroy pd s = Some s2" "pagedir_destroy_with free_in_use pd s = Some s2"
    using assms(3,4) s1(1,5) s2(1,5) by (simp_all add: pagedir_destroy_def pagedir_destroy_with_def n dir_slots_def)
  moreover have "\<forall>a. pn a \<notin> pn ` set (dir_pages s (dir_slots pd) @ [pd]) \<longrightarrow> mem s2 a = mem s a" using s1(4) s2(4) by simp
  moreover have "owned s2 = owned s - pn ` set (dir_pages s (dir_slots pd) @ [pd])" unfolding s2(3) s1(3) by auto
  ultimately show ?thesis using s2(2) by blast
qed

lemma concat_map_single:
  assumes "i < n" "\<And>j. j < n \<Longrightarrow> j \<noteq> i \<Longrightarrow> f j = []"
  shows "concat (map f [0..<n]) = f i"
  using assms by (induction n) (auto simp: less_Suc_eq)

lemma filter_slots_single:
  assumes "i < n" "\<And>j. j < n \<Longrightarrow> P (f j) \<longleftrightarrow> j = i"
  shows "filter P (map f [0..<n]) = [f i]"
  using assms
proof (induction n)
  case (Suc n)
  show ?case
  proof (cases "i = n")
    case True
    then have "filter P (map f [0..<n]) = []" using Suc.prems(2) by (auto simp: filter_empty_conv)
    then show ?thesis using Suc.prems(2) [of n] True by simp
  qed (use Suc in auto)
qed simp

lemma mapped_dir_pages:
  "dir_pages mapped_dir (dir_slots 0xc0101000) = [0xc0104000, 0xc0102000]" "dir_ok mapped_dir (dir_slots 0xc0101000)"
proof -
  have lt: "(of_nat j :: u32) < 1024" "(of_nat j = (k :: u32)) \<longleftrightarrow> j = unat k" if "j < 1024" for j k
    using that by (auto simp: word_less_nat_alt word_unat_eq_iff unat_of_nat)
  have pde: "mem mapped_dir (0xc0101000 + 4 * of_nat j) = (if j = 32 then 0x102007 else 0)" if "j < 768" for j
    using mapped_dir_pde [of "of_nat j"] lt [of j] that by simp
  have pte: "mem mapped_dir (0xc0102000 + 4 * of_nat j) = (if j = 72 then 0x104027 else 0)" if "j < 1024" for j
  proof -
    have e: "(0xc0102000 :: u32) + 4 * of_nat j = 0xc0102120 \<longleftrightarrow> j = 72"
      using index_eq_iff [of "0xc0102000" "0xc0102000" "of_nat j" 72] lt [OF that] by (simp add: pg_ofs_0)
    have p: "pn (0xc0102000 + 4 * of_nat j) = pn 0xc0102000" using word_add_index(2) [of "0xc0102000" "of_nat j"] lt [OF that] by (simp add: pg_ofs_0)
    have "(0xc0102000 :: u32) + 4 * of_nat j \<noteq> 0xc0101080"
    proof
      assume "(0xc0102000 :: u32) + 4 * of_nat j = 0xc0101080"
      then have "pn 0xc0101080 = pn 0xc0102000" using p by (simp only:)
      then show False by simp
    qed
    then show ?thesis using e by (simp add: mapped_dir_def)
  qed
  have g: "pde_get_pt 0x102007 = Some 0xc0102000" "pte_get_page 0x104027 = Some 0xc0104000" "(0x104027 :: u32) AND PTE_P \<noteq> 0" "(0x102007 :: u32) AND PTE_P \<noteq> 0"
    by (simp_all add: pde_get_pt_def pte_get_page_def PTE_P_def PTE_ADDR_def ptov_def PHYS_BASE_def)
  have f: "filter (\<lambda>a. mem mapped_dir a AND PTE_P \<noteq> 0) (table_slots 0xc0102000) = [0xc0102000 + 4 * of_nat 72]"
    unfolding table_slots_def by (rule filter_slots_single) (use pte g(3) in auto)
  have t: "table_pages mapped_dir (table_slots 0xc0102000) = [0xc0104000]"
    unfolding table_pages_def f using pte [of 72] g(2) by simp
  have "dir_pages mapped_dir (dir_slots 0xc0101000) = slot_pages mapped_dir (0xc0101000 + 4 * of_nat 32)"
    unfolding dir_pages_def dir_slots_def map_map comp_def by (rule concat_map_single) (use pde in \<open>auto simp: slot_pages_def\<close>)
  then show "dir_pages mapped_dir (dir_slots 0xc0101000) = [0xc0104000, 0xc0102000]"
    unfolding slot_pages_def pde [of 32, simplified] using pde [of 32] g(1,4) t by simp
  show "dir_ok mapped_dir (dir_slots 0xc0101000)"
    using pde pte g get_page_aligned [OF g(2)] by (auto simp: dir_ok_def dir_slots_def refs_ok_def table_slots_def pg_ofs_0)
qed

theorem pagedir_destroy_frees_all_witness:
  "owned mapped_dir = {0xc0101, 0xc0102, 0xc0104}
   \<and> (\<exists>s'. pagedir_destroy 0xc0101000 mapped_dir = Some s' \<and> pagedir_destroy_with free_in_use 0xc0101000 mapped_dir = Some s' \<and> owned s' = {})"
  using pagedir_destroy_frees_all [of mapped_dir "0xc0101000"] mapped_dir_owned mapped_dir_pages
  by (simp add: pg_ofs_0) (auto simp: mapped_dir_def)

end
