(* ===== verification/Bytes.thy ===== *)
theory Bytes
  imports Prelude
begin

text \<open>
  The little-endian representation of 32-bit words in memory and on disk, which the kernel uses when it
  writes a structure or an array of words as bytes.
\<close>

definition le32 :: "u32 \<Rightarrow> u8 list" where
  "le32 w = [ucast w, ucast (drop_bit 8 w), ucast (drop_bit 16 w), ucast (drop_bit 24 w)]"

definition of_le32 :: "u8 list \<Rightarrow> u32" where
  "of_le32 bs = ucast (bs ! 0) OR push_bit 8 (ucast (bs ! 1)) OR push_bit 16 (ucast (bs ! 2)) OR push_bit 24 (ucast (bs ! 3))"

lemma length_le32 [simp]: "length (le32 w) = 4"
  by (simp add: le32_def)

lemma of_le32_le32 [simp]: "of_le32 (le32 w @ bs) = w" "of_le32 (le32 w) = w"
proof -
  have "of_le32 (le32 w @ bs) = w" for bs
  proof (rule bit_word_eqI)
    fix n :: nat
    assume n: "n < LENGTH(32)"
    consider "n < 8" | "8 \<le> n \<and> n < 16" | "16 \<le> n \<and> n < 24" | "24 \<le> n" by linarith
    then show "bit (of_le32 (le32 w @ bs)) n = bit w n"
      by cases (use n in \<open>auto simp: of_le32_def le32_def bit_simps\<close>)
  qed
  from this [of bs] this [of "[]"] show "of_le32 (le32 w @ bs) = w" "of_le32 (le32 w) = w" by simp_all
qed

lemma le32_of_le32:
  assumes "length bs = 4"
  shows "le32 (of_le32 bs) = bs"
proof -
  obtain a b c d where bs: "bs = [a, b, c, d]" using assms by (auto simp: length_Suc_conv numeral_eq_Suc)
  have h: "\<not> bit x (8 + n)" "\<not> bit x (16 + n)" "\<not> bit x (24 + n)" for x :: u8 and n
    using bit_imp_le_length [of x] by fastforce+
  have "ucast (of_le32 bs) = a" "ucast (drop_bit 8 (of_le32 bs)) = b" "ucast (drop_bit 16 (of_le32 bs)) = c"
    "ucast (drop_bit 24 (of_le32 bs)) = d"
    unfolding bs of_le32_def by (auto intro!: bit_word_eqI simp: bit_simps h)
  then show ?thesis by (simp add: le32_def bs)
qed

text \<open>An array of words.\<close>

definition words_bytes :: "u32 list \<Rightarrow> u8 list" where
  "words_bytes ws = concat (map le32 ws)"

fun bytes_words :: "nat \<Rightarrow> u8 list \<Rightarrow> u32 list" where
  "bytes_words 0 bs = []"
| "bytes_words (Suc n) bs = of_le32 (take 4 bs) # bytes_words n (drop 4 bs)"

lemma length_words_bytes [simp]: "length (words_bytes ws) = 4 * length ws"
  by (induction ws) (simp_all add: words_bytes_def)

lemma length_bytes_words [simp]: "length (bytes_words n bs) = n"
  by (induction n arbitrary: bs) simp_all

lemma bytes_words_words_bytes [simp]: "bytes_words (length ws) (words_bytes ws @ bs) = ws"
  by (induction ws) (simp_all add: words_bytes_def)

end
