(* ===== verification/Block.thy ===== *)
theory Block
  imports Bytes
begin

text \<open>
  Block devices, \<open>devices/block.c\<close>.  A driver is represented by the medium it reads and writes, a
  function from sector numbers to their bytes; the registry of devices and roles is a record.
\<close>

section \<open>Devices\<close>

datatype block_type = BLOCK_KERNEL | BLOCK_FILESYS | BLOCK_SCRATCH | BLOCK_SWAP | BLOCK_RAW | BLOCK_FOREIGN

definition BLOCK_SECTOR_SIZE :: int where "BLOCK_SECTOR_SIZE = 512"

record block =
  blk_name :: "u8 list"
  blk_type :: block_type
  blk_size :: u32
  blk_data :: "u32 \<Rightarrow> u8 list"
  read_cnt :: u64
  write_cnt :: u64

definition check_sector :: "block \<Rightarrow> u32 \<Rightarrow> unit option" where
  "check_sector b sector = kassert (sector < blk_size b)"

definition block_read :: "block \<Rightarrow> u32 \<Rightarrow> (u8 list \<times> block) option" where
  "block_read b sector = do {
     check_sector b sector;
     Some (blk_data b sector, b\<lparr>read_cnt := read_cnt b + 1\<rparr>) }"

definition block_write :: "block \<Rightarrow> u32 \<Rightarrow> u8 list \<Rightarrow> block option" where
  "block_write b sector buffer = do {
     check_sector b sector;
     kassert (blk_type b \<noteq> BLOCK_FOREIGN);
     Some (b\<lparr>blk_data := (blk_data b)(sector := buffer), write_cnt := write_cnt b + 1\<rparr>) }"

definition block_size :: "block \<Rightarrow> u32" where "block_size b = blk_size b"
definition block_name :: "block \<Rightarrow> u8 list" where "block_name b = blk_name b"
definition block_type_of :: "block \<Rightarrow> block_type" where "block_type_of b = blk_type b"

definition block_type_name :: "block_type \<Rightarrow> string" where
  "block_type_name t = (case t of BLOCK_KERNEL \<Rightarrow> ''kernel'' | BLOCK_FILESYS \<Rightarrow> ''filesys'' | BLOCK_SCRATCH \<Rightarrow> ''scratch''
     | BLOCK_SWAP \<Rightarrow> ''swap'' | BLOCK_RAW \<Rightarrow> ''raw'' | BLOCK_FOREIGN \<Rightarrow> ''foreign'')"

section \<open>The registry\<close>

record blocks =
  blk :: "ptr \<Rightarrow> block option"
  all_blocks :: "ptr list"
  block_by_role :: "block_type \<Rightarrow> ptr"

fun is_role :: "block_type \<Rightarrow> bool" where
  "is_role BLOCK_RAW = False"
| "is_role BLOCK_FOREIGN = False"
| "is_role _ = True"

definition block_get_role :: "block_type \<Rightarrow> blocks \<Rightarrow> ptr option" where
  "block_get_role r s = do { kassert (is_role r); Some (block_by_role s r) }"

definition block_set_role :: "block_type \<Rightarrow> ptr \<Rightarrow> blocks \<Rightarrow> blocks option" where
  "block_set_role r p s = do { kassert (is_role r); Some (s\<lparr>block_by_role := (block_by_role s)(r := p)\<rparr>) }"

text \<open>The first element of a list, or the null pointer at its end (\<open>list_elem_to_block\<close>).\<close>

definition list_elem_to_block :: "ptr list \<Rightarrow> ptr" where
  "list_elem_to_block ps = (case ps of [] \<Rightarrow> NULL | p # _ \<Rightarrow> p)"

definition block_first :: "blocks \<Rightarrow> ptr" where
  "block_first s = list_elem_to_block (all_blocks s)"

definition block_next :: "ptr \<Rightarrow> blocks \<Rightarrow> ptr" where
  "block_next p s = list_elem_to_block (tl (dropWhile (\<lambda>q. q \<noteq> p) (all_blocks s)))"

fun find_by_name :: "u8 list \<Rightarrow> ptr list \<Rightarrow> blocks \<Rightarrow> ptr" where
  "find_by_name name [] s = NULL"
| "find_by_name name (p # ps) s =
     (if map_option blk_name (blk s p) = Some name then p else find_by_name name ps s)"

definition block_get_by_name :: "u8 list \<Rightarrow> blocks \<Rightarrow> ptr" where
  "block_get_by_name name s = find_by_name name (all_blocks s) s"

text \<open>\<open>p\<close> is what \<open>malloc\<close> returns, \<open>medium\<close> what is behind the driver's operations.\<close>

definition block_register :: "ptr \<Rightarrow> u8 list \<Rightarrow> block_type \<Rightarrow> u32 \<Rightarrow> (u32 \<Rightarrow> u8 list) \<Rightarrow> blocks \<Rightarrow> (ptr \<times> blocks) option" where
  "block_register p name type sz medium s = do {
     kassert (p \<noteq> NULL);
     Some (p, s\<lparr>all_blocks := all_blocks s @ [p],
       blk := (blk s)(p \<mapsto> \<lparr>blk_name = take 15 name, blk_type = type, blk_size = sz, blk_data = medium,
         read_cnt = 0, write_cnt = 0\<rparr>)\<rparr>) }"

section \<open>Reading and writing\<close>

text \<open>Every sector of a device holds 512 bytes.\<close>

definition dev_ok :: "block \<Rightarrow> bool" where
  "dev_ok b \<longleftrightarrow> blk_type b \<noteq> BLOCK_FOREIGN \<and> (\<forall>n < blk_size b. length (blk_data b n) = 512)"

lemma block_read_ok: "n < blk_size b \<Longrightarrow> block_read b n = Some (blk_data b n, b\<lparr>read_cnt := read_cnt b + 1\<rparr>)"
  by (simp add: block_read_def check_sector_def)

lemma block_write_ok: "n < blk_size b \<Longrightarrow> dev_ok b \<Longrightarrow>
    block_write b n v = Some (b\<lparr>blk_data := (blk_data b)(n := v), write_cnt := write_cnt b + 1\<rparr>)"
  by (simp add: block_write_def check_sector_def dev_ok_def)

lemma dev_ok_count [simp]: "dev_ok (b\<lparr>read_cnt := k\<rparr>) = dev_ok b" "dev_ok (b\<lparr>write_cnt := k\<rparr>) = dev_ok b"
  by (simp_all add: dev_ok_def)

lemma dev_ok_write: "dev_ok b \<Longrightarrow> length v = 512 \<Longrightarrow> dev_ok (b\<lparr>blk_data := (blk_data b)(n := v)\<rparr>)"
  by (simp add: dev_ok_def)

lemma block_get_by_name_register:
  assumes "blk s p = None" "p \<notin> set (all_blocks s)" "block_get_by_name (take 15 name) s = NULL" "NULL \<notin> set (all_blocks s)"
    "block_register p name t sz m s = Some (q, s')"
  shows "block_get_by_name (take 15 name) s' = p \<and> block_next p s' = NULL"
proof -
  have s': "s' = s\<lparr>all_blocks := all_blocks s @ [p], blk := (blk s)(p \<mapsto> \<lparr>blk_name = take 15 name, blk_type = t, blk_size = sz,
      blk_data = m, read_cnt = 0, write_cnt = 0\<rparr>)\<rparr>" using assms(5) by (auto simp: block_register_def ret_simps)
  have skip: "find_by_name (take 15 name) ps s = NULL \<Longrightarrow> p \<notin> set ps \<Longrightarrow> NULL \<notin> set ps \<Longrightarrow>
    find_by_name (take 15 name) (ps @ [p]) s' = p" for ps
    by (induction ps) (auto simp: s' split: if_splits)
  have "dropWhile (\<lambda>q. q \<noteq> p) (all_blocks s @ [p]) = [p]" using assms(2) by (subst dropWhile_append2) auto
  then show ?thesis using skip assms(2-4) by (simp add: block_get_by_name_def block_next_def list_elem_to_block_def s')
qed

end
