(* ===== verification/Inode.thy ===== *)
theory Inode
  imports Block Bitmap_Alloc "HOL-Library.Signed_Division"
begin

text \<open>
  Inodes and open files: \<open>filesys/inode.c\<close>, \<open>filesys/file.c\<close> and \<open>filesys/free-map.c\<close>.  The state of
  the file system is one record: the device, the objects on the heap (in-memory inodes, files and
  directories, by address), the list of open inodes and the free map.  Memory is allocated from a
  counter, and the field \<open>heap_ok\<close> says which requests succeed, so that every failure of \<open>malloc\<close>
  is a run of the model.  Offsets and lengths are \<open>off_t\<close> values, signed 32-bit integers.
\<close>

section \<open>State\<close>

type_synonym off_t = int

definition INODE_MAGIC :: u32 where "INODE_MAGIC = 0x494e4f44"
definition FREE_MAP_SECTOR :: u32 where "FREE_MAP_SECTOR = 0"
definition ROOT_DIR_SECTOR :: u32 where "ROOT_DIR_SECTOR = 1"

record inode_disk =
  d_start :: u32
  d_length :: off_t
  d_magic :: u32
  d_unused :: "u32 list"

record inode =
  i_sector :: u32
  open_cnt :: int
  removed :: bool
  deny_write_cnt :: int
  i_data :: inode_disk

record open_file =
  f_inode :: ptr
  f_pos :: off_t
  f_deny_write :: bool

record dir =
  dir_inode :: ptr
  dir_pos :: off_t

record fs =
  dev :: block
  inodes :: "ptr \<Rightarrow> inode option"
  files :: "ptr \<Rightarrow> open_file option"
  dirs :: "ptr \<Rightarrow> dir option"
  open_inodes :: "ptr list"
  free_map :: bitmap
  free_map_file :: ptr
  heap_ok :: "nat \<Rightarrow> bool"
  heap_next :: nat

definition malloc :: "fs \<Rightarrow> ptr \<times> fs" where
  "malloc s = (if heap_ok s (heap_next s) then Suc (heap_next s) else NULL, s\<lparr>heap_next := Suc (heap_next s)\<rparr>)"

text \<open>The bytes of an inode on disk.\<close>

definition inode_disk_bytes :: "inode_disk \<Rightarrow> u8 list" where
  "inode_disk_bytes d = le32 (d_start d) @ le32 (word_of_int (d_length d)) @ le32 (d_magic d) @ words_bytes (d_unused d)"

definition bytes_inode_disk :: "u8 list \<Rightarrow> inode_disk" where
  "bytes_inode_disk bs = \<lparr>d_start = of_le32 bs, d_length = sint (of_le32 (drop 4 bs)), d_magic = of_le32 (drop 8 bs),
     d_unused = bytes_words 125 (drop 12 bs)\<rparr>"

text \<open>\<open>DIV_ROUND_UP\<close> is computed in \<open>int\<close> and converted to \<open>size_t\<close>.\<close>

definition bytes_to_sectors :: "off_t \<Rightarrow> u32" where
  "bytes_to_sectors n = word_of_int (sint (word_of_int (n + BLOCK_SECTOR_SIZE - 1) :: u32) sdiv BLOCK_SECTOR_SIZE)"

definition byte_to_sector :: "inode \<Rightarrow> off_t \<Rightarrow> u32" where
  "byte_to_sector i pos = (if pos < d_length (i_data i) then d_start (i_data i) + word_of_int (pos sdiv BLOCK_SECTOR_SIZE) else -1)"

definition inode_length :: "inode \<Rightarrow> off_t" where
  "inode_length i = d_length (i_data i)"

definition inode_get_inumber :: "inode \<Rightarrow> u32" where
  "inode_get_inumber i = i_sector i"

section \<open>Reading and writing\<close>

definition chunk_size :: "inode \<Rightarrow> off_t \<Rightarrow> off_t \<Rightarrow> off_t" where
  "chunk_size i sz offset = (let inode_left = inode_length i - offset; sector_left = BLOCK_SECTOR_SIZE - offset smod BLOCK_SECTOR_SIZE;
     min_left = (if inode_left < sector_left then inode_left else sector_left) in if sz < min_left then sz else min_left)"

definition need_bounce :: "bool \<Rightarrow> fs \<Rightarrow> bool \<times> fs" where
  "need_bounce bounce s = (if bounce then (True, s) else let (p, s) = malloc s in (p \<noteq> NULL, s))"

text \<open>
  The loop of \<open>inode_read_at\<close>: \<open>bounce\<close> says whether the bounce buffer has been allocated, \<open>acc\<close> is
  what has been stored in the caller's buffer.
\<close>

function inode_read_loop :: "inode \<Rightarrow> off_t \<Rightarrow> off_t \<Rightarrow> bool \<Rightarrow> u8 list \<Rightarrow> fs \<Rightarrow> (u8 list \<times> fs) option" where
  "inode_read_loop i sz offset bounce acc s =
     (if sz > 0 then
        let sector_idx = byte_to_sector i offset; sector_ofs = offset smod BLOCK_SECTOR_SIZE; chunk = chunk_size i sz offset in
        if chunk \<le> 0 then Some (acc, s)
        else if sector_ofs = 0 \<and> chunk = BLOCK_SECTOR_SIZE then do {
          (b, d) \<leftarrow> block_read (dev s) sector_idx;
          inode_read_loop i (sz - chunk) (offset + chunk) bounce (acc @ b) (s\<lparr>dev := d\<rparr>) }
        else let (ok, s) = need_bounce bounce s in
          if \<not> ok then Some (acc, s)
          else do {
            (b, d) \<leftarrow> block_read (dev s) sector_idx;
            kassert (0 \<le> sector_ofs);
            inode_read_loop i (sz - chunk) (offset + chunk) True (acc @ take (nat chunk) (drop (nat sector_ofs) b)) (s\<lparr>dev := d\<rparr>) }
      else Some (acc, s))"
  by pat_completeness auto
termination
  by (relation "measure (\<lambda>(i, sz, offset, bounce, acc, s). nat sz)") auto

definition inode_read_at :: "ptr \<Rightarrow> off_t \<Rightarrow> off_t \<Rightarrow> fs \<Rightarrow> (u8 list \<times> fs) option" where
  "inode_read_at p sz offset s =
     (if sz > 0 then do { i \<leftarrow> inodes s p; inode_read_loop i sz offset False [] s } else Some ([], s))"

text \<open>The loop of \<open>inode_write_at\<close>: \<open>buf\<close> is the rest of the caller's buffer, \<open>n\<close> the bytes written.\<close>

function inode_write_loop :: "inode \<Rightarrow> u8 list \<Rightarrow> off_t \<Rightarrow> off_t \<Rightarrow> bool \<Rightarrow> off_t \<Rightarrow> fs \<Rightarrow> (off_t \<times> fs) option" where
  "inode_write_loop i buf sz offset bounce n s =
     (if sz > 0 then
        let sector_idx = byte_to_sector i offset; sector_ofs = offset smod BLOCK_SECTOR_SIZE; chunk = chunk_size i sz offset;
            sector_left = BLOCK_SECTOR_SIZE - sector_ofs in
        if chunk \<le> 0 then Some (n, s)
        else if length buf < nat chunk then None
        else if sector_ofs = 0 \<and> chunk = BLOCK_SECTOR_SIZE then do {
          d \<leftarrow> block_write (dev s) sector_idx (take (nat chunk) buf);
          inode_write_loop i (drop (nat chunk) buf) (sz - chunk) (offset + chunk) bounce (n + chunk) (s\<lparr>dev := d\<rparr>) }
        else let (ok, s) = need_bounce bounce s in
          if \<not> ok then Some (n, s)
          else do {
            (b, d) \<leftarrow> (if sector_ofs > 0 \<or> chunk < sector_left then block_read (dev s) sector_idx
                          else Some (replicate (nat BLOCK_SECTOR_SIZE) 0, dev s));
            kassert (0 \<le> sector_ofs);
            d \<leftarrow> block_write d sector_idx (take (nat sector_ofs) b @ take (nat chunk) buf @ drop (nat (sector_ofs + chunk)) b);
            inode_write_loop i (drop (nat chunk) buf) (sz - chunk) (offset + chunk) True (n + chunk) (s\<lparr>dev := d\<rparr>) }
      else Some (n, s))"
  by pat_completeness auto
termination
  by (relation "measure (\<lambda>(i, buf, sz, offset, bounce, n, s). nat sz)") auto

definition inode_write_at :: "ptr \<Rightarrow> u8 list \<Rightarrow> off_t \<Rightarrow> off_t \<Rightarrow> fs \<Rightarrow> (off_t \<times> fs) option" where
  "inode_write_at p buf sz offset s = do {
     i \<leftarrow> inodes s p;
     if deny_write_cnt i \<noteq> 0 then Some (0, s) else inode_write_loop i buf sz offset False 0 s }"

declare inode_read_loop.simps [simp del] inode_write_loop.simps [simp del]

section \<open>Open files\<close>

definition file_read_at :: "ptr \<Rightarrow> off_t \<Rightarrow> off_t \<Rightarrow> fs \<Rightarrow> (u8 list \<times> fs) option" where
  "file_read_at p sz ofs s = do { f \<leftarrow> files s p; inode_read_at (f_inode f) sz ofs s }"

definition file_write_at :: "ptr \<Rightarrow> u8 list \<Rightarrow> off_t \<Rightarrow> off_t \<Rightarrow> fs \<Rightarrow> (off_t \<times> fs) option" where
  "file_write_at p buf sz ofs s = do { f \<leftarrow> files s p; inode_write_at (f_inode f) buf sz ofs s }"

definition file_read :: "ptr \<Rightarrow> off_t \<Rightarrow> fs \<Rightarrow> (u8 list \<times> fs) option" where
  "file_read p sz s = do {
     f \<leftarrow> files s p;
     (bs, s) \<leftarrow> inode_read_at (f_inode f) sz (f_pos f) s;
     Some (bs, s\<lparr>files := (files s)(p \<mapsto> f\<lparr>f_pos := f_pos f + int (length bs)\<rparr>)\<rparr>) }"

definition file_write :: "ptr \<Rightarrow> u8 list \<Rightarrow> off_t \<Rightarrow> fs \<Rightarrow> (off_t \<times> fs) option" where
  "file_write p buf sz s = do {
     f \<leftarrow> files s p;
     (n, s) \<leftarrow> inode_write_at (f_inode f) buf sz (f_pos f) s;
     Some (n, s\<lparr>files := (files s)(p \<mapsto> f\<lparr>f_pos := f_pos f + n\<rparr>)\<rparr>) }"

definition file_get_inode :: "ptr \<Rightarrow> fs \<Rightarrow> ptr option" where
  "file_get_inode p s = map_option f_inode (files s p)"

definition file_length :: "ptr \<Rightarrow> fs \<Rightarrow> off_t option" where
  "file_length p s = do { kassert (p \<noteq> NULL); f \<leftarrow> files s p; i \<leftarrow> inodes s (f_inode f); Some (inode_length i) }"

definition file_seek :: "ptr \<Rightarrow> off_t \<Rightarrow> fs \<Rightarrow> fs option" where
  "file_seek p new_pos s = do {
     kassert (p \<noteq> NULL);
     kassert (new_pos \<ge> 0);
     f \<leftarrow> files s p;
     Some (s\<lparr>files := (files s)(p \<mapsto> f\<lparr>f_pos := new_pos\<rparr>)\<rparr>) }"

definition file_tell :: "ptr \<Rightarrow> fs \<Rightarrow> off_t option" where
  "file_tell p s = do { kassert (p \<noteq> NULL); f \<leftarrow> files s p; Some (f_pos f) }"

section \<open>The free map\<close>

definition bitmap_write :: "bitmap \<Rightarrow> ptr \<Rightarrow> fs \<Rightarrow> (bool \<times> fs) option" where
  "bitmap_write b p s = do {
     let sz = sint (byte_cnt (bit_cnt b));
     (n, s) \<leftarrow> file_write_at p (words_bytes (bits b)) sz 0 s;
     Some (n = sz, s) }"

definition bitmap_read :: "bitmap \<Rightarrow> ptr \<Rightarrow> fs \<Rightarrow> (bool \<times> bitmap \<times> fs) option" where
  "bitmap_read b p s =
     (if bit_cnt b > 0 then do {
        let sz = sint (byte_cnt (bit_cnt b));
        (bs, s) \<leftarrow> file_read_at p sz 0 s;
        let ws = bytes_words (length (bits b)) (bs @ drop (length bs) (words_bytes (bits b)));
        let k = unat (elem_cnt (bit_cnt b) - 1);
        Some (int (length bs) = sz, b\<lparr>bits := ws[k := ws ! k AND last_mask b]\<rparr>, s) }
      else Some (True, b, s))"

definition free_map_allocate :: "u32 \<Rightarrow> fs \<Rightarrow> (u32 option \<times> fs) option" where
  "free_map_allocate cnt s = do {
     (sector, b) \<leftarrow> bitmap_scan_and_flip (free_map s) 0 cnt False;
     let s = s\<lparr>free_map := b\<rparr>;
     (sector, s) \<leftarrow>
       (if sector \<noteq> BITMAP_ERROR \<and> free_map_file s \<noteq> NULL then do {
          (ok, s) \<leftarrow> bitmap_write (free_map s) (free_map_file s) s;
          if \<not> ok then do {
            b \<leftarrow> bitmap_set_multiple (free_map s) sector cnt False;
            Some (BITMAP_ERROR, s\<lparr>free_map := b\<rparr>) }
          else Some (sector, s) }
        else Some (sector, s));
     Some (if sector \<noteq> BITMAP_ERROR then Some sector else None, s) }"

definition free_map_release :: "u32 \<Rightarrow> u32 \<Rightarrow> fs \<Rightarrow> fs option" where
  "free_map_release sector cnt s = do {
     all_used \<leftarrow> bitmap_all (free_map s) sector cnt;
     kassert all_used;
     b \<leftarrow> bitmap_set_multiple (free_map s) sector cnt False;
     (_, s) \<leftarrow> bitmap_write b (free_map_file s) (s\<lparr>free_map := b\<rparr>);
     Some s }"

text \<open>\<open>junk\<close> is what the memory of the new bitmap contains.\<close>

definition free_map_init :: "u32 list \<Rightarrow> fs \<Rightarrow> fs option" where
  "free_map_init junk s = do {
     let (p, s) = malloc s;
     let (q, s) = (if p \<noteq> NULL then malloc s else (NULL, s));
     b \<leftarrow> bitmap_create (p \<noteq> NULL) (q \<noteq> NULL) junk (block_size (dev s));
     b \<leftarrow> b;
     b \<leftarrow> bitmap_mark b FREE_MAP_SECTOR;
     b \<leftarrow> bitmap_mark b ROOT_DIR_SECTOR;
     Some (s\<lparr>free_map := b\<rparr>) }"

section \<open>Opening and closing\<close>

definition inode_init :: "fs \<Rightarrow> fs" where
  "inode_init s = s\<lparr>open_inodes := []\<rparr>"

definition inode_reopen :: "ptr \<Rightarrow> fs \<Rightarrow> (ptr \<times> fs) option" where
  "inode_reopen p s = (if p = NULL then Some (p, s)
     else do { i \<leftarrow> inodes s p; Some (p, s\<lparr>inodes := (inodes s)(p \<mapsto> i\<lparr>open_cnt := open_cnt i + 1\<rparr>)\<rparr>) })"

text \<open>The loop over the open inodes: null when none is for the sector.\<close>

fun find_open :: "u32 \<Rightarrow> ptr list \<Rightarrow> fs \<Rightarrow> ptr option" where
  "find_open sector [] s = Some NULL"
| "find_open sector (p # ps) s = do {
     i \<leftarrow> inodes s p;
     if i_sector i = sector then Some p else find_open sector ps s }"

definition inode_open :: "u32 \<Rightarrow> fs \<Rightarrow> (ptr \<times> fs) option" where
  "inode_open sector s = do {
     p \<leftarrow> find_open sector (open_inodes s) s;
     if p \<noteq> NULL then inode_reopen p s
     else do {
       let (p, s) = malloc s;
       if p = NULL then Some (NULL, s)
       else do {
         (b, d) \<leftarrow> block_read (dev s) sector;
         Some (p, s\<lparr>dev := d, open_inodes := p # open_inodes s,
           inodes := (inodes s)(p \<mapsto> \<lparr>i_sector = sector, open_cnt = 1, removed = False, deny_write_cnt = 0,
             i_data = bytes_inode_disk b\<rparr>)\<rparr>) } } }"

definition inode_close :: "ptr \<Rightarrow> fs \<Rightarrow> fs option" where
  "inode_close p s =
     (if p = NULL then Some s
      else do {
        i \<leftarrow> inodes s p;
        let i = i\<lparr>open_cnt := open_cnt i - 1\<rparr>;
        let s = s\<lparr>inodes := (inodes s)(p \<mapsto> i)\<rparr>;
        if open_cnt i = 0 then do {
          let s = s\<lparr>open_inodes := remove1 p (open_inodes s)\<rparr>;
          s \<leftarrow> (if removed i then do {
                  s \<leftarrow> free_map_release (i_sector i) 1 s;
                  free_map_release (d_start (i_data i)) (bytes_to_sectors (d_length (i_data i))) s }
                else Some s);
          Some (s\<lparr>inodes := (inodes s)(p := None)\<rparr>) }
        else Some s })"

definition inode_remove :: "ptr \<Rightarrow> fs \<Rightarrow> fs option" where
  "inode_remove p s = do {
     kassert (p \<noteq> NULL);
     i \<leftarrow> inodes s p;
     Some (s\<lparr>inodes := (inodes s)(p \<mapsto> i\<lparr>removed := True\<rparr>)\<rparr>) }"

definition inode_deny_write :: "ptr \<Rightarrow> fs \<Rightarrow> fs option" where
  "inode_deny_write p s = do {
     i \<leftarrow> inodes s p;
     let i = i\<lparr>deny_write_cnt := deny_write_cnt i + 1\<rparr>;
     kassert (deny_write_cnt i \<le> open_cnt i);
     Some (s\<lparr>inodes := (inodes s)(p \<mapsto> i)\<rparr>) }"

definition inode_allow_write :: "ptr \<Rightarrow> fs \<Rightarrow> fs option" where
  "inode_allow_write p s = do {
     i \<leftarrow> inodes s p;
     kassert (deny_write_cnt i > 0);
     kassert (deny_write_cnt i \<le> open_cnt i);
     Some (s\<lparr>inodes := (inodes s)(p \<mapsto> i\<lparr>deny_write_cnt := deny_write_cnt i - 1\<rparr>)\<rparr>) }"

text \<open>Zero the sectors of a new file.\<close>

fun write_zeros :: "u32 \<Rightarrow> nat \<Rightarrow> fs \<Rightarrow> fs option" where
  "write_zeros sector 0 s = Some s"
| "write_zeros sector (Suc n) s = do {
     d \<leftarrow> block_write (dev s) sector (replicate (nat BLOCK_SECTOR_SIZE) 0);
     write_zeros (sector + 1) n (s\<lparr>dev := d\<rparr>) }"

definition inode_create :: "u32 \<Rightarrow> off_t \<Rightarrow> fs \<Rightarrow> (bool \<times> fs) option" where
  "inode_create sector len s = do {
     kassert (len \<ge> 0);
     let (p, s) = malloc s;
     if p \<noteq> NULL then do {
       let sectors = bytes_to_sectors len;
       (start, s) \<leftarrow> free_map_allocate sectors s;
       (case start of
          None \<Rightarrow> Some (False, s)
        | Some start \<Rightarrow> do {
            d \<leftarrow> block_write (dev s) sector (inode_disk_bytes \<lparr>d_start = start, d_length = len, d_magic = INODE_MAGIC,
                   d_unused = replicate 125 0\<rparr>);
            s \<leftarrow> write_zeros start (unat sectors) (s\<lparr>dev := d\<rparr>);
            Some (True, s) }) }
     else Some (False, s) }"

definition file_open :: "ptr \<Rightarrow> fs \<Rightarrow> (ptr \<times> fs) option" where
  "file_open ip s = (case malloc s of (p, s) \<Rightarrow>
     if ip \<noteq> NULL \<and> p \<noteq> NULL
     then Some (p, s\<lparr>files := (files s)(p \<mapsto> \<lparr>f_inode = ip, f_pos = 0, f_deny_write = False\<rparr>)\<rparr>)
     else do { s \<leftarrow> inode_close ip s; Some (NULL, s) })"

definition file_reopen :: "ptr \<Rightarrow> fs \<Rightarrow> (ptr \<times> fs) option" where
  "file_reopen p s = do { f \<leftarrow> files s p; (ip, s) \<leftarrow> inode_reopen (f_inode f) s; file_open ip s }"

definition file_deny_write :: "ptr \<Rightarrow> fs \<Rightarrow> fs option" where
  "file_deny_write p s = do {
     kassert (p \<noteq> NULL);
     f \<leftarrow> files s p;
     if f_deny_write f then Some s
     else inode_deny_write (f_inode f) (s\<lparr>files := (files s)(p \<mapsto> f\<lparr>f_deny_write := True\<rparr>)\<rparr>) }"

definition file_allow_write :: "ptr \<Rightarrow> fs \<Rightarrow> fs option" where
  "file_allow_write p s = do {
     kassert (p \<noteq> NULL);
     f \<leftarrow> files s p;
     if f_deny_write f then inode_allow_write (f_inode f) (s\<lparr>files := (files s)(p \<mapsto> f\<lparr>f_deny_write := False\<rparr>)\<rparr>)
     else Some s }"

definition file_close :: "ptr \<Rightarrow> fs \<Rightarrow> fs option" where
  "file_close p s = (if p = NULL then Some s
     else do {
       s \<leftarrow> file_allow_write p s;
       f \<leftarrow> files s p;
       s \<leftarrow> inode_close (f_inode f) s;
       Some (s\<lparr>files := (files s)(p := None)\<rparr>) })"

definition free_map_open :: "fs \<Rightarrow> fs option" where
  "free_map_open s = do {
     (ip, s) \<leftarrow> inode_open FREE_MAP_SECTOR s;
     (p, s) \<leftarrow> file_open ip s;
     kassert (p \<noteq> NULL);
     (ok, b, s) \<leftarrow> bitmap_read (free_map s) p (s\<lparr>free_map_file := p\<rparr>);
     kassert ok;
     Some (s\<lparr>free_map := b\<rparr>) }"

definition free_map_close :: "fs \<Rightarrow> fs option" where
  "free_map_close s = file_close (free_map_file s) s"

definition free_map_create :: "fs \<Rightarrow> fs option" where
  "free_map_create s = do {
     (ok, s) \<leftarrow> inode_create FREE_MAP_SECTOR (sint (bitmap_file_size (free_map s))) s;
     kassert ok;
     (ip, s) \<leftarrow> inode_open FREE_MAP_SECTOR s;
     (p, s) \<leftarrow> file_open ip s;
     kassert (p \<noteq> NULL);
     (ok, s) \<leftarrow> bitmap_write (free_map s) p (s\<lparr>free_map_file := p\<rparr>);
     kassert ok;
     Some s }"

end
