(* ===== verification/Inode_Data.thy ===== *)
theory Inode_Data
  imports Inode
begin

text \<open>
  What reading and writing through an inode do.  The data of a file is the sequence of bytes of its
  sectors, cut at its length; \<open>inode_read_at\<close> returns a piece of it and \<open>inode_write_at\<close> replaces a
  piece of it and nothing else on the device.
\<close>

section \<open>The bytes of a file\<close>

definition file_len :: "inode \<Rightarrow> nat" where
  "file_len i = nat (inode_length i)"

definition sector_cnt :: "inode \<Rightarrow> nat" where
  "sector_cnt i = (file_len i + 511) div 512"

definition sector_of :: "inode \<Rightarrow> nat \<Rightarrow> u32" where
  "sector_of i k = d_start (i_data i) + of_nat (k div 512)"

definition byte_at :: "block \<Rightarrow> inode \<Rightarrow> nat \<Rightarrow> u8" where
  "byte_at d i k = blk_data d (sector_of i k) ! (k mod 512)"

definition contents :: "block \<Rightarrow> inode \<Rightarrow> u8 list" where
  "contents d i = map (byte_at d i) [0..<file_len i]"

definition data_sectors :: "inode \<Rightarrow> nat set" where
  "data_sectors i = {unat (d_start (i_data i))..<unat (d_start (i_data i)) + sector_cnt i}"

definition inode_ok :: "block \<Rightarrow> inode \<Rightarrow> bool" where
  "inode_ok d i \<longleftrightarrow> 0 \<le> inode_length i \<and> unat (d_start (i_data i)) + sector_cnt i \<le> unat (blk_size d)"

lemma length_contents [simp]: "length (contents d i) = file_len i"
  by (simp add: contents_def)

lemma sdiv_smod_nat: "int k sdiv 512 = int (k div 512)" "int k smod 512 = int (k mod 512)"
proof -
  show "int k sdiv 512 = int (k div 512)" by (cases "k = 0") (simp_all add: signed_divide_int_def zdiv_int)
  show "int k smod 512 = int (k mod 512)" by (cases "k = 0") (simp_all add: signed_modulo_int_def zmod_int)
qed

lemma in_sector:
  assumes "k mod 512 + j < (512 :: nat)"
  shows "(k + j) div 512 = k div 512" "(k + j) mod 512 = k mod 512 + j"
proof -
  have e: "k + j = 512 * (k div 512) + (k mod 512 + j)" by simp
  show "(k + j) div 512 = k div 512" by (subst e, subst div_mult_self4) (use assms in simp_all)
  show "(k + j) mod 512 = k mod 512 + j" by (subst e, subst mod_mult_self4) (use assms in simp_all)
qed

lemma sector_of_unat:
  assumes "inode_ok d i" "k < file_len i \<or> k div 512 < sector_cnt i"
  shows "unat (sector_of i k) = unat (d_start (i_data i)) + k div 512" "sector_of i k < blk_size d"
proof -
  have k: "k div 512 < sector_cnt i" using assms(2)
  proof
    assume "k < file_len i"
    then have "k div 512 \<le> (file_len i - 1) div 512" by (intro div_le_mono) simp
    moreover have "(file_len i - 1) div 512 < sector_cnt i" using \<open>k < file_len i\<close> unfolding sector_cnt_def by linarith
    ultimately show ?thesis by simp
  qed
  have b: "unat (d_start (i_data i)) + k div 512 < unat (blk_size d)" using assms(1) k by (simp add: inode_ok_def)
  then have lt: "unat (d_start (i_data i)) + k div 512 < 2 ^ 32" using unat_lt2p [of "blk_size d"] by simp
  then have o: "unat (of_nat (k div 512) :: u32) = k div 512" by (subst unat_of_nat) simp
  show u: "unat (sector_of i k) = unat (d_start (i_data i)) + k div 512"
    unfolding sector_of_def using lt o by (subst unat_add_lem [THEN iffD1]) simp_all
  show "sector_of i k < blk_size d" using u b by (simp add: word_less_nat_alt)
qed

lemma byte_at_slice:
  assumes "k mod 512 + c \<le> 512" "length (blk_data d (sector_of i k)) = 512"
  shows "take c (drop (k mod 512) (blk_data d (sector_of i k))) = map (byte_at d i) [k..<k + c]"
proof (rule nth_equalityI)
  fix j
  assume "j < length (take c (drop (k mod 512) (blk_data d (sector_of i k))))"
  then have j: "j < c" "k mod 512 + j < 512" using assms by simp_all
  then show "take c (drop (k mod 512) (blk_data d (sector_of i k))) ! j = map (byte_at d i) [k..<k + c] ! j"
    using j assms in_sector [OF j(2)] by (simp add: byte_at_def sector_of_def)
qed (use assms in simp)

lemma chunk_size_nat:
  assumes "0 \<le> inode_length i"
  shows "chunk_size i (int n) (int k) \<le> 0 \<longleftrightarrow> n = 0 \<or> file_len i \<le> k"
    "0 < n \<Longrightarrow> k < file_len i \<Longrightarrow> chunk_size i (int n) (int k) = int (min n (min (file_len i - k) (512 - k mod 512)))"
proof -
  have m: "int (k mod 512) < 512" by simp
  obtain l where l: "inode_length i = int l" using assms nonneg_int_cases by blast
  have c: "chunk_size i (int n) (int k) = min (int n) (min (int l - int k) (512 - int (k mod 512)))"
    by (simp add: chunk_size_def BLOCK_SECTOR_SIZE_def sdiv_smod_nat l min_def Let_def)
  show "chunk_size i (int n) (int k) \<le> 0 \<longleftrightarrow> n = 0 \<or> file_len i \<le> k" using m by (auto simp: c file_len_def l min_le_iff_disj)
  assume "0 < n" "k < file_len i"
  then show "chunk_size i (int n) (int k) = int (min n (min (file_len i - k) (512 - k mod 512)))"
    by (simp add: c file_len_def l of_nat_min of_nat_diff less_imp_le)
qed

lemma byte_to_sector_nat:
  "k < file_len i \<Longrightarrow> byte_to_sector i (int k) = sector_of i k"
  by (simp add: byte_to_sector_def file_len_def inode_length_def sector_of_def BLOCK_SECTOR_SIZE_def sdiv_smod_nat zless_nat_eq_int_zless)

section \<open>Reading\<close>

definition full_len :: "nat \<Rightarrow> nat \<Rightarrow> inode \<Rightarrow> nat" where
  "full_len n k i = min n (file_len i - k)"

definition chunk_len :: "nat \<Rightarrow> nat \<Rightarrow> inode \<Rightarrow> nat" where
  "chunk_len n k i = min n (min (file_len i - k) (512 - k mod 512))"

lemma chunk_len_bounds:
  assumes "0 < n" "k < file_len i"
  shows "0 < chunk_len n k i" "chunk_len n k i \<le> n" "k mod 512 + chunk_len n k i \<le> 512"
    "k + chunk_len n k i \<le> file_len i" "full_len n k i = chunk_len n k i + full_len (n - chunk_len n k i) (k + chunk_len n k i) i"
proof -
  have m: "k mod 512 < 512" by simp
  show "0 < chunk_len n k i" "chunk_len n k i \<le> n" "k mod 512 + chunk_len n k i \<le> 512" "k + chunk_len n k i \<le> file_len i"
    using assms m unfolding chunk_len_def by linarith+
  then show "full_len n k i = chunk_len n k i + full_len (n - chunk_len n k i) (k + chunk_len n k i) i"
    using assms unfolding full_len_def by linarith
qed

text \<open>One turn of each loop, in terms of natural numbers.\<close>

lemma inode_read_step:
  assumes "0 \<le> inode_length i"
  shows "inode_read_loop i (int n) (int k) bounce acc s =
    (if n = 0 \<or> file_len i \<le> k then Some (acc, s)
     else let c = chunk_len n k i in
       if k mod 512 = 0 \<and> c = 512 then do {
         (b, d) \<leftarrow> block_read (dev s) (sector_of i k);
         inode_read_loop i (int (n - c)) (int (k + c)) bounce (acc @ b) (s\<lparr>dev := d\<rparr>) }
       else let (ok, s) = need_bounce bounce s in
         if \<not> ok then Some (acc, s)
         else do {
           (b, d) \<leftarrow> block_read (dev s) (sector_of i k);
           inode_read_loop i (int (n - c)) (int (k + c)) True (acc @ take c (drop (k mod 512) b)) (s\<lparr>dev := d\<rparr>) })"
proof (cases "n = 0 \<or> file_len i \<le> k")
  case True
  then show ?thesis using chunk_size_nat(1) [OF assms, of n k] by (subst inode_read_loop.simps) (auto simp: Let_def)
next
  case False
  then have c: "chunk_size i (int n) (int k) = int (chunk_len n k i)" "0 < n" "k < file_len i"
    using chunk_size_nat(2) [OF assms, of n k] by (simp_all add: chunk_len_def)
  note b = chunk_len_bounds [OF c(2,3)]
  have e: "int n - int (chunk_len n k i) = int (n - chunk_len n k i)" using b(2) by simp
  have e512: "chunk_len n k i = 512 \<Longrightarrow> int n - 512 = int (n - 512)" "int k + 512 = int (k + 512)" using b(2) by simp_all
  have nz: "n \<noteq> 0" "\<not> file_len i \<le> k" "chunk_len n k i \<noteq> 0" using False b(1) by simp_all
  show ?thesis
    by (subst inode_read_loop.simps)
      (simp add: c nz byte_to_sector_nat BLOCK_SECTOR_SIZE_def sdiv_smod_nat e e512 Let_def flip: of_nat_add cong: if_cong prod.case_cong)
qed

lemma map_upt_append: "map f [k..<k + c] @ map f [k + c..<k + c + m] = map f [k..<k + c + m]"
proof -
  have "[k..<k + c + m] = [k..<k + c] @ [k + c..<k + c + m]" by (rule upt_add_eq_append) simp
  then show ?thesis by (simp only: map_append)
qed

lemma dev_heap_next: "s\<lparr>heap_next := h, dev := d\<rparr> = s\<lparr>dev := d, heap_next := h\<rparr>"
  by (cases s) simp

lemma inode_read_loop_spec:
  assumes "dev_ok (dev s)" "inode_ok (dev s) i"
  shows "\<exists>m r h. inode_read_loop i (int n) (int k) bounce acc s
      = Some (acc @ map (byte_at (dev s) i) [k..<k + m], s\<lparr>dev := (dev s)\<lparr>read_cnt := r\<rparr>, heap_next := h\<rparr>)
    \<and> m \<le> full_len n k i \<and> ((bounce \<or> heap_ok s (heap_next s)) \<longrightarrow> m = full_len n k i)"
  using assms
proof (induction n arbitrary: k bounce acc s rule: less_induct)
  case (less n)
  have l: "0 \<le> inode_length i" using less.prems(2) by (simp add: inode_ok_def)
  show ?case
  proof (cases "n = 0 \<or> file_len i \<le> k")
    case True
    have "inode_read_loop i (int n) (int k) bounce acc s = Some (acc, s)" using True by (subst inode_read_step [OF l]) simp
    then show ?thesis using True unfolding full_len_def
      by - (rule exI [where x = 0], rule exI [where x = "read_cnt (dev s)"], rule exI [where x = "heap_next s"], auto)
  next
    case False
    then have k: "0 < n" "k < file_len i" by simp_all
    define c where "c = chunk_len n k i"
    note b = chunk_len_bounds [OF k, folded c_def]
    have sec: "sector_of i k < blk_size (dev s)" by (rule sector_of_unat(2) [OF less.prems(2)]) (simp add: k)
    then have len: "length (blk_data (dev s) (sector_of i k)) = 512" using less.prems(1) by (simp add: dev_ok_def)
    have slice: "take c (drop (k mod 512) (blk_data (dev s) (sector_of i k))) = map (byte_at (dev s) i) [k..<k + c]"
      by (rule byte_at_slice [OF b(3) len])
    have app: "map (byte_at (dev s) i) [k..<k + c] @ map (byte_at (dev s) i) [k + c..<k + c + m] =
      map (byte_at (dev s) i) [k..<k + (c + m)]" for m
      using map_upt_append [of "byte_at (dev s) i" k c m] by (simp only: add.assoc)
    have more: "\<exists>m r h. inode_read_loop i (int (n - c)) (int (k + c)) bo (acc @ map (byte_at (dev s) i) [k..<k + c]) t
        = Some (acc @ map (byte_at (dev s) i) [k..<k + m], s\<lparr>dev := (dev s)\<lparr>read_cnt := r\<rparr>, heap_next := h\<rparr>)
      \<and> m \<le> full_len n k i \<and> ((bo \<or> heap_ok t (heap_next t)) \<longrightarrow> m = full_len n k i)"
      if t: "t = s\<lparr>dev := (dev s)\<lparr>read_cnt := r\<rparr>, heap_next := h\<rparr>" for bo t r h
    proof -
      have "byte_at (dev t) i = byte_at (dev s) i" by (rule ext) (simp add: t byte_at_def)
      moreover have "dev_ok (dev t)" "inode_ok (dev t) i" using less.prems by (simp_all add: t inode_ok_def)
      ultimately obtain m r' h' where
        "inode_read_loop i (int (n - c)) (int (k + c)) bo (acc @ map (byte_at (dev s) i) [k..<k + c]) t
          = Some ((acc @ map (byte_at (dev s) i) [k..<k + c]) @ map (byte_at (dev s) i) [k + c..<k + c + m],
              t\<lparr>dev := (dev t)\<lparr>read_cnt := r'\<rparr>, heap_next := h'\<rparr>)"
        "m \<le> full_len (n - c) (k + c) i" "bo \<or> heap_ok t (heap_next t) \<longrightarrow> m = full_len (n - c) (k + c) i"
        using less.IH [of "n - c" t "k + c" bo "acc @ map (byte_at (dev s) i) [k..<k + c]"] b(1,2) k(1) by auto
      then show ?thesis using b(5) app [of m]
        by - (rule exI [where x = "c + m"], rule exI [where x = r'], rule exI [where x = h'], simp add: t)
    qed
    show ?thesis
    proof (cases "k mod 512 = 0 \<and> c = 512")
      case True
      then have "map (byte_at (dev s) i) [k..<k + c] = blk_data (dev s) (sector_of i k)" using slice len by simp
      then show ?thesis using more [where bo = bounce and r = "read_cnt (dev s) + 1" and h = "heap_next s", OF refl] True False
        by (subst inode_read_step [OF l]) (simp add: block_read_ok sec flip: c_def)
    next
      case direct: False
      show ?thesis
      proof (cases "bounce \<or> heap_ok s (heap_next s)")
        case True
        then have "inode_read_loop i (int n) (int k) bounce acc s = inode_read_loop i (int (n - c)) (int (k + c)) True
            (acc @ map (byte_at (dev s) i) [k..<k + c])
            (s\<lparr>dev := (dev s)\<lparr>read_cnt := read_cnt (dev s) + 1\<rparr>, heap_next := if bounce then heap_next s else Suc (heap_next s)\<rparr>)"
          using k slice direct by (subst inode_read_step [OF l])
            (cases bounce; auto simp: block_read_ok sec need_bounce_def malloc_def Let_def dev_heap_next simp flip: c_def simp del: of_nat_add)
        then show ?thesis using True more [where bo = True and r = "read_cnt (dev s) + 1"
            and h = "if bounce then heap_next s else Suc (heap_next s)", OF refl] by (simp only: simp_thms)
      next
        case False
        with direct k show ?thesis
          by - (subst inode_read_step [OF l], rule exI [where x = 0], rule exI [where x = "read_cnt (dev s)"],
              rule exI [where x = "Suc (heap_next s)"], auto simp: need_bounce_def malloc_def Let_def simp flip: c_def)
      qed
    qed
  qed
qed

section \<open>Writing\<close>

lemma inode_write_step:
  assumes "0 \<le> inode_length i"
  shows "inode_write_loop i buf (int n) (int k) bounce w s =
    (if n = 0 \<or> file_len i \<le> k then Some (w, s)
     else let c = chunk_len n k i in
       if length buf < c then None
       else if k mod 512 = 0 \<and> c = 512 then do {
         d \<leftarrow> block_write (dev s) (sector_of i k) (take c buf);
         inode_write_loop i (drop c buf) (int (n - c)) (int (k + c)) bounce (w + int c) (s\<lparr>dev := d\<rparr>) }
       else let (ok, s) = need_bounce bounce s in
         if \<not> ok then Some (w, s)
         else do {
           (b, d) \<leftarrow> (if 0 < k mod 512 \<or> c < 512 - k mod 512 then block_read (dev s) (sector_of i k)
                     else Some (replicate (nat BLOCK_SECTOR_SIZE) 0, dev s));
           d \<leftarrow> block_write d (sector_of i k) (take (k mod 512) b @ take c buf @ drop (k mod 512 + c) b);
           inode_write_loop i (drop c buf) (int (n - c)) (int (k + c)) True (w + int c) (s\<lparr>dev := d\<rparr>) })"
proof (cases "n = 0 \<or> file_len i \<le> k")
  case True
  then show ?thesis using chunk_size_nat(1) [OF assms, of n k] by (subst inode_write_loop.simps) (auto simp: Let_def)
next
  case False
  then have c: "chunk_size i (int n) (int k) = int (chunk_len n k i)" "0 < n" "k < file_len i"
    using chunk_size_nat(2) [OF assms, of n k] by (simp_all add: chunk_len_def)
  note b = chunk_len_bounds [OF c(2,3)]
  have e: "int n - int (chunk_len n k i) = int (n - chunk_len n k i)" "nat (int (k mod 512) + int (chunk_len n k i)) = k mod 512 + chunk_len n k i"
    "(int (chunk_len n k i) < 512 - int (k mod 512)) = (chunk_len n k i < 512 - k mod 512)" "(0 < int (k mod 512)) = (0 < k mod 512)"
    using b(2) by auto
  have e512: "chunk_len n k i = 512 \<Longrightarrow> int n - 512 = int (n - 512)" "int k + 512 = int (k + 512)" using b(2) by simp_all
  have nz: "n \<noteq> 0" "\<not> file_len i \<le> k" "chunk_len n k i \<noteq> 0" using False b(1) by simp_all
  show ?thesis
    by (subst inode_write_loop.simps)
      (simp add: c nz byte_to_sector_nat BLOCK_SECTOR_SIZE_def sdiv_smod_nat e e512 Let_def flip: of_nat_add cong: if_cong prod.case_cong)
qed

text \<open>\<open>d'\<close> is \<open>d\<close> with the bytes \<open>bs\<close> stored from position \<open>k\<close> of the file on.\<close>

definition patched :: "inode \<Rightarrow> nat \<Rightarrow> u8 list \<Rightarrow> block \<Rightarrow> block \<Rightarrow> bool" where
  "patched i k bs d d' \<longleftrightarrow> blk_type d' = blk_type d \<and> blk_size d' = blk_size d \<and> dev_ok d'
     \<and> (\<forall>j. j div 512 < sector_cnt i \<longrightarrow> byte_at d' i j = (if k \<le> j \<and> j < k + length bs then bs ! (j - k) else byte_at d i j))
     \<and> (\<forall>n. unat n \<notin> data_sectors i \<longrightarrow> blk_data d' n = blk_data d n)"

lemma patched_Nil: "dev_ok d \<Longrightarrow> patched i k [] d d"
  by (auto simp: patched_def)

lemma patched_append:
  assumes "patched i k xs d d1" "patched i (k + length xs) ys d1 d2"
  shows "patched i k (xs @ ys) d d2"
  using assms by (auto simp: patched_def nth_append)

lemma patched_step:
  assumes "dev_ok d" "inode_ok d i" "k < file_len i" "k mod 512 + length bs \<le> 512" "0 < length bs"
    "v = take (k mod 512) b @ bs @ drop (k mod 512 + length bs) b"
    "k mod 512 = 0 \<and> length bs = 512 \<and> length b \<le> 512 \<or> b = blk_data d (sector_of i k)"
    "d' = d\<lparr>read_cnt := r, blk_data := (blk_data d)(sector_of i k := v), write_cnt := w\<rparr>"
  shows "patched i k bs d d'"
proof -
  note sk = sector_of_unat [OF assms(2), of k]
  have len: "length (blk_data d (sector_of i k)) = 512" using assms(1,3) sk(2) by (simp add: dev_ok_def)
  have v: "v = take (k mod 512) (blk_data d (sector_of i k)) @ bs @ drop (k mod 512 + length bs) (blk_data d (sector_of i k))"
    using assms(6,7) len by auto
  have lv: "length v = 512" using assms(4) len by (simp add: v)
  have kin: "k div 512 < sector_cnt i" using assms(3) sk(1) unfolding sector_cnt_def by (intro le_less_trans [OF div_le_mono [of k "file_len i - 1" 512]]) linarith+
  have byte: "byte_at d' i j = (if k \<le> j \<and> j < k + length bs then bs ! (j - k) else byte_at d i j)" if j: "j div 512 < sector_cnt i" for j
  proof (cases "j div 512 = k div 512")
    case True
    have ds: "sector_of i j = sector_of i k" using True by (simp add: sector_of_def)
    have jk: "j = 512 * (k div 512) + j mod 512" "k = 512 * (k div 512) + k mod 512" "j mod 512 < 512"
      using mult_div_mod_eq [of 512 j] True by simp_all
    have rng: "(k \<le> j \<and> j < k + length bs) = (k mod 512 \<le> j mod 512 \<and> j mod 512 < k mod 512 + length bs)"
      "\<not> j mod 512 < k mod 512 \<Longrightarrow> j - k = j mod 512 - k mod 512"
      using jk by linarith+
    show ?thesis using len assms(4) jk(3) unfolding rng byte_at_def ds
      by (auto simp: assms(8) v nth_append rng min_def)
  next
    case False
    have "unat (sector_of i j) \<noteq> unat (sector_of i k)"
      using False sector_of_unat(1) [OF assms(2), of j] sk(1) j assms(3) by simp
    then have "sector_of i j \<noteq> sector_of i k" by auto
    moreover have "\<not> (k \<le> j \<and> j < k + length bs)"
    proof
      assume a: "k \<le> j \<and> j < k + length bs"
      then have "(k + (j - k)) div 512 = k div 512" by (intro in_sector) (use assms(4) in linarith)
      then show False using False a by simp
    qed
    ultimately show ?thesis by (auto simp: byte_at_def assms(8))
  qed
  have "unat (sector_of i k) \<in> data_sectors i" using sk(1) assms(3) kin by (simp add: data_sectors_def)
  then show ?thesis using byte dev_ok_write [of "d\<lparr>read_cnt := r\<rparr>" v "sector_of i k"] assms(1) lv by (auto simp: patched_def assms(8))
qed

lemma inode_write_loop_spec:
  assumes "dev_ok (dev s)" "inode_ok (dev s) i" "n \<le> length buf"
  shows "\<exists>m d h. inode_write_loop i buf (int n) (int k) bounce w s = Some (w + int m, s\<lparr>dev := d, heap_next := h\<rparr>)
    \<and> patched i k (take m buf) (dev s) d \<and> m \<le> full_len n k i \<and> ((bounce \<or> heap_ok s (heap_next s)) \<longrightarrow> m = full_len n k i)"
  using assms
proof (induction n arbitrary: k bounce w s buf rule: less_induct)
  case (less n)
  have l: "0 \<le> inode_length i" using less.prems(2) by (simp add: inode_ok_def)
  show ?case
  proof (cases "n = 0 \<or> file_len i \<le> k")
    case True
    have "inode_write_loop i buf (int n) (int k) bounce w s = Some (w, s)" using True by (subst inode_write_step [OF l]) simp
    then show ?thesis using True patched_Nil [OF less.prems(1)] unfolding full_len_def
      by - (rule exI [where x = 0], rule exI [where x = "dev s"], rule exI [where x = "heap_next s"], auto)
  next
    case False
    then have k: "0 < n" "k < file_len i" by simp_all
    define c where "c = chunk_len n k i"
    note b = chunk_len_bounds [OF k, folded c_def]
    have lb: "\<not> length buf < c" "length (take c buf) = c" using b(2) less.prems(3) by simp_all
    have sec: "sector_of i k < blk_size (dev s)" by (rule sector_of_unat(2) [OF less.prems(2)]) (simp add: k)
    have len: "length (blk_data (dev s) (sector_of i k)) = 512" using less.prems(1) sec by (simp add: dev_ok_def)
    have step: "patched i k (take c buf) (dev s) (dev s\<lparr>read_cnt := r, blk_data := (blk_data (dev s))(sector_of i k := v), write_cnt := x\<rparr>)"
      if "v = take (k mod 512) u @ take c buf @ drop (k mod 512 + c) u"
        "k mod 512 = 0 \<and> c = 512 \<and> length u \<le> 512 \<or> u = blk_data (dev s) (sector_of i k)" for v u r x
      by (rule patched_step [OF less.prems(1,2) k(2) _ _ _ _ refl, where b = u]) (use that lb b(1,3) in auto)
    have more: "\<exists>m d h. inode_write_loop i (drop c buf) (int (n - c)) (int (k + c)) bo (w + int c) t
        = Some (w + int m, s\<lparr>dev := d, heap_next := h\<rparr>)
      \<and> patched i k (take m buf) (dev s) d \<and> m \<le> full_len n k i \<and> ((bo \<or> heap_ok t (heap_next t)) \<longrightarrow> m = full_len n k i)"
      if t: "t = s\<lparr>dev := d1, heap_next := h\<rparr>" and p: "patched i k (take c buf) (dev s) d1" for bo t d1 h
    proof -
      have "dev_ok (dev t)" "inode_ok (dev t) i" using p less.prems by (simp_all add: t inode_ok_def patched_def)
      then obtain m d h' where m: "inode_write_loop i (drop c buf) (int (n - c)) (int (k + c)) bo (w + int c) t
          = Some (w + int c + int m, t\<lparr>dev := d, heap_next := h'\<rparr>)" "patched i (k + c) (take m (drop c buf)) (dev t) d"
        "m \<le> full_len (n - c) (k + c) i" "bo \<or> heap_ok t (heap_next t) \<longrightarrow> m = full_len (n - c) (k + c) i"
        using less.IH [of "n - c" t "drop c buf" "k + c" bo "w + int c"] b(1,2) k(1) diff_le_mono [OF less.prems(3), of c]
        by (auto simp del: of_nat_add of_nat_diff)
      have "patched i k (take (c + m) buf) (dev s) d"
        using patched_append [OF p, of "take m (drop c buf)" d] m(2) lb(2) by (simp add: t take_add)
      then show ?thesis using m b(5)
        by - (rule exI [where x = "c + m"], rule exI [where x = d], rule exI [where x = h'], simp add: t)
    qed
    show ?thesis
    proof (cases "k mod 512 = 0 \<and> c = 512")
      case True
      then have "inode_write_loop i buf (int n) (int k) bounce w s = inode_write_loop i (drop c buf) (int (n - c)) (int (k + c)) bounce (w + int c)
          (s\<lparr>dev := dev s\<lparr>read_cnt := read_cnt (dev s), blk_data := (blk_data (dev s))(sector_of i k := take c buf), write_cnt := write_cnt (dev s) + 1\<rparr>,
             heap_next := heap_next s\<rparr>)"
        using k lb by (subst inode_write_step [OF l]) (simp add: block_write_ok [OF sec less.prems(1)] flip: c_def)
      moreover have "patched i k (take c buf) (dev s) (dev s\<lparr>read_cnt := read_cnt (dev s), blk_data := (blk_data (dev s))(sector_of i k := take c buf),
          write_cnt := write_cnt (dev s) + 1\<rparr>)"
        by (rule step [of _ "[]"]) (use True in auto)
      ultimately show ?thesis using more [OF refl, of _ bounce "heap_next s"] by simp
    next
      case direct: False
      show ?thesis
      proof (cases "bounce \<or> heap_ok s (heap_next s)")
        case True
        have rd: "0 < k mod 512 \<or> c < 512 - k mod 512" using direct b(3) by auto
        define h where "h = (if bounce then heap_next s else Suc (heap_next s))"
        have "inode_write_loop i buf (int n) (int k) bounce w s = inode_write_loop i (drop c buf) (int (n - c)) (int (k + c)) True (w + int c)
            (s\<lparr>dev := dev s\<lparr>read_cnt := read_cnt (dev s) + 1, blk_data := (blk_data (dev s))(sector_of i k := take (k mod 512) (blk_data (dev s) (sector_of i k)) @ take c buf
               @ drop (k mod 512 + c) (blk_data (dev s) (sector_of i k))), write_cnt := write_cnt (dev s) + 1\<rparr>,
               heap_next := h\<rparr>)"
          using True direct k lb rd block_write_ok [of "sector_of i k" "dev s\<lparr>read_cnt := read_cnt (dev s) + 1\<rparr>"] sec less.prems(1)
          by (subst inode_write_step [OF l])
            (cases bounce; auto simp: block_read_ok need_bounce_def malloc_def Let_def dev_heap_next h_def simp flip: c_def simp del: of_nat_add)
        then show ?thesis using True more [OF refl step [OF refl disjI2 [OF refl]], where bo = True] by (simp only: simp_thms)
      next
        case False
        with direct k lb show ?thesis using patched_Nil [OF less.prems(1)]
          by - (subst inode_write_step [OF l], rule exI [where x = 0], rule exI [where x = "dev s"],
              rule exI [where x = "Suc (heap_next s)"], auto simp: need_bounce_def malloc_def Let_def simp flip: c_def)
      qed
    qed
  qed
qed

section \<open>Reading and writing through an inode\<close>

definition patch_list :: "nat \<Rightarrow> 'a list \<Rightarrow> 'a list \<Rightarrow> 'a list" where
  "patch_list k ys xs = take k xs @ ys @ drop (k + length ys) xs"

lemma contents_nth: "k < file_len i \<Longrightarrow> contents d i ! k = byte_at d i k"
  by (simp add: contents_def)

lemma file_len_sectors: "j < file_len i \<Longrightarrow> j div 512 < sector_cnt i"
  unfolding sector_cnt_def by (intro le_less_trans [OF div_le_mono [of j "file_len i - 1" 512]]) linarith+

lemma contents_read: "k + m \<le> file_len i \<Longrightarrow> map (byte_at d i) [k..<k + m] = take m (drop k (contents d i))"
  by (simp add: contents_def take_map drop_map)

lemma contents_patched:
  assumes "patched i k bs d d'" "bs = [] \<or> k + length bs \<le> file_len i"
  shows "contents d' i = patch_list k bs (contents d i)"
proof (rule nth_equalityI)
  fix j
  assume "j < length (contents d' i)"
  then have j: "j < file_len i" by simp
  then show "contents d' i ! j = patch_list k bs (contents d i) ! j"
    using assms file_len_sectors [OF j] by (auto simp: contents_nth patched_def patch_list_def nth_append min_def)
qed (use assms in \<open>auto simp: patch_list_def\<close>)

lemma contents_other:
  assumes "patched i k bs d d'" "data_sectors i \<inter> data_sectors j = {}" "inode_ok d j"
  shows "contents d' j = contents d j"
proof (rule nth_equalityI)
  fix n
  assume "n < length (contents d' j)"
  then have n: "n < file_len j" by simp
  have "unat (sector_of j n) \<in> data_sectors j"
    using sector_of_unat(1) [OF assms(3), of n] file_len_sectors [OF n] n by (simp add: data_sectors_def)
  then show "contents d' j ! n = contents d j ! n" using assms(1,2) n by (auto simp: contents_nth patched_def byte_at_def)
qed simp

lemma inode_read_at_spec:
  assumes "dev_ok (dev s)" "inodes s p = Some i" "inode_ok (dev s) i" "0 \<le> offset"
  shows "\<exists>bs r h. inode_read_at p sz offset s = Some (bs, s\<lparr>dev := (dev s)\<lparr>read_cnt := r\<rparr>, heap_next := h\<rparr>)
    \<and> (\<exists>m. bs = take m (take (nat sz) (drop (nat offset) (contents (dev s) i))))
    \<and> (heap_ok s (heap_next s) \<longrightarrow> bs = take (nat sz) (drop (nat offset) (contents (dev s) i)))"
proof (cases "0 < sz")
  case True
  obtain n k where nk: "sz = int n" "offset = int k" using True assms(4) by (metis int_nat_eq less_imp_le nonneg_int_cases)
  obtain m r h where m: "inode_read_loop i (int n) (int k) False [] s
      = Some ([] @ map (byte_at (dev s) i) [k..<k + m], s\<lparr>dev := (dev s)\<lparr>read_cnt := r\<rparr>, heap_next := h\<rparr>)"
    "m \<le> full_len n k i" "heap_ok s (heap_next s) \<longrightarrow> m = full_len n k i"
    using inode_read_loop_spec [OF assms(1,3), of n k False "[]"] by auto
  have r: "map (byte_at (dev s) i) [k..<k + m] = take m (take n (drop k (contents (dev s) i)))"
    "full_len n k i = m \<Longrightarrow> map (byte_at (dev s) i) [k..<k + m] = take n (drop k (contents (dev s) i))"
  proof -
    show *: "map (byte_at (dev s) i) [k..<k + m] = take m (take n (drop k (contents (dev s) i)))"
    proof (cases "m = 0")
      case False
      then have "k + m \<le> file_len i" "m \<le> n" using m(2) by (auto simp: full_len_def)
      then show ?thesis by (simp add: contents_read min_def)
    qed simp
    assume "full_len n k i = m"
    then show "map (byte_at (dev s) i) [k..<k + m] = take n (drop k (contents (dev s) i))"
      unfolding * by (intro take_all) (simp add: full_len_def)
  qed
  show ?thesis using True m r assms(2) by (auto simp: inode_read_at_def nk)
next
  case False
  then show ?thesis by (auto simp: inode_read_at_def intro!: exI [of _ "read_cnt (dev s)"] exI [of _ "heap_next s"])
qed

lemma inode_write_at_spec:
  assumes "dev_ok (dev s)" "inodes s p = Some i" "inode_ok (dev s) i" "0 \<le> offset" "deny_write_cnt i = 0" "nat sz \<le> length buf"
  shows "\<exists>m d h. inode_write_at p buf sz offset s = Some (int m, s\<lparr>dev := d, heap_next := h\<rparr>)
    \<and> patched i (nat offset) (take m buf) (dev s) d \<and> m \<le> full_len (nat sz) (nat offset) i
    \<and> (heap_ok s (heap_next s) \<longrightarrow> m = full_len (nat sz) (nat offset) i)"
proof (cases "0 < sz")
  case True
  obtain n k where nk: "sz = int n" "offset = int k" using True assms(4) by (metis int_nat_eq less_imp_le nonneg_int_cases)
  show ?thesis using inode_write_loop_spec [OF assms(1,3), of n buf k False 0] assms(2,5,6) by (simp add: inode_write_at_def nk)
next
  case False
  then have "inode_write_at p buf sz offset s = Some (0, s)"
    using assms(2,5) by (simp add: inode_write_at_def inode_write_loop.simps)
  then show ?thesis using False patched_Nil [OF assms(1)]
    by - (rule exI [where x = 0], rule exI [where x = "dev s"], rule exI [where x = "heap_next s"], auto simp: full_len_def)
qed

section \<open>Properties\<close>

text \<open>A device of eight sectors with a file of 600 bytes in sectors 2 and 3.\<close>

definition small_inode :: inode where
  "small_inode = \<lparr>i_sector = 1, open_cnt = 1, removed = False, deny_write_cnt = 0,
     i_data = \<lparr>d_start = 2, d_length = 600, d_magic = INODE_MAGIC, d_unused = replicate 125 0\<rparr>\<rparr>"

definition small_fs :: fs where
  "small_fs = \<lparr>dev = \<lparr>blk_name = [], blk_type = BLOCK_FILESYS, blk_size = 8, blk_data = (\<lambda>_. replicate 512 0), read_cnt = 0, write_cnt = 0\<rparr>,
     inodes = [5 \<mapsto> small_inode], files = [6 \<mapsto> \<lparr>f_inode = 5, f_pos = 510, f_deny_write = False\<rparr>], dirs = Map.empty, open_inodes = [5],
     free_map = \<lparr>bit_cnt = 8, bits = [15]\<rparr>, free_map_file = NULL, heap_ok = (\<lambda>_. True), heap_next = 10\<rparr>"

lemma small_fs_ok:
  "dev_ok (dev small_fs)" "inode_ok (dev small_fs) small_inode" "inodes small_fs 5 = Some small_inode"
  "deny_write_cnt small_inode = 0" "file_len small_inode = 600" "heap_ok small_fs n"
  by (simp_all add: small_fs_def small_inode_def dev_ok_def inode_ok_def sector_cnt_def file_len_def inode_length_def)

text \<open>
  C16: writing a file.  \<open>inode_write_at\<close> always returns; it stores a prefix of the buffer at the
  given offset, as long as the file (and not less, when memory for the bounce buffer is available),
  and changes no other byte of this file and nothing of a file that shares no sector with it.
\<close>

theorem inode_write_at_correct:
  assumes "dev_ok (dev s)" "inodes s p = Some i" "inode_ok (dev s) i" "0 \<le> offset" "deny_write_cnt i = 0" "nat sz \<le> length buf"
  shows "\<exists>n s'. inode_write_at p buf sz offset s = Some (int n, s')
    \<and> contents (dev s') i = patch_list (nat offset) (take n buf) (contents (dev s) i)
    \<and> (\<forall>j. inode_ok (dev s) j \<and> data_sectors i \<inter> data_sectors j = {} \<longrightarrow> contents (dev s') j = contents (dev s) j)
    \<and> n \<le> min (nat sz) (file_len i - nat offset) \<and> (heap_ok s (heap_next s) \<longrightarrow> n = min (nat sz) (file_len i - nat offset))
    \<and> dev_ok (dev s') \<and> inodes s' = inodes s"
proof -
  obtain n d h where n: "inode_write_at p buf sz offset s = Some (int n, s\<lparr>dev := d, heap_next := h\<rparr>)"
    "patched i (nat offset) (take n buf) (dev s) d" "n \<le> full_len (nat sz) (nat offset) i"
    "heap_ok s (heap_next s) \<longrightarrow> n = full_len (nat sz) (nat offset) i"
    using inode_write_at_spec [OF assms] by blast
  have "take n buf = [] \<or> nat offset + length (take n buf) \<le> file_len i" using n(3) by (auto simp: full_len_def)
  then show ?thesis using n contents_patched [OF n(2)] contents_other [OF n(2)]
    by - (rule exI [where x = n], rule exI [where x = "s\<lparr>dev := d, heap_next := h\<rparr>"], auto simp: full_len_def patched_def)
qed

theorem inode_write_at_correct_witness:
  "\<exists>s'. inode_write_at 5 [1, 2, 3] 3 511 small_fs = Some (3, s')
    \<and> contents (dev s') small_inode = patch_list 511 [1, 2, 3] (contents (dev small_fs) small_inode)"
  using inode_write_at_correct [OF small_fs_ok(1,3,2) _ small_fs_ok(4), of 511 3 "[1, 2, 3]"]
  by (fastforce simp: small_fs_ok)

text \<open>
  C17: reading a file.  \<open>inode_read_at\<close> always returns; what it returns is a prefix of the bytes of
  the file from the offset on, and all of those asked for when memory for the bounce buffer is
  available.  The device and the inodes are not changed.
\<close>

theorem inode_read_at_correct:
  assumes "dev_ok (dev s)" "inodes s p = Some i" "inode_ok (dev s) i" "0 \<le> offset"
  shows "\<exists>bs s'. inode_read_at p sz offset s = Some (bs, s') \<and> (\<exists>m. bs = take m (take (nat sz) (drop (nat offset) (contents (dev s) i))))
    \<and> (heap_ok s (heap_next s) \<longrightarrow> bs = take (nat sz) (drop (nat offset) (contents (dev s) i)))
    \<and> blk_data (dev s') = blk_data (dev s) \<and> inodes s' = inodes s"
proof -
  obtain bs r h where "inode_read_at p sz offset s = Some (bs, s\<lparr>dev := (dev s)\<lparr>read_cnt := r\<rparr>, heap_next := h\<rparr>)"
    "\<exists>m. bs = take m (take (nat sz) (drop (nat offset) (contents (dev s) i)))"
    "heap_ok s (heap_next s) \<longrightarrow> bs = take (nat sz) (drop (nat offset) (contents (dev s) i))"
    using inode_read_at_spec [OF assms, of sz] by blast
  then show ?thesis by - (rule exI [where x = bs], rule exI [where x = "s\<lparr>dev := (dev s)\<lparr>read_cnt := r\<rparr>, heap_next := h\<rparr>"], simp)
qed

theorem inode_read_at_correct_witness:
  "\<exists>s'. inode_read_at 5 4 598 small_fs = Some (take 4 (drop 598 (contents (dev small_fs) small_inode)), s')"
  using inode_read_at_correct [OF small_fs_ok(1,3,2), of 598 4] by (simp add: small_fs_ok) blast

end
