(* ===== verification/Directory.thy ===== *)
theory Directory
  imports Inode_Data
begin

text \<open>
  Directories and the file system's entry points: \<open>filesys/directory.c\<close> and \<open>filesys/filesys.c\<close>.  A
  directory is a file of 20-byte entries.  File names are C strings, here the bytes before the
  terminating null.  The lock of \<open>filesys_open\<close> is not part of this state: calls run one at a time.
\<close>

section \<open>Directory entries\<close>

definition NAME_MAX :: nat where "NAME_MAX = 14"

record dir_entry =
  inode_sector :: u32
  de_name :: "u8 list"
  in_use :: bool

definition entry_bytes :: "dir_entry \<Rightarrow> u8 list" where
  "entry_bytes e = le32 (inode_sector e) @ de_name e @ [if in_use e then 1 else 0]"

definition bytes_entry :: "u8 list \<Rightarrow> dir_entry" where
  "bytes_entry bs = \<lparr>inode_sector = of_le32 bs, de_name = take 15 (drop 4 bs), in_use = (bs ! 19 \<noteq> 0)\<rparr>"

text \<open>Whether \<open>strcmp\<close> finds the name of an entry in use equal to the string \<open>name\<close>.\<close>

definition same_name :: "u8 list \<Rightarrow> dir_entry \<Rightarrow> bool" where
  "same_name name e \<longleftrightarrow> take (Suc (length name)) (de_name e) = name @ [0]"

text \<open>\<open>strlcpy (e.name, name, sizeof e.name)\<close>: what follows the null keeps its old value.\<close>

definition set_name :: "u8 list \<Rightarrow> dir_entry \<Rightarrow> dir_entry" where
  "set_name name e = (let n = take NAME_MAX name in e\<lparr>de_name := n @ [0] @ drop (Suc (length n)) (de_name e)\<rparr>)"

section \<open>Opening and closing\<close>

definition dir_create :: "u32 \<Rightarrow> u32 \<Rightarrow> fs \<Rightarrow> (bool \<times> fs) option" where
  "dir_create sector entry_cnt s = inode_create sector (sint (entry_cnt * 20)) s"

definition dir_open :: "ptr \<Rightarrow> fs \<Rightarrow> (ptr \<times> fs) option" where
  "dir_open ip s = (case malloc s of (p, s) \<Rightarrow>
     if ip \<noteq> NULL \<and> p \<noteq> NULL then Some (p, s\<lparr>dirs := (dirs s)(p \<mapsto> \<lparr>dir_inode = ip, dir_pos = 0\<rparr>)\<rparr>)
     else do { s \<leftarrow> inode_close ip s; Some (NULL, s) })"

definition dir_open_root :: "fs \<Rightarrow> (ptr \<times> fs) option" where
  "dir_open_root s = do { (ip, s) \<leftarrow> inode_open ROOT_DIR_SECTOR s; dir_open ip s }"

definition dir_reopen :: "ptr \<Rightarrow> fs \<Rightarrow> (ptr \<times> fs) option" where
  "dir_reopen p s = do { d \<leftarrow> dirs s p; (ip, s) \<leftarrow> inode_reopen (dir_inode d) s; dir_open ip s }"

definition dir_close :: "ptr \<Rightarrow> fs \<Rightarrow> fs option" where
  "dir_close p s = (if p = NULL then Some s
     else do { d \<leftarrow> dirs s p; s \<leftarrow> inode_close (dir_inode d) s; Some (s\<lparr>dirs := (dirs s)(p := None)\<rparr>) })"

definition dir_get_inode :: "ptr \<Rightarrow> fs \<Rightarrow> ptr option" where
  "dir_get_inode p s = map_option dir_inode (dirs s p)"

section \<open>Looking up, adding and removing\<close>

text \<open>The loop of \<open>lookup\<close> from offset \<open>ofs\<close> on: the entry and its offset.\<close>

partial_function (option) lookup_loop :: "ptr \<Rightarrow> u8 list \<Rightarrow> off_t \<Rightarrow> fs \<Rightarrow> ((dir_entry \<times> off_t) option \<times> fs) option" where
  "lookup_loop ip name ofs s = do {
     (bs, s) \<leftarrow> inode_read_at ip 20 ofs s;
     if length bs = 20 then
       (let e = bytes_entry bs in
        if in_use e \<and> same_name name e then Some (Some (e, ofs), s) else lookup_loop ip name (ofs + 20) s)
     else Some (None, s) }"

definition lookup :: "ptr \<Rightarrow> u8 list \<Rightarrow> fs \<Rightarrow> ((dir_entry \<times> off_t) option \<times> fs) option" where
  "lookup p name s = do { kassert (p \<noteq> NULL); d \<leftarrow> dirs s p; lookup_loop (dir_inode d) name 0 s }"

definition dir_lookup :: "ptr \<Rightarrow> u8 list \<Rightarrow> fs \<Rightarrow> (bool \<times> ptr \<times> fs) option" where
  "dir_lookup p name s = do {
     kassert (p \<noteq> NULL);
     (r, s) \<leftarrow> lookup p name s;
     (ip, s) \<leftarrow> (case r of Some (e, _) \<Rightarrow> inode_open (inode_sector e) s | None \<Rightarrow> Some (NULL, s));
     Some (ip \<noteq> NULL, ip, s) }"

text \<open>The search for a free slot in \<open>dir_add\<close>; \<open>e\<close> is the local variable, 20 bytes of the stack.\<close>

partial_function (option) free_slot :: "ptr \<Rightarrow> off_t \<Rightarrow> u8 list \<Rightarrow> fs \<Rightarrow> (off_t \<times> u8 list \<times> fs) option" where
  "free_slot ip ofs e s = do {
     (bs, s) \<leftarrow> inode_read_at ip 20 ofs s;
     let e = bs @ drop (length bs) e;
     if length bs = 20 \<and> in_use (bytes_entry e) then free_slot ip (ofs + 20) e s else Some (ofs, e, s) }"

definition dir_add :: "u8 list \<Rightarrow> ptr \<Rightarrow> u8 list \<Rightarrow> u32 \<Rightarrow> fs \<Rightarrow> (bool \<times> fs) option" where
  "dir_add stack p name sector s = do {
     kassert (p \<noteq> NULL);
     if name = [] \<or> length name > NAME_MAX then Some (False, s)
     else do {
       (r, s) \<leftarrow> lookup p name s;
       (case r of
          Some _ \<Rightarrow> Some (False, s)
        | None \<Rightarrow> do {
            d \<leftarrow> dirs s p;
            (ofs, e, s) \<leftarrow> free_slot (dir_inode d) 0 stack s;
            let e = set_name name ((bytes_entry e)\<lparr>in_use := True\<rparr>)\<lparr>inode_sector := sector\<rparr>;
            (n, s) \<leftarrow> inode_write_at (dir_inode d) (entry_bytes e) 20 ofs s;
            Some (n = 20, s) }) } }"

definition dir_remove :: "ptr \<Rightarrow> u8 list \<Rightarrow> fs \<Rightarrow> (bool \<times> fs) option" where
  "dir_remove p name s = do {
     kassert (p \<noteq> NULL);
     d \<leftarrow> dirs s p;
     (r, s) \<leftarrow> lookup p name s;
     (success, ip, s) \<leftarrow> (case r of
          None \<Rightarrow> Some (False, NULL, s)
        | Some (e, ofs) \<Rightarrow> do {
            (ip, s) \<leftarrow> inode_open (inode_sector e) s;
            if ip = NULL then Some (False, ip, s)
            else do {
              (n, s) \<leftarrow> inode_write_at (dir_inode d) (entry_bytes (e\<lparr>in_use := False\<rparr>)) 20 ofs s;
              if n \<noteq> 20 then Some (False, ip, s)
              else do { s \<leftarrow> inode_remove ip s; Some (True, ip, s) } } });
     s \<leftarrow> inode_close ip s;
     Some (success, s) }"

text \<open>\<open>dir_readdir\<close> returns the name of the next entry in use, up to its null.\<close>

partial_function (option) dir_readdir :: "ptr \<Rightarrow> fs \<Rightarrow> (u8 list option \<times> fs) option" where
  "dir_readdir p s = do {
     d \<leftarrow> dirs s p;
     (bs, s) \<leftarrow> inode_read_at (dir_inode d) 20 (dir_pos d) s;
     if length bs = 20 then do {
       let s = s\<lparr>dirs := (dirs s)(p \<mapsto> d\<lparr>dir_pos := dir_pos d + 20\<rparr>)\<rparr>;
       let e = bytes_entry bs;
       if in_use e then Some (Some (take NAME_MAX (takeWhile (\<lambda>c. c \<noteq> 0) (de_name e))), s) else dir_readdir p s }
     else Some (None, s) }"

section \<open>The file system\<close>

definition filesys_create :: "u8 list \<Rightarrow> u8 list \<Rightarrow> off_t \<Rightarrow> fs \<Rightarrow> (bool \<times> fs) option" where
  "filesys_create stack name initial_size s = do {
     (p, s) \<leftarrow> dir_open_root s;
     (success, sector, s) \<leftarrow>
       (if p \<noteq> NULL then do {
          (r, s) \<leftarrow> free_map_allocate 1 s;
          (case r of
             None \<Rightarrow> Some (False, 0, s)
           | Some sector \<Rightarrow> do {
               (ok, s) \<leftarrow> inode_create sector initial_size s;
               if ok then do { (ok, s) \<leftarrow> dir_add stack p name sector s; Some (ok, sector, s) }
               else Some (False, sector, s) }) }
        else Some (False, 0, s));
     s \<leftarrow> (if \<not> success \<and> sector \<noteq> 0 then free_map_release sector 1 s else Some s);
     s \<leftarrow> dir_close p s;
     Some (success, s) }"

definition filesys_open :: "u8 list \<Rightarrow> fs \<Rightarrow> (ptr \<times> fs) option" where
  "filesys_open name s = do {
     (p, s) \<leftarrow> dir_open_root s;
     (ip, s) \<leftarrow> (if p \<noteq> NULL then do { (_, ip, s) \<leftarrow> dir_lookup p name s; Some (ip, s) } else Some (NULL, s));
     s \<leftarrow> dir_close p s;
     file_open ip s }"

definition filesys_remove :: "u8 list \<Rightarrow> fs \<Rightarrow> (bool \<times> fs) option" where
  "filesys_remove name s = do {
     (p, s) \<leftarrow> dir_open_root s;
     (success, s) \<leftarrow> (if p \<noteq> NULL then dir_remove p name s else Some (False, s));
     s \<leftarrow> dir_close p s;
     Some (success, s) }"

definition do_format :: "fs \<Rightarrow> fs option" where
  "do_format s = do {
     s \<leftarrow> free_map_create s;
     (ok, s) \<leftarrow> dir_create ROOT_DIR_SECTOR 16 s;
     kassert ok;
     free_map_close s }"

definition filesys_init :: "bool \<Rightarrow> u32 list \<Rightarrow> blocks \<Rightarrow> fs \<Rightarrow> fs option" where
  "filesys_init format junk bs s = do {
     fs_device \<leftarrow> block_get_role BLOCK_FILESYS bs;
     kassert (fs_device \<noteq> NULL);
     b \<leftarrow> blk bs fs_device;
     s \<leftarrow> free_map_init junk (inode_init (s\<lparr>dev := b\<rparr>));
     s \<leftarrow> (if format then do_format s else Some s);
     free_map_open s }"

definition filesys_done :: "fs \<Rightarrow> fs option" where
  "filesys_done s = free_map_close s"

end
