(* ===== verification/Directory_Map.thy ===== *)
theory Directory_Map
  imports Directory
begin

text \<open>
  A directory is a map from names to sectors: \<open>lookup\<close> reads it, \<open>dir_add\<close> extends it.
\<close>

section \<open>The slots of a directory\<close>

definition slot_cnt :: "inode \<Rightarrow> nat" where
  "slot_cnt i = file_len i div 20"

definition slot :: "block \<Rightarrow> inode \<Rightarrow> nat \<Rightarrow> dir_entry" where
  "slot d i k = bytes_entry (take 20 (drop (20 * k) (contents d i)))"

definition entry_for :: "u8 list \<Rightarrow> block \<Rightarrow> inode \<Rightarrow> nat \<Rightarrow> bool" where
  "entry_for name d i k \<longleftrightarrow> in_use (slot d i k) \<and> same_name name (slot d i k)"

definition dir_map :: "block \<Rightarrow> inode \<Rightarrow> u8 list \<Rightarrow> u32 option" where
  "dir_map d i name = map_option (\<lambda>k. inode_sector (slot d i k)) (find (entry_for name d i) [0..<slot_cnt i])"

definition memory_ok :: "fs \<Rightarrow> bool" where
  "memory_ok s \<longleftrightarrow> (\<forall>n. heap_ok s n)"

definition ready :: "ptr \<Rightarrow> inode \<Rightarrow> fs \<Rightarrow> bool" where
  "ready ip i s \<longleftrightarrow> dev_ok (dev s) \<and> inodes s ip = Some i \<and> inode_ok (dev s) i \<and> memory_ok s"

lemma contents_read_cnt [simp]: "contents (d\<lparr>read_cnt := r\<rparr>) i = contents d i"
  by (simp add: contents_def byte_at_def)

lemma slot_read_cnt [simp]: "slot (d\<lparr>read_cnt := r\<rparr>) i = slot d i"
  by (simp add: slot_def fun_eq_iff)

lemma entry_read_cnt [simp]: "entry_for name (d\<lparr>read_cnt := r\<rparr>) i = entry_for name d i"
  by (simp add: fun_eq_iff entry_for_def)

lemma dir_map_read_cnt [simp]: "dir_map (d\<lparr>read_cnt := r\<rparr>) i = dir_map d i"
  by (simp add: fun_eq_iff dir_map_def)

lemma ready_read [simp]: "ready ip i (s\<lparr>dev := (dev s)\<lparr>read_cnt := r\<rparr>, heap_next := h\<rparr>) = ready ip i s"
  by (simp add: ready_def memory_ok_def inode_ok_def)

lemma slot_full: "k < slot_cnt i \<Longrightarrow> 20 * k + 20 \<le> file_len i"
proof -
  assume "k < slot_cnt i"
  then have "20 * Suc k \<le> 20 * (file_len i div 20)" unfolding slot_cnt_def by (intro mult_le_mono2) simp
  also have "\<dots> \<le> file_len i" by simp
  finally show ?thesis by simp
qed

lemma slot_past: "file_len i - 20 * slot_cnt i < 20"
  using mod_less_divisor [of 20 "file_len i"] by (simp add: slot_cnt_def minus_mult_div_eq_mod)

lemma read_slot:
  assumes "ready ip i s"
  shows "\<exists>r h. inode_read_at ip 20 (int (20 * k)) s =
    Some (take 20 (drop (20 * k) (contents (dev s) i)), s\<lparr>dev := (dev s)\<lparr>read_cnt := r\<rparr>, heap_next := h\<rparr>)"
proof -
  obtain bs r h where "inode_read_at ip 20 (int (20 * k)) s = Some (bs, s\<lparr>dev := (dev s)\<lparr>read_cnt := r\<rparr>, heap_next := h\<rparr>)"
    "heap_ok s (heap_next s) \<longrightarrow> bs = take (nat 20) (drop (nat (int (20 * k))) (contents (dev s) i))"
    using inode_read_at_spec [of s ip i "int (20 * k)" 20] assms unfolding ready_def by (meson of_nat_0_le_iff)
  moreover have "heap_ok s (heap_next s)" using assms by (simp add: ready_def memory_ok_def)
  ultimately show ?thesis by (auto simp del: of_nat_mult)
qed

lemma length_slot: "length (take 20 (drop (20 * k) (contents d i))) = 20 \<longleftrightarrow> k < slot_cnt i"
proof
  assume "k < slot_cnt i"
  from slot_full [OF this] show "length (take 20 (drop (20 * k) (contents d i))) = 20" by simp
next
  assume "length (take 20 (drop (20 * k) (contents d i))) = 20"
  then have "20 * Suc k \<le> file_len i" by simp
  then have "20 * Suc k div 20 \<le> file_len i div 20" by (rule div_le_mono)
  then show "k < slot_cnt i" unfolding slot_cnt_def by simp
qed

lemma lookup_loop_spec:
  assumes "ready ip i s" "k \<le> slot_cnt i"
  shows "\<exists>r h. lookup_loop ip name (int (20 * k)) s =
    Some (map_option (\<lambda>j. (slot (dev s) i j, int (20 * j))) (find (entry_for name (dev s) i) [k..<slot_cnt i]),
      s\<lparr>dev := (dev s)\<lparr>read_cnt := r\<rparr>, heap_next := h\<rparr>)"
  using assms
proof (induction "slot_cnt i - k" arbitrary: k s)
  case 0
  obtain r h where "inode_read_at ip 20 (int (20 * k)) s =
      Some (take 20 (drop (20 * k) (contents (dev s) i)), s\<lparr>dev := (dev s)\<lparr>read_cnt := r\<rparr>, heap_next := h\<rparr>)"
    using read_slot [OF 0(2)] by blast
  moreover have "\<not> k < slot_cnt i" using 0 by simp
  ultimately show ?case using length_slot [of k "dev s" i] by (subst lookup_loop.simps) auto
next
  case (Suc n)
  then have k: "k < slot_cnt i" by simp
  obtain r h where rd: "inode_read_at ip 20 (int (20 * k)) s =
      Some (take 20 (drop (20 * k) (contents (dev s) i)), s\<lparr>dev := (dev s)\<lparr>read_cnt := r\<rparr>, heap_next := h\<rparr>)"
    using read_slot [OF Suc(3)] by blast
  have len: "length (take 20 (drop (20 * k) (contents (dev s) i))) = 20" using k length_slot by blast
  have ofs: "int (20 * k) + 20 = int (20 * Suc k)" by simp
  have upt: "[k..<slot_cnt i] = k # [Suc k..<slot_cnt i]" using k by (rule upt_conv_Cons)
  show ?case
  proof (cases "entry_for name (dev s) i k")
    case True
    then show ?thesis using rd len by (subst lookup_loop.simps) (auto simp: upt entry_for_def slot_def Let_def)
  next
    case False
    let ?s = "s\<lparr>dev := (dev s)\<lparr>read_cnt := r\<rparr>, heap_next := h\<rparr>"
    have "lookup_loop ip name (int (20 * k)) s = lookup_loop ip name (int (20 * Suc k)) ?s"
      using rd len False unfolding ofs [symmetric] by (subst lookup_loop.simps) (auto simp: entry_for_def slot_def Let_def)
    moreover have "\<exists>r h. lookup_loop ip name (int (20 * Suc k)) ?s =
      Some (map_option (\<lambda>j. (slot (dev ?s) i j, int (20 * j))) (find (entry_for name (dev ?s) i) [Suc k..<slot_cnt i]),
      ?s\<lparr>dev := (dev ?s)\<lparr>read_cnt := r\<rparr>, heap_next := h\<rparr>)"
      by (rule Suc(1)) (use Suc(2,3) k in auto)
    ultimately show ?thesis using False by (simp add: upt)
  qed
qed

lemma free_slot_spec:
  assumes "ready ip i s" "k \<le> slot_cnt i" "length e = 20"
  shows "\<exists>j e' r h. free_slot ip (int (20 * k)) e s = Some (int (20 * j), e', s\<lparr>dev := (dev s)\<lparr>read_cnt := r\<rparr>, heap_next := h\<rparr>)
    \<and> length e' = 20 \<and> k \<le> j \<and> j \<le> slot_cnt i \<and> (\<forall>l. k \<le> l \<and> l < j \<longrightarrow> in_use (slot (dev s) i l)) \<and> (j < slot_cnt i \<longrightarrow> \<not> in_use (slot (dev s) i j))"
  using assms
proof (induction "slot_cnt i - k" arbitrary: k e s)
  case 0
  define bs where "bs = take 20 (drop (20 * k) (contents (dev s) i))"
  obtain r h where rd: "inode_read_at ip 20 (int (20 * k)) s = Some (bs, s\<lparr>dev := (dev s)\<lparr>read_cnt := r\<rparr>, heap_next := h\<rparr>)"
    using read_slot [OF 0(2)] unfolding bs_def by blast
  have k: "k = slot_cnt i" using 0(1,3) by simp
  then have len: "length bs \<noteq> 20" "length bs \<le> 20" using length_slot [of k "dev s" i] by (simp_all add: bs_def)
  have "free_slot ip (int (20 * k)) e s = Some (int (20 * k), bs @ drop (length bs) e, s\<lparr>dev := (dev s)\<lparr>read_cnt := r\<rparr>, heap_next := h\<rparr>)"
    using rd len by (subst free_slot.simps) simp
  moreover have "length (bs @ drop (length bs) e) = 20" using len(2) 0(4) by simp
  ultimately show ?case using k by fastforce
next
  case (Suc n)
  then have k: "k < slot_cnt i" by simp
  define bs where "bs = take 20 (drop (20 * k) (contents (dev s) i))"
  obtain r h where rd: "inode_read_at ip 20 (int (20 * k)) s = Some (bs, s\<lparr>dev := (dev s)\<lparr>read_cnt := r\<rparr>, heap_next := h\<rparr>)"
    using read_slot [OF Suc(3)] unfolding bs_def by blast
  have len: "length bs = 20" using k length_slot unfolding bs_def by blast
  have sl: "bytes_entry bs = slot (dev s) i k" by (simp add: slot_def bs_def)
  let ?s = "s\<lparr>dev := (dev s)\<lparr>read_cnt := r\<rparr>, heap_next := h\<rparr>"
  show ?case
  proof (cases "in_use (slot (dev s) i k)")
    case True
    have "free_slot ip (int (20 * k)) e s = free_slot ip (int (20 * Suc k)) bs ?s"
      using rd len True Suc(5) by (subst free_slot.simps) (simp add: sl add.commute)
    moreover have "\<exists>j e' r h. free_slot ip (int (20 * Suc k)) bs ?s = Some (int (20 * j), e', ?s\<lparr>dev := (dev ?s)\<lparr>read_cnt := r\<rparr>, heap_next := h\<rparr>)
      \<and> length e' = 20 \<and> Suc k \<le> j \<and> j \<le> slot_cnt i \<and> (\<forall>l. Suc k \<le> l \<and> l < j \<longrightarrow> in_use (slot (dev ?s) i l)) \<and> (j < slot_cnt i \<longrightarrow> \<not> in_use (slot (dev ?s) i j))"
      by (rule Suc(1)) (use Suc(2,3) k len in auto)
    ultimately show ?thesis using True by (simp add: Suc_le_eq) (metis less_imp_le nat_less_le)
  next
    case False
    then show ?thesis using rd len k Suc(5)
      by - (rule exI [where x = k], rule exI [where x = bs], subst free_slot.simps, auto simp: sl)
  qed
qed

section \<open>Adding an entry\<close>

lemma entry_bytes_length: "length (de_name e) = 15 \<Longrightarrow> length (entry_bytes e) = 20"
  by (simp add: entry_bytes_def)

lemma bytes_entry_bytes: "length (de_name e) = 15 \<Longrightarrow> bytes_entry (entry_bytes e) = e"
  by (simp add: entry_bytes_def bytes_entry_def of_le32_le32 nth_append)

lemma set_name_simps:
  assumes "length name \<le> NAME_MAX" "length (de_name e) = 15"
  shows "length (de_name (set_name name e)) = 15" "in_use (set_name name e) = in_use e" "inode_sector (set_name name e) = inode_sector e"
    "de_name (set_name name e) = name @ [0] @ drop (Suc (length name)) (de_name e)"
  using assms by (simp_all add: set_name_def NAME_MAX_def Let_def)

lemma same_name_prefix:
  assumes "0 \<notin> set a" "0 \<notin> set b" "de_name e = a @ [0] @ xs"
  shows "same_name b e \<longleftrightarrow> b = a"
proof
  assume "same_name b e"
  then have "take (Suc (length b)) (a @ [0] @ xs) = b @ [0]" using assms(3) by (simp add: same_name_def)
  then have "takeWhile (\<lambda>c. c \<noteq> 0) (a @ 0 # xs) = takeWhile (\<lambda>c. c \<noteq> 0) (b @ 0 # drop (Suc (length b)) (a @ 0 # xs))"
    by (metis append.assoc append_Cons append_Nil append_take_drop_id)
  moreover have "takeWhile (\<lambda>c. c \<noteq> 0) (z @ 0 # ys) = z" if "0 \<notin> set z" for z ys :: "u8 list"
    using that by (induction z) auto
  ultimately show "b = a" using assms(1,2) by metis
next
  assume "b = a"
  then show "same_name b e" using assms(3) by (simp add: same_name_def)
qed

lemma nth_patch_list:
  "k + length ys \<le> length xs \<Longrightarrow> n < length xs \<Longrightarrow>
    patch_list k ys xs ! n = (if k \<le> n \<and> n < k + length ys then ys ! (n - k) else xs ! n)"
  by (auto simp: patch_list_def nth_append min_def)

lemma length_patch_list: "k + length ys \<le> length xs \<Longrightarrow> length (patch_list k ys xs) = length xs"
  by (simp add: patch_list_def)

lemma patch_list_slot:
  assumes "length b = n" "n * j + n \<le> length xs" "n * k + n \<le> length xs"
  shows "take n (drop (n * k) (patch_list (n * j) b xs)) = (if k = j then b else take n (drop (n * k) xs))"
proof (rule nth_equalityI)
  fix m
  assume "m < length (take n (drop (n * k) (patch_list (n * j) b xs)))"
  then have m: "m < n" by simp
  have "n * j \<le> n * k + m \<and> n * k + m < n * j + n \<longleftrightarrow> k = j"
  proof
    assume a: "n * j \<le> n * k + m \<and> n * k + m < n * j + n"
    have "(n * k + m) div n = k" using m by simp
    moreover have "(n * k + m) div n = j"
      by (rule div_nat_eqI) (use a m in \<open>simp_all add: mult.commute\<close>)
    ultimately show "k = j" by simp
  qed (use m in simp)
  then show "take n (drop (n * k) (patch_list (n * j) b xs)) ! m = (if k = j then b else take n (drop (n * k) xs)) ! m"
    using assms m by (auto simp: nth_patch_list length_patch_list)
qed (use assms in \<open>auto simp: length_patch_list\<close>)

lemma slot_patched:
  assumes "patched i (20 * j) b d d'" "length b = 20" "j < slot_cnt i" "k < slot_cnt i"
  shows "slot d' i k = (if k = j then bytes_entry b else slot d i k)"
proof -
  have c: "contents d' i = patch_list (20 * j) b (contents d i)"
    by (rule contents_patched [OF assms(1)]) (use slot_full [OF assms(3)] assms(2) in simp)
  have "take 20 (drop (20 * k) (patch_list (20 * j) b (contents d i))) = (if k = j then b else take 20 (drop (20 * k) (contents d i)))"
    by (rule patch_list_slot) (use assms(2) slot_full [OF assms(3)] slot_full [OF assms(4)] in simp_all)
  then show ?thesis by (simp add: slot_def c)
qed

lemma slot_short:
  assumes "patched i (20 * slot_cnt i) b d d'" "b = [] \<or> 20 * slot_cnt i + length b \<le> file_len i" "k < slot_cnt i"
  shows "slot d' i k = slot d i k"
proof -
  have k: "20 * k + 20 \<le> 20 * slot_cnt i" using assms(3) by linarith
  have "20 * slot_cnt i \<le> file_len i" by (simp add: slot_cnt_def)
  then have l: "length (take (20 * slot_cnt i) (contents d i)) = 20 * slot_cnt i" by simp
  have "20 - (20 * slot_cnt i - 20 * k) = 0" "min 20 (20 * slot_cnt i - 20 * k) = 20" using k by linarith+
  then have "take 20 (drop (20 * k) (patch_list (20 * slot_cnt i) b (contents d i))) = take 20 (drop (20 * k) (contents d i))"
    unfolding patch_list_def drop_append take_append length_drop l by (simp add: drop_take)
  then show ?thesis using contents_patched [OF assms(1,2)] by (simp add: slot_def)
qed

lemma find_cong: "(\<And>x. x \<in> set xs \<Longrightarrow> P x = Q x) \<Longrightarrow> find P xs = find Q xs"
  by (induction xs) auto

lemma find_unique: "j \<in> set xs \<Longrightarrow> (\<And>x. x \<in> set xs \<Longrightarrow> P x = (x = j)) \<Longrightarrow> find P xs = Some j"
  by (induction xs) auto

lemma dir_map_cong:
  assumes "\<And>k. k < slot_cnt i \<Longrightarrow> slot d' i k = slot d i k"
  shows "dir_map d' i = dir_map d i"
proof
  fix name
  have "find (entry_for name d' i) [0..<slot_cnt i] = find (entry_for name d i) [0..<slot_cnt i]"
    by (rule find_cong) (simp add: entry_for_def assms)
  then show "dir_map d' i name = dir_map d i name" by (auto simp: dir_map_def find_Some_iff assms intro!: option.map_cong)
qed

lemma dir_map_insert:
  assumes "j < slot_cnt i" "\<not> in_use (slot d i j)" "dir_map d i name = None" "0 \<notin> set name" "0 \<notin> set n"
    "de_name e = name @ [0] @ xs" "in_use e" "\<And>k. k < slot_cnt i \<Longrightarrow> slot d' i k = (if k = j then e else slot d i k)"
  shows "dir_map d' i n = (if n = name then Some (inode_sector e) else dir_map d i n)"
proof -
  have e: "entry_for n d' i k = (if k = j then n = name else entry_for n d i k)" if "k < slot_cnt i" for k
    using that assms(7,8) same_name_prefix [OF assms(4,5,6)] by (simp add: entry_for_def)
  show ?thesis
  proof (cases "n = name")
    case True
    have "\<not> entry_for name d i k" if "k < slot_cnt i" for k using assms(3) that by (auto simp: dir_map_def find_None_iff)
    then have "find (entry_for n d' i) [0..<slot_cnt i] = Some j" using e assms(1) True by (intro find_unique) auto
    then show ?thesis using True assms(1,8) by (simp add: dir_map_def)
  next
    case False
    have "find (entry_for n d' i) [0..<slot_cnt i] = find (entry_for n d i) [0..<slot_cnt i]"
      by (rule find_cong) (use e False assms(2) in \<open>auto simp: entry_for_def\<close>)
    moreover have "slot d' i k = slot d i k" if "find (entry_for n d i) [0..<slot_cnt i] = Some k" for k
      using that assms(2,8) by (auto simp: find_Some_iff entry_for_def)
    ultimately show ?thesis using False by (cases "find (entry_for n d i) [0..<slot_cnt i]") (simp_all add: dir_map_def)
  qed
qed

lemma dir_add_spec:
  assumes "ready ip i s" "dirs s p = Some dd" "dir_inode dd = ip" "p \<noteq> NULL" "deny_write_cnt i = 0" "length stack = 20" "0 \<notin> set name"
  defines "ok \<equiv> name \<noteq> [] \<and> length name \<le> NAME_MAX \<and> dir_map (dev s) i name = None \<and> (\<exists>k < slot_cnt i. \<not> in_use (slot (dev s) i k))"
  shows "\<exists>d h k bs. dir_add stack p name sector s = Some (ok, s\<lparr>dev := d, heap_next := h\<rparr>) \<and> patched i k bs (dev s) d
    \<and> (\<forall>n. 0 \<notin> set n \<longrightarrow> dir_map d i n = (if ok \<and> n = name then Some sector else dir_map (dev s) i n))"
proof (cases "name = [] \<or> length name > NAME_MAX")
  case True
  then show ?thesis using patched_Nil [of "dev s" i 0] assms(1,4)
    by - (rule exI [where x = "dev s"], rule exI [where x = "heap_next s"], auto simp: dir_add_def ok_def ready_def)
next
  case False
  obtain r h where "lookup_loop ip name (int (20 * 0)) s =
    Some (map_option (\<lambda>j. (slot (dev s) i j, int (20 * j))) (find (entry_for name (dev s) i) [0..<slot_cnt i]),
      s\<lparr>dev := (dev s)\<lparr>read_cnt := r\<rparr>, heap_next := h\<rparr>)" using lookup_loop_spec [OF assms(1), of 0 name] by blast
  then have look: "lookup p name s = Some (map_option (\<lambda>j. (slot (dev s) i j, int (20 * j))) (find (entry_for name (dev s) i) [0..<slot_cnt i]),
      s\<lparr>dev := (dev s)\<lparr>read_cnt := r\<rparr>, heap_next := h\<rparr>)" using assms(2-4) by (simp add: lookup_def)
  let ?s = "s\<lparr>dev := (dev s)\<lparr>read_cnt := r\<rparr>, heap_next := h\<rparr>"
  have rp: "patched i k [] (dev s) ((dev s)\<lparr>read_cnt := r\<rparr>)" for k r
    using assms(1) by (auto simp: patched_def ready_def byte_at_def)
  show ?thesis
  proof (cases "find (entry_for name (dev s) i) [0..<slot_cnt i]")
    case (Some j)
    then have "dir_add stack p name sector s = Some (False, ?s)" using False look assms(4) by (simp add: dir_add_def)
    moreover have "\<not> ok" using Some by (simp add: ok_def dir_map_def)
    ultimately show ?thesis using rp [of 0 r] by - (rule exI [where x = "dev ?s"], rule exI [where x = h], auto)
  next
    case None
    then have free: "dir_map (dev s) i name = None" by (simp add: dir_map_def)
    obtain j e r' h' where fs: "free_slot ip (int (20 * 0)) stack ?s = Some (int (20 * j), e, ?s\<lparr>dev := (dev ?s)\<lparr>read_cnt := r'\<rparr>, heap_next := h'\<rparr>)"
      and j: "length e = 20" "j \<le> slot_cnt i" "\<forall>l. 0 \<le> l \<and> l < j \<longrightarrow> in_use (slot (dev ?s) i l)" "j < slot_cnt i \<longrightarrow> \<not> in_use (slot (dev ?s) i j)"
      using free_slot_spec [of ip i ?s 0 stack] assms(1,6) by auto
    define t where "t = s\<lparr>dev := (dev s)\<lparr>read_cnt := r'\<rparr>, heap_next := h'\<rparr>"
    have t: "ready ip i t" "dev t = (dev s)\<lparr>read_cnt := r'\<rparr>" using assms(1) by (simp_all add: t_def)
    define ne where "ne = set_name name ((bytes_entry e)\<lparr>in_use := True\<rparr>)\<lparr>inode_sector := sector\<rparr>"
    have nl: "length (de_name ((bytes_entry e)\<lparr>in_use := True\<rparr>)) = 15" using j(1) by (simp add: bytes_entry_def)
    have l14: "length name \<le> NAME_MAX" using False by simp
    note sn = set_name_simps [OF l14 nl]
    have ne: "length (de_name ne) = 15" "in_use ne" "inode_sector ne = sector"
      "de_name ne = name @ [0] @ drop (Suc (length name)) (de_name ((bytes_entry e)\<lparr>in_use := True\<rparr>))"
      using sn by (simp_all add: ne_def)
    note nb = entry_bytes_length [OF ne(1)] bytes_entry_bytes [OF ne(1)]
    obtain m d h'' where w: "inode_write_at ip (entry_bytes ne) 20 (int (20 * j)) t = Some (int m, t\<lparr>dev := d, heap_next := h''\<rparr>)"
      "patched i (20 * j) (take m (entry_bytes ne)) (dev t) d" "m = full_len 20 (20 * j) i"
      using inode_write_at_spec [of t ip i "int (20 * j)" 20 "entry_bytes ne"] t(1) assms(5) nb(1)
      by (auto simp: ready_def memory_ok_def simp del: of_nat_mult)
    have add: "dir_add stack p name sector s = Some (m = 20, t\<lparr>dev := d, heap_next := h''\<rparr>)"
      using False look None assms(2,3,4) fs w(1) by (auto simp: dir_add_def Let_def ne_def [symmetric] t_def [symmetric])
    have pt: "patched i (20 * j) (take m (entry_bytes ne)) (dev s) d"
      using patched_append [OF rp [of "20 * j" r'], of "take m (entry_bytes ne)" d] w(2) t(2) by simp
    have "(m = 20) = ok \<and> (\<forall>n. 0 \<notin> set n \<longrightarrow> dir_map d i n = (if ok \<and> n = name then Some sector else dir_map (dev s) i n))"
    proof (cases "j < slot_cnt i")
      case True
      have m: "m = 20" using slot_full [OF True] w(3) by (simp add: full_len_def)
      have okk: ok using True j(4) False free by (auto simp: ok_def)
      have sl: "slot d i k = (if k = j then ne else slot (dev s) i k)" if "k < slot_cnt i" for k
        using slot_patched [OF pt _ True that] nb m by simp
      have "dir_map d i n = (if n = name then Some sector else dir_map (dev s) i n)" if "0 \<notin> set n" for n
        using dir_map_insert [OF True _ free assms(7) that ne(4,2) sl] j(4) True ne(3) by simp
      then show ?thesis using m okk by simp
    next
      case False
      then have je: "j = slot_cnt i" using j(2) by simp
      have m: "m < 20" using slot_past [of i] w(3) by (simp add: full_len_def je)
      have nok: "\<not> ok" using j(3) je by (auto simp: ok_def)
      have "dir_map d i = dir_map (dev s) i"
      proof (rule dir_map_cong)
        fix k assume k: "k < slot_cnt i"
        show "slot d i k = slot (dev s) i k"
          by (rule slot_short [OF pt [unfolded je] _ k]) (use w(3) in \<open>auto simp: full_len_def je\<close>)
      qed
      then show ?thesis using m nok by simp
    qed
    then show ?thesis using add pt unfolding t_def
      by - (rule exI [where x = d], rule exI [where x = h''], auto)
  qed
qed

section \<open>The contract of a directory\<close>

text \<open>What \<open>filesys.c\<close> relies on: names are looked up and added, and a name that is present cannot be added.\<close>

locale name_table =
  fixes inv :: "'s \<Rightarrow> bool" and names :: "'s \<Rightarrow> u8 list \<Rightarrow> u32 option"
    and look :: "u8 list \<Rightarrow> 's \<Rightarrow> (u32 option \<times> 's) option" and add :: "u8 list \<Rightarrow> u32 \<Rightarrow> 's \<Rightarrow> (bool \<times> 's) option"
  assumes look_names: "inv s \<Longrightarrow> \<exists>s'. look n s = Some (names s n, s') \<and> inv s' \<and> names s' = names s"
    and add_names: "inv s \<Longrightarrow> 0 \<notin> set n \<Longrightarrow> \<exists>ok s'. add n x s = Some (ok, s') \<and> inv s' \<and> (ok \<longrightarrow> names s n = None)
      \<and> (\<forall>m. 0 \<notin> set m \<longrightarrow> names s' m = (if ok \<and> m = n then Some x else names s m))"
begin

lemma add_look:
  assumes "inv s" "0 \<notin> set n" "0 \<notin> set m"
  shows "\<exists>ok s' s''. add n x s = Some (ok, s') \<and> look m s' = Some (if ok \<and> m = n then Some x else names s m, s'') \<and> inv s''"
proof -
  obtain ok s' where a: "add n x s = Some (ok, s')" "inv s'" "names s' m = (if ok \<and> m = n then Some x else names s m)"
    using add_names [OF assms(1,2), of x] assms(3) by blast
  obtain s'' where "look m s' = Some (names s' m, s'')" "inv s''" using look_names [OF a(2), of m] by blast
  then show ?thesis using a(1,3)
    by - (rule exI [where x = ok], rule exI [where x = s'], rule exI [where x = s''], simp)
qed

lemma add_twice:
  assumes "inv s" "0 \<notin> set n" "add n x s = Some (True, s')"
  shows "\<exists>s''. add n y s' = Some (False, s'')"
proof -
  have s': "inv s'" "names s' n = Some x" using add_names [OF assms(1,2), of x] assms(2,3) by auto
  from add_names [OF s'(1) assms(2), of y] s'(2) show ?thesis by auto
qed

end

text \<open>An open directory whose inode \<open>i\<close> has its sectors on the device; and memory for every bounce buffer besides.\<close>

definition dir_wf :: "ptr \<Rightarrow> inode \<Rightarrow> fs \<Rightarrow> bool" where
  "dir_wf p i s \<longleftrightarrow> p \<noteq> NULL \<and> deny_write_cnt i = 0
     \<and> (\<exists>dd. dirs s p = Some dd \<and> dev_ok (dev s) \<and> inodes s (dir_inode dd) = Some i \<and> inode_ok (dev s) i)"

definition dir_inv :: "ptr \<Rightarrow> inode \<Rightarrow> fs \<Rightarrow> bool" where
  "dir_inv p i s \<longleftrightarrow> dir_wf p i s \<and> memory_ok s"

lemma dir_inv_ready:
  "dir_inv p i s \<longleftrightarrow> p \<noteq> NULL \<and> deny_write_cnt i = 0 \<and> (\<exists>dd. dirs s p = Some dd \<and> ready (dir_inode dd) i s)"
  by (auto simp: dir_inv_def dir_wf_def ready_def)

definition find_sector :: "ptr \<Rightarrow> u8 list \<Rightarrow> fs \<Rightarrow> (u32 option \<times> fs) option" where
  "find_sector p name s = do { (r, s) \<leftarrow> lookup p name s; Some (map_option (\<lambda>(e, _). inode_sector e) r, s) }"

lemma find_sector_spec:
  assumes "dir_inv p i s"
  shows "\<exists>r h. find_sector p name s = Some (dir_map (dev s) i name, s\<lparr>dev := (dev s)\<lparr>read_cnt := r\<rparr>, heap_next := h\<rparr>)"
proof -
  obtain dd where dd: "p \<noteq> NULL" "dirs s p = Some dd" "ready (dir_inode dd) i s" using assms by (auto simp: dir_inv_ready)
  obtain r h where "lookup_loop (dir_inode dd) name (int (20 * 0)) s =
    Some (map_option (\<lambda>j. (slot (dev s) i j, int (20 * j))) (find (entry_for name (dev s) i) [0..<slot_cnt i]),
      s\<lparr>dev := (dev s)\<lparr>read_cnt := r\<rparr>, heap_next := h\<rparr>)" using lookup_loop_spec [OF dd(3), of 0 name] by blast
  then show ?thesis using dd by (auto simp: find_sector_def lookup_def dir_map_def option.map_comp comp_def)
qed

lemma dir_inv_frame:
  assumes "dir_inv p i s" "patched i k bs (dev s) d"
  shows "dir_inv p i (s\<lparr>dev := d, heap_next := h\<rparr>)"
  using assms by (auto simp: dir_inv_ready ready_def memory_ok_def inode_ok_def patched_def)

interpretation dm: name_table "dir_inv p i" "\<lambda>s. dir_map (dev s) i" "find_sector p" "dir_add (replicate 20 c) p" for p i c
proof
  fix s :: fs and n
  assume "dir_inv p i s"
  moreover from this have "dir_inv p i (s\<lparr>dev := (dev s)\<lparr>read_cnt := r\<rparr>, heap_next := h\<rparr>)" for r h
    by (auto simp: dir_inv_ready)
  ultimately show "\<exists>s'. find_sector p n s = Some (dir_map (dev s) i n, s') \<and> dir_inv p i s' \<and> dir_map (dev s') i = dir_map (dev s) i"
    using find_sector_spec [of p i s n] by fastforce
next
  fix s :: fs and n :: "u8 list" and x
  assume a: "dir_inv p i s" "0 \<notin> set n"
  then obtain dd where dd: "p \<noteq> NULL" "dirs s p = Some dd" "ready (dir_inode dd) i s" "deny_write_cnt i = 0" by (auto simp: dir_inv_ready)
  from dir_add_spec [OF dd(3,2) refl dd(1,4), of "replicate 20 c" n x] a(2) dir_inv_frame [OF a(1)]
  show "\<exists>ok s'. dir_add (replicate 20 c) p n x s = Some (ok, s') \<and> dir_inv p i s' \<and> (ok \<longrightarrow> dir_map (dev s) i n = None)
      \<and> (\<forall>m. 0 \<notin> set m \<longrightarrow> dir_map (dev s') i m = (if ok \<and> m = n then Some x else dir_map (dev s) i m))"
    by fastforce
qed

section \<open>Properties\<close>

text \<open>
  The bytes of an inode and of a directory entry: an inode takes exactly one sector and a directory entry
  20 bytes, and reading back what was written gives the same structure.
\<close>

lemma on_disk_layout:
  assumes "length (d_unused n) = 125" "- (2 ^ 31) \<le> d_length n" "d_length n < 2 ^ 31" "length (de_name e) = NAME_MAX + 1"
  shows "int (length (inode_disk_bytes n)) = BLOCK_SECTOR_SIZE \<and> bytes_inode_disk (inode_disk_bytes n) = n
    \<and> length (entry_bytes e) = 20 \<and> bytes_entry (entry_bytes e) = e"
proof -
  have "sint (word_of_int (d_length n) :: u32) = d_length n"
    using assms(2,3) by (simp add: sint_sbintrunc' signed_take_bit_int_eq_self)
  then have "bytes_inode_disk (inode_disk_bytes n) = n"
    using assms(1) bytes_words_words_bytes [of "d_unused n" "[]"] by (simp add: bytes_inode_disk_def inode_disk_bytes_def of_le32_le32)
  moreover have "int (length (inode_disk_bytes n)) = BLOCK_SECTOR_SIZE"
    using assms(1) by (simp add: inode_disk_bytes_def BLOCK_SECTOR_SIZE_def length_words_bytes)
  ultimately show ?thesis using assms(4) entry_bytes_length bytes_entry_bytes by (simp add: NAME_MAX_def)
qed

text \<open>
  C15: a directory is a map, as long as \<open>malloc\<close> gives \<open>inode_read_at\<close> and \<open>inode_write_at\<close> their bounce
  buffers (without them \<open>dir_add\<close> may destroy entries).  \<open>dir_add\<close> returns true exactly when the name is not empty, not too long
  and not present, and a slot is free.  Then the name is found with the new sector; every other
  name is found as before, as it is when \<open>dir_add\<close> returns false.
\<close>

theorem directory_is_a_map:
  assumes "dir_wf p i s" "memory_ok s" "length stack = 20" "0 \<notin> set name" "0 \<notin> set n"
  shows "\<exists>ok s' r s''. dir_add stack p name sector s = Some (ok, s')
    \<and> (ok \<longleftrightarrow> name \<noteq> [] \<and> length name \<le> NAME_MAX \<and> dir_map (dev s) i name = None \<and> (\<exists>k < slot_cnt i. \<not> in_use (slot (dev s) i k)))
    \<and> lookup p n s' = Some (r, s'')
    \<and> map_option (\<lambda>(e, _). inode_sector e) r = (if ok \<and> n = name then Some sector else dir_map (dev s) i n)
    \<and> dir_wf p i s' \<and> memory_ok s' \<and> dir_wf p i s'' \<and> memory_ok s''"
proof -
  have inv0: "dir_inv p i s" using assms(1,2) by (simp add: dir_inv_def)
  then obtain dd where dd: "p \<noteq> NULL" "dirs s p = Some dd" "ready (dir_inode dd) i s" "deny_write_cnt i = 0" by (auto simp: dir_inv_ready)
  obtain ok d h k bs where a: "dir_add stack p name sector s = Some (ok, s\<lparr>dev := d, heap_next := h\<rparr>)" "patched i k bs (dev s) d"
    "\<forall>n. 0 \<notin> set n \<longrightarrow> dir_map d i n = (if ok \<and> n = name then Some sector else dir_map (dev s) i n)"
    "ok \<longleftrightarrow> name \<noteq> [] \<and> length name \<le> NAME_MAX \<and> dir_map (dev s) i name = None \<and> (\<exists>k < slot_cnt i. \<not> in_use (slot (dev s) i k))"
    using dir_add_spec [OF dd(3,2) refl dd(1,4) assms(3,4), of sector] by blast
  define s' where "s' = s\<lparr>dev := d, heap_next := h\<rparr>"
  have inv: "dir_inv p i s'" using dir_inv_frame [OF inv0 a(2)] by (simp add: s'_def)
  obtain s'' where f: "find_sector p n s' = Some (dir_map (dev s') i n, s'')" "dir_inv p i s''"
    using dm.look_names [OF inv, of n] by blast
  then obtain r where "lookup p n s' = Some (r, s'')" "map_option (\<lambda>(e, _). inode_sector e) r = dir_map (dev s') i n"
    by (auto simp: find_sector_def ret_simps)
  then show ?thesis using a inv f(2) assms(5) by (auto simp: s'_def dir_inv_def)
qed

definition dir_fs :: fs where
  "dir_fs = small_fs\<lparr>dirs := [7 \<mapsto> \<lparr>dir_inode = 5, dir_pos = 0\<rparr>]\<rparr>"

lemma dir_fs_ok: "dir_wf 7 small_inode dir_fs \<and> memory_ok dir_fs" "\<exists>k < slot_cnt small_inode. \<not> in_use (slot (dev dir_fs) small_inode k)"
  "dir_map (dev dir_fs) small_inode name = None"
proof -
  show "dir_wf 7 small_inode dir_fs \<and> memory_ok dir_fs" using small_fs_ok by (simp add: dir_wf_def dir_fs_def memory_ok_def)
  have u: "\<not> in_use (slot (dev dir_fs) small_inode k)" if "k < slot_cnt small_inode" for k
    using slot_full [OF that] small_fs_ok(5)
    by (simp add: slot_def bytes_entry_def contents_nth byte_at_def) (simp add: dir_fs_def small_fs_def)
  show "\<exists>k < slot_cnt small_inode. \<not> in_use (slot (dev dir_fs) small_inode k)"
    using u [of 0] by (intro exI [of _ 0]) (simp add: slot_cnt_def small_fs_ok)
  show "dir_map (dev dir_fs) small_inode name = None" using u by (auto simp: dir_map_def find_None_iff entry_for_def)
qed

theorem directory_is_a_map_witness:
  "\<exists>s' e ofs s''. dir_add (replicate 20 0) 7 [97] 9 dir_fs = Some (True, s') \<and> lookup 7 [97] s' = Some (Some (e, ofs), s'') \<and> inode_sector e = 9"
  using directory_is_a_map [of 7 small_inode dir_fs "replicate 20 0" "[97]" "[97]" 9] dir_fs_ok by (auto simp: NAME_MAX_def)

section \<open>When memory runs out\<close>

lemma lookup_frame:
  assumes "lookup_loop ip name ofs s = Some y" "0 \<le> ofs" "dev_ok (dev s)" "inodes s ip = Some i" "inode_ok (dev s) i"
  shows "\<exists>r h. snd y = s\<lparr>dev := (dev s)\<lparr>read_cnt := r\<rparr>, heap_next := h\<rparr>"
  using assms
proof (induction rule: lookup_loop.raw_induct [rotated, consumes 1, case_names 1])
  case (1 loop ip name ofs s y)
  obtain bs r h where rd: "inode_read_at ip 20 ofs s = Some (bs, s\<lparr>dev := (dev s)\<lparr>read_cnt := r\<rparr>, heap_next := h\<rparr>)"
    using inode_read_at_spec [OF 1(4,5,6,3), of 20] by blast
  let ?s = "s\<lparr>dev := (dev s)\<lparr>read_cnt := r\<rparr>, heap_next := h\<rparr>"
  have "snd y = ?s \<or> loop ip name (ofs + 20) ?s = Some y"
    using 1(2) by (auto simp: rd Let_def split: if_splits)
  moreover have "\<exists>r h. snd y = ?s\<lparr>dev := (dev ?s)\<lparr>read_cnt := r\<rparr>, heap_next := h\<rparr>" if "loop ip name (ofs + 20) ?s = Some y"
    by (rule 1(1) [OF that]) (use 1(3-6) in \<open>simp_all add: inode_ok_def\<close>)
  ultimately show ?case by auto
qed

lemma read_first_fails:
  assumes "inodes s ip = Some i" "0 \<le> inode_length i" "20 \<le> file_len i" "\<not> heap_ok s (heap_next s)"
  shows "inode_read_at ip 20 0 s = Some ([], s\<lparr>heap_next := Suc (heap_next s)\<rparr>)"
proof -
  have "chunk_len 20 0 i = 20" using assms(3) by (simp add: chunk_len_def)
  then show ?thesis using assms inode_read_step [of i 20 0 False "[]" s]
    by (simp add: inode_read_at_def need_bounce_def malloc_def Let_def)
qed

text \<open>
  C38: a short read is not always the end of the file.  The comment in \<open>dir_add\<close> says that
  \<open>inode_read_at\<close> returns fewer bytes than asked for only at the end of the file; it also does so when
  no memory is left for its bounce buffer.  If that happens to the first read of the search for a free
  slot, after the name was looked up and not found, and the allocation for the write succeeds again, \<open>dir_add\<close>
  takes the first slot for free and reports success: a name whose entry was there is lost.
\<close>

theorem dir_add_low_memory_overwrites:
  assumes "dir_wf p i s" "length stack = 20" "name \<noteq> []" "length name \<le> NAME_MAX" "0 \<notin> set name" "0 \<notin> set n" "n \<noteq> name"
    and "lookup p name s = Some (None, s1)" "\<not> heap_ok s1 (heap_next s1)" "heap_ok s1 (Suc (heap_next s1))"
    and "0 < slot_cnt i" "entry_for n (dev s) i 0" "\<forall>k. 0 < k \<and> k < slot_cnt i \<longrightarrow> \<not> entry_for n (dev s) i k"
  shows "dir_map (dev s) i n = Some (inode_sector (slot (dev s) i 0))
    \<and> (\<exists>s'. dir_add stack p name sector s = Some (True, s') \<and> dir_map (dev s') i n = None)"
proof -
  obtain dd where dd: "p \<noteq> NULL" "deny_write_cnt i = 0" "dirs s p = Some dd" "dev_ok (dev s)" "inodes s (dir_inode dd) = Some i" "inode_ok (dev s) i"
    using assms(1) by (auto simp: dir_wf_def)
  have "lookup_loop (dir_inode dd) name 0 s = Some (None, s1)" using assms(8) dd by (simp add: lookup_def)
  from lookup_frame [OF this _ dd(4,5,6)] obtain r h where s1: "s1 = s\<lparr>dev := (dev s)\<lparr>read_cnt := r\<rparr>, heap_next := h\<rparr>" by auto
  have i20: "20 \<le> file_len i" "0 \<le> inode_length i" using slot_full [OF assms(11)] dd(6) by (simp_all add: inode_ok_def)
  define t where "t = s1\<lparr>heap_next := Suc (heap_next s1)\<rparr>"
  have t: "dev_ok (dev t)" "inodes t (dir_inode dd) = Some i" "inode_ok (dev t) i" "heap_ok t (heap_next t)"
    using dd assms(10) by (simp_all add: t_def s1 inode_ok_def)
  have "inode_read_at (dir_inode dd) 20 0 s1 = Some ([], t)"
    unfolding t_def by (rule read_first_fails [OF _ i20(2,1) assms(9)]) (simp add: s1 dd)
  then have fs: "free_slot (dir_inode dd) 0 stack s1 = Some (0, stack, t)" by (subst free_slot.simps) simp
  define e where "e = set_name name ((bytes_entry stack)\<lparr>in_use := True\<rparr>)\<lparr>inode_sector := sector\<rparr>"
  have nl: "length (de_name ((bytes_entry stack)\<lparr>in_use := True\<rparr>)) = 15" using assms(2) by (simp add: bytes_entry_def)
  note sn = set_name_simps [OF assms(4) nl]
  have e: "length (de_name e) = 15" "de_name e = name @ [0] @ drop (Suc (length name)) (de_name ((bytes_entry stack)\<lparr>in_use := True\<rparr>))"
    using sn by (simp_all add: e_def)
  note nb = entry_bytes_length [OF e(1)] bytes_entry_bytes [OF e(1)]
  obtain m d h' where w: "inode_write_at (dir_inode dd) (entry_bytes e) 20 0 t = Some (int m, t\<lparr>dev := d, heap_next := h'\<rparr>)"
    "patched i (nat 0) (take m (entry_bytes e)) (dev t) d" "heap_ok t (heap_next t) \<longrightarrow> m = full_len (nat 20) (nat 0) i"
    using inode_write_at_spec [OF t(1-3), of 0 20 "entry_bytes e"] nb(1) dd(2) by auto
  have m: "m = 20" using w(3) t(4) i20(1) by (simp add: full_len_def)
  have add: "dir_add stack p name sector s = Some (True, t\<lparr>dev := d, heap_next := h'\<rparr>)"
    using assms(3,4,8) dd(1,3) fs w(1) m by (simp add: dir_add_def s1 e_def [symmetric])
  have sl: "slot d i k = (if k = 0 then e else slot (dev s) i k)" if "k < slot_cnt i" for k
    using slot_patched [of i 0 "entry_bytes e" "dev t" d k] w(2) m nb assms(11) that by (simp add: t_def s1)
  have "\<not> entry_for n d i k" if "k < slot_cnt i" for k
    using sl [OF that] that assms(13) same_name_prefix [OF assms(5,6) e(2)] assms(7) by (cases "k = 0") (simp_all add: entry_for_def)
  then have "dir_map d i n = None" by (auto simp: dir_map_def find_None_iff)
  moreover have "find (entry_for n (dev s) i) [0..<slot_cnt i] = Some 0" using assms(11-13) by (intro find_unique) auto
  then have "dir_map (dev s) i n = Some (inode_sector (slot (dev s) i 0))" by (simp add: dir_map_def)
  ultimately show ?thesis using add by auto
qed

text \<open>A directory with one slot, which holds the name \<open>a\<close>, on a machine where the second allocation fails.\<close>

definition one_inode :: inode where
  "one_inode = small_inode\<lparr>i_data := (i_data small_inode)\<lparr>d_length := 20\<rparr>\<rparr>"

definition one_entry :: "u8 list" where
  "one_entry = entry_bytes \<lparr>inode_sector = 9, de_name = 97 # replicate 14 0, in_use = True\<rparr>"

definition low_fs :: fs where
  "low_fs = dir_fs\<lparr>inodes := [5 \<mapsto> one_inode], heap_ok := (\<lambda>n. n \<noteq> 11),
     dev := (dev dir_fs)\<lparr>blk_data := (\<lambda>_. replicate 512 0)(2 := one_entry @ replicate 492 0)\<rparr>\<rparr>"

lemma one_inode_simps: "file_len one_inode = 20" "inode_length one_inode = 20" "sector_of one_inode 0 = 2" "deny_write_cnt one_inode = 0"
  "chunk_len 20 0 one_inode = 20"
  by (simp_all add: one_inode_def small_inode_def file_len_def inode_length_def sector_of_def chunk_len_def)

lemma low_read:
  assumes "inodes s 5 = Some one_inode" "2 < blk_size (dev s)"
  shows "inode_read_at 5 20 0 s = (if heap_ok s (heap_next s)
      then Some (take 20 (blk_data (dev s) 2), s\<lparr>dev := (dev s)\<lparr>read_cnt := read_cnt (dev s) + 1\<rparr>, heap_next := Suc (heap_next s)\<rparr>)
      else Some ([], s\<lparr>heap_next := Suc (heap_next s)\<rparr>))"
    "inode_read_at 5 20 20 s = Some ([], s)"
  using assms inode_read_step [of one_inode 20 0 False "[]" s] inode_read_step [of one_inode 20 20 False "[]" s]
    inode_read_step [of one_inode 0 20 True "take 20 (blk_data (dev s) 2)"]
  by (simp_all add: inode_read_at_def one_inode_simps need_bounce_def malloc_def block_read_ok dev_heap_next Let_def)

lemma low_fs_simps:
  "inodes low_fs 5 = Some one_inode" "dirs low_fs 7 = Some \<lparr>dir_inode = 5, dir_pos = 0\<rparr>" "heap_next low_fs = 10"
  "heap_ok low_fs n = (n \<noteq> 11)" "blk_size (dev low_fs) = 8" "blk_data (dev low_fs) 2 = one_entry @ replicate 492 0" "dev_ok (dev low_fs)"
  "inode_ok (dev low_fs) one_inode" "slot_cnt one_inode = 1"
proof -
  have "length one_entry = 20" by (simp add: one_entry_def entry_bytes_def)
  then show "dev_ok (dev low_fs)" by (simp add: low_fs_def dir_fs_def small_fs_def dev_ok_def)
qed (simp_all add: low_fs_def dir_fs_def small_fs_def inode_ok_def slot_cnt_def sector_cnt_def one_inode_simps,
     simp add: one_inode_def small_inode_def)

lemma one_entry_simps: "take 20 (one_entry @ xs) = one_entry" "length one_entry = 20" "in_use (bytes_entry one_entry)"
    "de_name (bytes_entry one_entry) = 97 # replicate 14 0" "inode_sector (bytes_entry one_entry) = 9"
  using bytes_entry_bytes [of "\<lparr>inode_sector = 9, de_name = 97 # replicate 14 0, in_use = True\<rparr>"]
  by (simp_all add: one_entry_def entry_bytes_length)

lemma low_lookup:
  "lookup 7 [98] low_fs = Some (None, low_fs\<lparr>dev := (dev low_fs)\<lparr>read_cnt := read_cnt (dev low_fs) + 1\<rparr>, heap_next := 11\<rparr>)"
proof -
  have "\<not> same_name [98] (bytes_entry one_entry)" by (simp add: same_name_def one_entry_simps)
  then show ?thesis
    by (simp add: lookup_def low_fs_simps lookup_loop.simps [of 5 "[98]" 0] lookup_loop.simps [of 5 "[98]" 20] low_read one_entry_simps)
qed

theorem dir_add_low_memory_overwrites_witness:
  "dir_map (dev low_fs) one_inode [97] = Some 9
   \<and> (\<exists>s'. dir_add (replicate 20 0) 7 [98] 3 low_fs = Some (True, s') \<and> dir_map (dev s') one_inode [97] = None)"
proof -
  have c: "contents (dev low_fs) one_inode = one_entry"
    using byte_at_slice [of 0 20 "dev low_fs" one_inode] low_fs_simps(6) one_entry_simps(1,2)
    by (simp add: contents_def one_inode_simps)
  have s0: "slot (dev low_fs) one_inode 0 = bytes_entry one_entry" by (simp add: slot_def c one_entry_simps(2))
  have w: "dir_wf 7 one_inode low_fs" using low_fs_simps by (simp add: dir_wf_def one_inode_simps)
  show ?thesis
    using dir_add_low_memory_overwrites [OF w _ _ _ _ _ _ low_lookup, of "replicate 20 0" "[97]" 3] s0
    by (auto simp: low_fs_simps NAME_MAX_def entry_for_def same_name_def one_entry_simps)
qed

end
