(* ===== verification/Ctype.thy ===== *)
theory Ctype
  imports Prelude
begin

text \<open>Classification of characters (\<open>lib/ctype.h\<close>) and \<open>atoi\<close> (\<open>lib/stdlib.c\<close>).  A character is its code.\<close>

section \<open>Characters\<close>

definition islower :: "int \<Rightarrow> bool" where "islower c \<longleftrightarrow> 97 \<le> c \<and> c \<le> 122"
definition isupper :: "int \<Rightarrow> bool" where "isupper c \<longleftrightarrow> 65 \<le> c \<and> c \<le> 90"
definition isalpha :: "int \<Rightarrow> bool" where "isalpha c \<longleftrightarrow> islower c \<or> isupper c"
definition isdigit :: "int \<Rightarrow> bool" where "isdigit c \<longleftrightarrow> 48 \<le> c \<and> c \<le> 57"
definition isalnum :: "int \<Rightarrow> bool" where "isalnum c \<longleftrightarrow> isalpha c \<or> isdigit c"
definition isxdigit :: "int \<Rightarrow> bool" where "isxdigit c \<longleftrightarrow> isdigit c \<or> (97 \<le> c \<and> c \<le> 102) \<or> (65 \<le> c \<and> c \<le> 70)"
definition isspace :: "int \<Rightarrow> bool" where "isspace c \<longleftrightarrow> c = 32 \<or> c = 12 \<or> c = 10 \<or> c = 13 \<or> c = 9 \<or> c = 11"
definition isblank :: "int \<Rightarrow> bool" where "isblank c \<longleftrightarrow> c = 32 \<or> c = 9"
definition isgraph :: "int \<Rightarrow> bool" where "isgraph c \<longleftrightarrow> 32 < c \<and> c < 127"
definition isprint :: "int \<Rightarrow> bool" where "isprint c \<longleftrightarrow> 32 \<le> c \<and> c < 127"
definition iscntrl :: "int \<Rightarrow> bool" where "iscntrl c \<longleftrightarrow> (0 \<le> c \<and> c < 32) \<or> c = 127"
definition isascii :: "int \<Rightarrow> bool" where "isascii c \<longleftrightarrow> 0 \<le> c \<and> c < 128"
definition ispunct :: "int \<Rightarrow> bool" where "ispunct c \<longleftrightarrow> isprint c \<and> \<not> isalnum c \<and> \<not> isspace c"
definition tolower :: "int \<Rightarrow> int" where "tolower c = (if isupper c then c - 65 + 97 else c)"
definition toupper :: "int \<Rightarrow> int" where "toupper c = (if islower c then c - 97 + 65 else c)"

abbreviation code :: "char \<Rightarrow> int" where "code c \<equiv> int (of_char c)"

lemma ctype_partition:
  "isascii c \<longleftrightarrow> iscntrl c \<or> isprint c" "isprint c \<longleftrightarrow> c = 32 \<or> isalnum c \<or> ispunct c" "\<not> (iscntrl c \<and> isprint c)"
  "toupper (tolower c) = toupper c" "tolower (toupper c) = tolower c"
  by (auto simp: isascii_def iscntrl_def isprint_def ispunct_def isalnum_def isalpha_def isdigit_def islower_def isupper_def isspace_def
      toupper_def tolower_def)

section \<open>Reading a number\<close>

text \<open>Signed overflow is undefined in C and makes the model return \<open>None\<close>.\<close>

definition in_int :: "int \<Rightarrow> bool" where "in_int v \<longleftrightarrow> - (2 ^ 31) \<le> v \<and> v < 2 ^ 31"

fun atoi_digits :: "string \<Rightarrow> int \<Rightarrow> int option" where
  "atoi_digits [] v = Some v"
| "atoi_digits (c # s) v = (if isdigit (code c) then do {
     let v' = v * 10 - (code c - 48);
     kassert (in_int (v * 10) \<and> in_int v');
     atoi_digits s v' } else Some v)"

definition atoi :: "string \<Rightarrow> int option" where
  "atoi s = do {
     let s = dropWhile (\<lambda>c. isspace (code c)) s;
     let (negative, s) = (case s of c # r \<Rightarrow> if c = CHR ''+'' then (False, r) else if c = CHR ''-'' then (True, r) else (False, s) | [] \<Rightarrow> (False, s));
     v \<leftarrow> atoi_digits s 0;
     if negative then Some v else do { kassert (in_int (- v)); Some (- v) } }"

end
