(* ===== verification/Stdio.thy ===== *)
theory Stdio
  imports Ctype
begin

text \<open>
  Formatted output (\<open>lib/stdio.c\<close>).  A conversion calls \<open>output\<close> once per character; the model returns the
  sequence of characters it is called with, and \<open>vsnprintf\<close> and \<open>vprintf\<close> consume that sequence.
  Arguments are taken from a list of typed values; taking one of another type, signed overflow while
  a width is read and a format that ends within a conversion are undefined in C and give \<open>None\<close>.
\<close>

section \<open>Conversions\<close>

datatype pflag = MINUS | PLUS | SPACE | POUND | ZERO | GROUP

datatype ptype = CHAR_T | SHORT | INT_T | INTMAX | LONG | LONGLONG | PTRDIFFT | SIZET

record printf_conversion =
  cflags :: "pflag set"
  cwidth :: int
  cprecision :: int
  ctype :: ptype

record integer_base =
  ib_base :: nat
  ib_digits :: string
  ib_x :: "char option"
  ib_group :: nat

definition base_d :: integer_base where "base_d = \<lparr>ib_base = 10, ib_digits = ''0123456789'', ib_x = None, ib_group = 3\<rparr>"
definition base_o :: integer_base where "base_o = \<lparr>ib_base = 8, ib_digits = ''01234567'', ib_x = None, ib_group = 3\<rparr>"
definition base_x :: integer_base where "base_x = \<lparr>ib_base = 16, ib_digits = ''0123456789abcdef'', ib_x = Some (CHR ''x''), ib_group = 4\<rparr>"
definition base_X :: integer_base where "base_X = \<lparr>ib_base = 16, ib_digits = ''0123456789ABCDEF'', ib_x = Some (CHR ''X''), ib_group = 4\<rparr>"

datatype arg = Int32 u32 | Int64 u64 | Str "string option"

fun va_int :: "arg list \<Rightarrow> (u32 \<times> arg list) option" where
  "va_int (Int32 w # args) = Some (w, args)"
| "va_int _ = None"

fun va_long :: "arg list \<Rightarrow> (u64 \<times> arg list) option" where
  "va_long (Int64 w # args) = Some (w, args)"
| "va_long _ = None"

fun va_str :: "arg list \<Rightarrow> (string option \<times> arg list) option" where
  "va_str (Str s # args) = Some (s, args)"
| "va_str _ = None"

section \<open>Parsing a conversion\<close>

fun parse_flags :: "string \<Rightarrow> pflag set \<Rightarrow> pflag set \<times> string" where
  "parse_flags [] fl = (fl, [])"
| "parse_flags (c # f) fl =
     (if c = CHR ''-'' then parse_flags f (insert MINUS fl)
      else if c = CHR ''+'' then parse_flags f (insert PLUS fl)
      else if c = CHR '' '' then parse_flags f (insert SPACE fl)
      else if c = CHR ''#'' then parse_flags f (insert POUND fl)
      else if c = CHR ''0'' then parse_flags f (insert ZERO fl)
      else if c = CHR 0x27 then parse_flags f (insert GROUP fl)
      else (fl, c # f))"

fun parse_number :: "string \<Rightarrow> int \<Rightarrow> (int \<times> string) option" where
  "parse_number [] v = Some (v, [])"
| "parse_number (c # f) v = (if isdigit (code c) then do {
     kassert (in_int (v * 10 + code c));
     parse_number f (v * 10 + code c - 48) } else Some (v, c # f))"

definition parse_star :: "string \<Rightarrow> arg list \<Rightarrow> (int \<times> string \<times> arg list) option" where
  "parse_star f args = (if f \<noteq> [] \<and> hd f = CHR ''*'' then do { (w, args) \<leftarrow> va_int args; Some (sint w, tl f, args) }
     else do { (v, f) \<leftarrow> parse_number f 0; Some (v, f, args) })"

fun parse_type :: "string \<Rightarrow> ptype \<times> string" where
  "parse_type [] = (INT_T, [])"
| "parse_type (c # f) =
     (if c = CHR ''h'' then (if f \<noteq> [] \<and> hd f = CHR ''h'' then (CHAR_T, tl f) else (SHORT, f))
      else if c = CHR ''j'' then (INTMAX, f)
      else if c = CHR ''l'' then (if f \<noteq> [] \<and> hd f = CHR ''l'' then (LONGLONG, tl f) else (LONG, f))
      else if c = CHR ''t'' then (PTRDIFFT, f)
      else if c = CHR ''z'' then (SIZET, f)
      else (INT_T, c # f))"

definition parse_precision :: "string \<Rightarrow> arg list \<Rightarrow> (int \<times> string \<times> arg list) option" where
  "parse_precision f args = (if f \<noteq> [] \<and> hd f = CHR ''.'' then do {
       (p, f, args) \<leftarrow> parse_star (tl f) args;
       Some (if p < 0 then -1 else p, f, args) }
     else Some (-1, f, args))"

definition parse_conversion :: "string \<Rightarrow> arg list \<Rightarrow> (printf_conversion \<times> string \<times> arg list) option" where
  "parse_conversion f args = do {
     let (fl, f) = parse_flags f {};
     let fl = (if MINUS \<in> fl then fl - {ZERO} else fl);
     let fl = (if PLUS \<in> fl then fl - {SPACE} else fl);
     (width, f, args) \<leftarrow> parse_star f args;
     kassert (in_int (- width));
     let (width, fl) = (if width < 0 then (- width, insert MINUS fl) else (width, fl));
     (precision, f, args) \<leftarrow> parse_precision f args;
     let fl = (if precision \<ge> 0 then fl - {ZERO} else fl);
     let (t, f) = parse_type f;
     Some (\<lparr>cflags = fl, cwidth = width, cprecision = precision, ctype = t\<rparr>, f, args) }"

section \<open>Formatting\<close>

definition output_dup :: "char \<Rightarrow> int \<Rightarrow> string" where
  "output_dup ch cnt = replicate (nat cnt) ch"

text \<open>The digits in the order they enter the buffer, least significant first.\<close>

partial_function (option) digit_loop :: "nat \<Rightarrow> integer_base \<Rightarrow> bool \<Rightarrow> nat \<Rightarrow> string \<Rightarrow> string option" where
  "digit_loop v b grp digit_cnt buf =
     (if v > 0 then
        (let buf = (if grp \<and> digit_cnt > 0 \<and> digit_cnt mod ib_group b = 0 then buf @ '','' else buf) in
         digit_loop (v div ib_base b) b grp (digit_cnt + 1) (buf @ [ib_digits b ! (v mod ib_base b)]))
      else Some buf)"

text \<open>The buffer after the digits, the zeros of the precision and the leading zero of \<open>%#o\<close>.\<close>

definition integer_buf :: "nat \<Rightarrow> integer_base \<Rightarrow> printf_conversion \<Rightarrow> string option" where
  "integer_buf v b c = do {
     buf \<leftarrow> digit_loop v b (GROUP \<in> cflags c) 0 [];
     let precision = (if cprecision c < 0 then 1 else cprecision c);
     let buf = buf @ replicate (nat (min precision 63) - length buf) (CHR ''0'');
     let buf = (if POUND \<in> cflags c \<and> ib_base b = 8 \<and> (buf = [] \<or> last buf \<noteq> CHR ''0'') then buf @ ''0'' else buf);
     kassert (length buf \<le> 64);
     Some buf }"

definition format_integer :: "u64 \<Rightarrow> bool \<Rightarrow> bool \<Rightarrow> integer_base \<Rightarrow> printf_conversion \<Rightarrow> string option" where
  "format_integer v is_signed negative b c = do {
     let sign = (if is_signed then
         (if PLUS \<in> cflags c then (if negative then ''-'' else ''+'')
          else if SPACE \<in> cflags c then (if negative then ''-'' else '' '')
          else if negative then ''-'' else [])
       else []);
     let x = (if POUND \<in> cflags c \<and> v \<noteq> 0 then (case ib_x b of Some ch \<Rightarrow> [CHR ''0'', ch] | None \<Rightarrow> []) else []);
     buf \<leftarrow> integer_buf (unat v) b c;
     let pad_cnt = max 0 (cwidth c - int (length buf) - int (length x) - int (length sign));
     Some ((if MINUS \<notin> cflags c \<and> ZERO \<notin> cflags c then output_dup (CHR '' '') pad_cnt else [])
       @ sign @ x
       @ (if ZERO \<in> cflags c then output_dup (CHR ''0'') pad_cnt else [])
       @ rev buf
       @ (if MINUS \<in> cflags c then output_dup (CHR '' '') pad_cnt else [])) }"

definition format_string :: "string \<Rightarrow> printf_conversion \<Rightarrow> string" where
  "format_string s c = (let len = int (length s) in
     (if cwidth c > len \<and> MINUS \<notin> cflags c then output_dup (CHR '' '') (cwidth c - len) else [])
     @ s
     @ (if cwidth c > len \<and> MINUS \<in> cflags c then output_dup (CHR '' '') (cwidth c - len) else []))"

text \<open>The value of a signed conversion, extended to 64 bits.\<close>

definition signed_arg :: "ptype \<Rightarrow> arg list \<Rightarrow> (u64 \<times> arg list) option" where
  "signed_arg t args = (case t of
     CHAR_T \<Rightarrow> do { (w, args) \<leftarrow> va_int args; Some (scast (ucast w :: u8), args) }
   | SHORT \<Rightarrow> do { (w, args) \<leftarrow> va_int args; Some (scast (ucast w :: u16), args) }
   | INTMAX \<Rightarrow> va_long args
   | LONGLONG \<Rightarrow> va_long args
   | SIZET \<Rightarrow> do { (w, args) \<leftarrow> va_int args; Some (if unat w > 0x7fffffff then ucast w - 0xffffffff - 1 else ucast w, args) }
   | _ \<Rightarrow> do { (w, args) \<leftarrow> va_int args; Some (scast w, args) })"

definition unsigned_arg :: "ptype \<Rightarrow> arg list \<Rightarrow> (u64 \<times> arg list) option" where
  "unsigned_arg t args = (case t of
     CHAR_T \<Rightarrow> do { (w, args) \<leftarrow> va_int args; Some (ucast (ucast w :: u8), args) }
   | SHORT \<Rightarrow> do { (w, args) \<leftarrow> va_int args; Some (ucast (ucast w :: u16), args) }
   | INTMAX \<Rightarrow> va_long args
   | LONGLONG \<Rightarrow> va_long args
   | PTRDIFFT \<Rightarrow> do { (w, args) \<leftarrow> va_int args; Some (scast w AND 0xffffffff, args) }
   | _ \<Rightarrow> do { (w, args) \<leftarrow> va_int args; Some (ucast w, args) })"

text \<open>The \<open>switch\<close> on the conversion character.\<close>

definition convert :: "char \<Rightarrow> printf_conversion \<Rightarrow> arg list \<Rightarrow> (string \<times> arg list) option" where
  "convert k c args =
     (if k = CHR ''d'' \<or> k = CHR ''i'' then do {
        (v, args) \<leftarrow> signed_arg (ctype c) args;
        out \<leftarrow> format_integer (if sint v < 0 then - v else v) True (sint v < 0) base_d c;
        Some (out, args) }
      else if k \<in> {CHR ''o'', CHR ''u'', CHR ''x'', CHR ''X''} then do {
        (v, args) \<leftarrow> unsigned_arg (ctype c) args;
        let b = (if k = CHR ''o'' then base_o else if k = CHR ''u'' then base_d else if k = CHR ''x'' then base_x else base_X);
        out \<leftarrow> format_integer v False False b c;
        Some (out, args) }
      else if k = CHR ''c'' then do {
        (w, args) \<leftarrow> va_int args;
        Some (format_string [char_of (unat w)] c, args) }
      else if k = CHR ''s'' then do {
        (s, args) \<leftarrow> va_str args;
        let s = (case s of None \<Rightarrow> ''(null)'' | Some s \<Rightarrow> s);
        Some (format_string (if cprecision c < 0 then s else take (nat (cprecision c)) s) c, args) }
      else if k = CHR ''p'' then do {
        (w, args) \<leftarrow> va_int args;
        out \<leftarrow> format_integer (ucast w) False False base_x (c\<lparr>cflags := {POUND}\<rparr>);
        Some (out, args) }
      else if k \<in> {CHR ''f'', CHR ''e'', CHR ''E'', CHR ''g'', CHR ''G'', CHR ''n''} then Some (''<<no %'' @ [k] @ '' in kernel>>'', args)
      else Some (''<<no %'' @ [k] @ '' conversion>>'', args))"

lemma parse_flags_length: "length (snd (parse_flags f fl)) \<le> length f"
  by (induction f fl rule: parse_flags.induct) auto

lemma parse_number_length: "parse_number f v = Some (w, r) \<Longrightarrow> length r \<le> length f"
  by (induction f v rule: parse_number.induct) (auto simp: ret_simps split: if_splits)

lemma parse_star_length: "parse_star f args = Some (w, r, a) \<Longrightarrow> length r \<le> length f"
  by (auto simp: parse_star_def ret_simps split: if_splits dest: parse_number_length)

lemma parse_type_length: "length (snd (parse_type f)) \<le> length f"
  by (cases f rule: parse_type.cases) auto

lemma parse_precision_length: "parse_precision f args = Some (w, r, a) \<Longrightarrow> length r \<le> length f"
  by (auto simp: parse_precision_def ret_simps split: if_splits dest!: parse_star_length)

lemma parse_conversion_length:
  assumes "parse_conversion f args = Some (c, r, a)"
  shows "length r \<le> length f"
proof -
  obtain fl f1 where 1: "parse_flags f {} = (fl, f1)" by (cases "parse_flags f {}")
  obtain w f2 a1 where 2: "parse_star f1 args = Some (w, f2, a1)"
    using assms by (auto simp: parse_conversion_def 1 Let_def ret_simps)
  obtain p f3 a2 where 3: "parse_precision f2 a1 = Some (p, f3, a2)"
    using assms by (auto simp: parse_conversion_def 1 2 Let_def ret_simps split: if_splits)
  obtain t f4 where 4: "parse_type f3 = (t, f4)" by (cases "parse_type f3")
  have "r = f4" using assms by (auto simp: parse_conversion_def 1 2 3 4 Let_def ret_simps split: if_splits)
  then show ?thesis
    using parse_flags_length [of f "{}"] parse_star_length [OF 2] parse_precision_length [OF 3] parse_type_length [of f3] 1 4 by simp
qed

text \<open>\<open>__vprintf\<close>.\<close>

function vprintf_out :: "string \<Rightarrow> arg list \<Rightarrow> string option" where
  "vprintf_out [] args = Some []"
| "vprintf_out (ch # f) args =
     (if ch \<noteq> CHR ''%'' then map_option (Cons ch) (vprintf_out f args)
      else if f \<noteq> [] \<and> hd f = CHR ''%'' then map_option (Cons (CHR ''%'')) (vprintf_out (tl f) args)
      else (case parse_conversion f args of
          None \<Rightarrow> None
        | Some (c, [], args) \<Rightarrow> None
        | Some (c, k # f, args) \<Rightarrow> (case convert k c args of
              None \<Rightarrow> None
            | Some (out, args) \<Rightarrow> map_option (append out) (vprintf_out f args))))"
  by pat_completeness auto
termination
proof (relation "measure (\<lambda>(f, args). length f)")
  fix ch :: char and f args c a k r ar x out
  show "wf (measure (\<lambda>(f, args :: arg list). length (f :: string)))" by simp
qed (auto dest: parse_conversion_length)

declare vprintf_out.simps [simp del]

section \<open>Output\<close>

text \<open>The counter is an \<open>int\<close> in the code; outputs of 2 GB and more, which would overflow it, are left out of account.\<close>

record vsnprintf_aux =
  stored :: string
  aux_length :: int
  max_length :: int

definition vsnprintf_helper :: "char \<Rightarrow> vsnprintf_aux \<Rightarrow> vsnprintf_aux" where
  "vsnprintf_helper ch a = (let b = a\<lparr>aux_length := aux_length a + 1\<rparr> in
     if aux_length a < max_length a then b\<lparr>stored := stored a @ [ch]\<rparr> else b)"

text \<open>What is stored in the buffer, and the result.\<close>

definition vsnprintf :: "u32 \<Rightarrow> string \<Rightarrow> arg list \<Rightarrow> (string \<times> int) option" where
  "vsnprintf buf_size format args = do {
     out \<leftarrow> vprintf_out format args;
     let a = fold vsnprintf_helper out \<lparr>stored = [], aux_length = 0, max_length = (if buf_size > 0 then sint (buf_size - 1) else 0)\<rparr>;
     Some (if buf_size > 0 then stored a @ [CHR 0x00] else stored a, aux_length a) }"

definition snprintf :: "u32 \<Rightarrow> string \<Rightarrow> arg list \<Rightarrow> (string \<times> int) option" where
  "snprintf buf_size format args = vsnprintf buf_size format args"

text \<open>\<open>hex_dump\<close>, line by line, and \<open>print_human_readable_size\<close>: what they print.\<close>

fun hex_bytes :: "nat \<Rightarrow> u8 list \<Rightarrow> string option" where
  "hex_bytes i [] = Some []"
| "hex_bytes i (b # bs) = do {
     s \<leftarrow> vprintf_out ''%02hhx%c'' [Int32 (ucast b), Int32 (if i = 7 then 45 else 32)];
     r \<leftarrow> hex_bytes (Suc i) bs;
     Some (s @ r) }"

definition hex_ascii :: "nat \<Rightarrow> u8 list \<Rightarrow> string" where
  "hex_ascii start bs = concat (replicate (16 - (start + length bs)) ''   '') @ ''|'' @ replicate start (CHR '' '')
     @ map (\<lambda>b. if isprint (uint b) then char_of (unat b) else CHR ''.'') bs
     @ replicate (16 - (start + length bs)) (CHR '' '') @ ''|''"

function hex_dump :: "u32 \<Rightarrow> u8 list \<Rightarrow> bool \<Rightarrow> string option" where
  "hex_dump ofs buf ascii =
     (if buf = [] then Some []
      else (let start = unat ofs mod 16; n = min (16 - start) (length buf); bs = take n buf in do {
        h \<leftarrow> vprintf_out ''%08jx  '' [Int64 (of_nat (unat ofs div 16 * 16))];
        x \<leftarrow> hex_bytes start bs;
        r \<leftarrow> hex_dump (ofs + of_nat n) (drop n buf) ascii;
        Some (h @ concat (replicate start ''   '') @ x @ (if ascii then hex_ascii start bs else []) @ [CHR 0x0A] @ r) }))"
  by pat_completeness auto
termination
proof (relation "measure (\<lambda>(ofs, buf, ascii). length buf)")
  fix ofs :: u32 and buf :: "u8 list" and ascii :: bool and x xa xb h xx
  assume "buf \<noteq> []" "x = unat ofs mod 16" "xa = min (16 - x) (length buf)"
  moreover have "unat ofs mod 16 < 16" by simp
  ultimately have "0 < xa" by (simp add: min_def)
  then show "((ofs + of_nat xa, drop xa buf, ascii), ofs, buf, ascii) \<in> measure (\<lambda>(ofs, buf, ascii). length buf)"
    using \<open>buf \<noteq> []\<close> by simp
qed simp

declare hex_dump.simps [simp del]

fun size_factor :: "u64 \<Rightarrow> string list \<Rightarrow> (u64 \<times> string) option" where
  "size_factor sz (f # g # fs) = (if sz \<ge> 1024 then size_factor (sz div 1024) (g # fs) else Some (sz, f))"
| "size_factor sz [f] = Some (sz, f)"
| "size_factor sz [] = None"

definition print_human_readable_size :: "u64 \<Rightarrow> string option" where
  "print_human_readable_size sz =
     (if sz = 1 then vprintf_out ''1 byte'' []
      else do {
        (v, f) \<leftarrow> size_factor sz [''bytes'', ''kB'', ''MB'', ''GB'', ''TB''];
        vprintf_out ''%llu %s'' [Int64 v, Str (Some f)] })"

end
