(* ===== verification/Stdio_Correct.thy ===== *)
theory Stdio_Correct
  imports Stdio Arith64
begin

text \<open>
  What formatted output produces: the digits of the number in the base, within the bounds of the
  buffer of \<open>format_integer\<close>; reading a printed number back; truncation by \<open>vsnprintf\<close>.
\<close>

section \<open>Digits\<close>

text \<open>The digits of a number, least significant first.\<close>

fun rdigits :: "nat \<Rightarrow> nat \<Rightarrow> nat list" where
  "rdigits b v = (if v = 0 \<or> b < 2 then [] else v mod b # rdigits b (v div b))"

declare rdigits.simps [simp del]

lemma rdigits_0 [simp]: "rdigits b 0 = []"
  by (simp add: rdigits.simps)

lemma rdigits_value: "2 \<le> b \<Longrightarrow> foldr (\<lambda>d a. d + b * a) (rdigits b v) 0 = v"
proof (induction b v rule: rdigits.induct)
  case (1 b v)
  then show ?case by (cases "v = 0") (simp_all add: rdigits.simps [of b v])
qed

lemma rdigits_less: "2 \<le> b \<Longrightarrow> d \<in> set (rdigits b v) \<Longrightarrow> d < b"
proof (induction b v rule: rdigits.induct)
  case (1 b v)
  then show ?case by (cases "v = 0") (auto simp: rdigits.simps [of b v])
qed

lemma rdigits_length: "2 \<le> b \<Longrightarrow> v < b ^ n \<Longrightarrow> length (rdigits b v) \<le> n"
proof (induction n arbitrary: v)
  case 0
  then show ?case by (simp add: rdigits.simps)
next
  case (Suc n)
  have "v div b < b ^ n" using Suc.prems by (simp add: less_mult_imp_div_less mult.commute)
  then show ?case using Suc by (cases "v = 0") (simp_all add: rdigits.simps [of b v])
qed

text \<open>The digits with a comma after every group, as \<open>format_integer\<close> enters them.\<close>

fun grouped :: "integer_base \<Rightarrow> bool \<Rightarrow> nat \<Rightarrow> nat list \<Rightarrow> string" where
  "grouped b g n [] = []"
| "grouped b g n (d # ds) = (if g \<and> n > 0 \<and> n mod ib_group b = 0 then '','' else []) @ ib_digits b ! d # grouped b g (Suc n) ds"

lemma digit_loop_eq:
  assumes "2 \<le> ib_base b"
  shows "digit_loop v b g n buf = Some (buf @ grouped b g n (rdigits (ib_base b) v))"
proof (induction v arbitrary: n buf rule: less_induct)
  case (less v)
  show ?case
  proof (cases "v = 0")
    case False
    have "v div ib_base b < v" using False assms by simp
    from less [OF this] show ?thesis using False assms
      by (subst digit_loop.simps) (simp add: rdigits.simps [of _ v] Let_def)
  qed (subst digit_loop.simps, simp add: rdigits.simps)
qed

lemma grouped_plain: "grouped b False n ds = map (\<lambda>d. ib_digits b ! d) ds"
  by (induction ds arbitrary: n) simp_all

lemma grouped_length: "length (grouped b g n ds) \<le> 2 * length ds"
proof (induction ds arbitrary: n)
  case (Cons d ds)
  from Cons.IH [of "Suc n"] show ?case by auto
qed simp

lemma rdigits_word_length: "8 \<le> b \<Longrightarrow> length (rdigits b (unat (v :: u64))) \<le> 22"
proof (rule rdigits_length)
  assume b: "8 \<le> b"
  then show "2 \<le> b" by simp
  have "unat v < 2 ^ LENGTH(64)" by (rule unsigned_less)
  also have "(2 :: nat) ^ LENGTH(64) \<le> 8 ^ 22" by simp
  also have "\<dots> \<le> b ^ 22" using b by (rule power_mono) simp
  finally show "unat v < b ^ 22" .
qed

definition plain :: printf_conversion where
  "plain = \<lparr>cflags = {}, cwidth = 0, cprecision = -1, ctype = INT_T\<rparr>"

text \<open>The digits of a number without leading zeros, at least one.\<close>

definition digits_of :: "integer_base \<Rightarrow> nat \<Rightarrow> string" where
  "digits_of b v = (if v = 0 then ''0'' else rev (map (\<lambda>d. ib_digits b ! d) (rdigits (ib_base b) v)))"

lemma integer_buf_plain:
  assumes "8 \<le> ib_base b" "cflags c = {}" "cprecision c = -1"
  shows "integer_buf (unat (v :: u64)) b c = Some (rev (digits_of b (unat v)))"
proof -
  have "digit_loop (unat v) b False 0 [] = Some (map (\<lambda>d. ib_digits b ! d) (rdigits (ib_base b) (unat v)))"
    using digit_loop_eq [of b "unat v" False 0 "[]"] assms(1) by (simp add: grouped_plain)
  moreover have "rdigits (ib_base b) (unat v) \<noteq> []" if "v \<noteq> 0"
    using that assms(1) by (simp add: rdigits.simps unat_eq_zero)
  moreover have "length (rdigits (ib_base b) (unat v)) \<le> 22" by (rule rdigits_word_length [OF assms(1)])
  ultimately show ?thesis using assms(2,3)
    by (cases "rdigits (ib_base b) (unat v)") (auto simp: integer_buf_def digits_of_def Let_def unat_eq_zero)
qed

lemma format_plain:
  assumes "8 \<le> ib_base b"
  shows "format_integer v is_signed negative b plain = Some ((if is_signed \<and> negative then ''-'' else []) @ digits_of b (unat v))"
  using integer_buf_plain [OF assms, of plain v] by (simp add: format_integer_def plain_def output_dup_def)

section \<open>Reading a number back\<close>

lemma base_d_digit: "d < 10 \<Longrightarrow> isdigit (code (ib_digits base_d ! d)) \<and> code (ib_digits base_d ! d) = 48 + int d"
proof -
  assume "d < 10"
  then have "d \<in> {0, 1, 2, 3, 4, 5, 6, 7, 8, 9}" by auto
  then show ?thesis by (auto simp: base_d_def isdigit_def)
qed

lemma atoi_digits_spec:
  assumes "\<forall>c \<in> set s. isdigit (code c)" "v \<le> 0" "- (2 ^ 31) \<le> foldl (\<lambda>v c. v * 10 - (code c - 48)) v s"
  shows "atoi_digits s v = Some (foldl (\<lambda>v c. v * 10 - (code c - 48)) v s) \<and> foldl (\<lambda>v c. v * 10 - (code c - 48)) v s \<le> v"
  using assms
proof (induction s arbitrary: v)
  case (Cons c s)
  have d: "48 \<le> code c" "isdigit (code c)" using Cons.prems(1) by (simp_all add: isdigit_def)
  have v': "v * 10 - (code c - 48) \<le> 0" "v * 10 - (code c - 48) \<le> v" using Cons.prems(2) d by linarith+
  from Cons.IH [OF _ v'(1)] Cons.prems(1,3)
  have ih: "atoi_digits s (v * 10 - (code c - 48)) = Some (foldl (\<lambda>v c. v * 10 - (code c - 48)) (v * 10 - (code c - 48)) s)"
    "foldl (\<lambda>v c. v * 10 - (code c - 48)) (v * 10 - (code c - 48)) s \<le> v * 10 - (code c - 48)" by simp_all
  have "in_int (v * 10 - (code c - 48))" "in_int (v * 10)"
    using ih(2) Cons.prems(2,3) d(1) v'(1) unfolding in_int_def by simp_all
  then show ?case using ih d v'(2) by simp
qed simp

lemma digits_of_decimal:
  "\<forall>c \<in> set (digits_of base_d n). isdigit (code c)" "digits_of base_d n \<noteq> []"
  "foldl (\<lambda>v c. v * 10 - (code c - 48)) 0 (digits_of base_d n) = - int n"
proof -
  have d: "\<forall>d \<in> set (rdigits 10 n). d < 10" using rdigits_less [of 10 _ n] by auto
  have b: "ib_base base_d = 10" by (simp add: base_d_def)
  show "\<forall>c \<in> set (digits_of base_d n). isdigit (code c)"
    using d base_d_digit by (simp add: digits_of_def b) (fastforce simp: isdigit_def)
  show "digits_of base_d n \<noteq> []" by (auto simp: digits_of_def b rdigits.simps)
  have "foldr (\<lambda>c v. v * 10 - (code c - 48)) (map (\<lambda>d. ib_digits base_d ! d) ds) 0 = - int (foldr (\<lambda>d a. d + 10 * a) ds 0)"
    if "\<forall>d \<in> set ds. d < 10" for ds
    using that by (induction ds) (use base_d_digit in auto)
  from this [OF d] show "foldl (\<lambda>v c. v * 10 - (code c - 48)) 0 (digits_of base_d n) = - int n"
    using rdigits_value [of 10 n] by (simp add: digits_of_def b foldl_conv_foldr)
qed

lemma atoi_decimal:
  assumes "int n \<le> (if negative then 2 ^ 31 else 2 ^ 31 - 1)"
  shows "atoi ((if negative then ''-'' else []) @ digits_of base_d n) = Some (if negative then - int n else int n)"
proof -
  note d = digits_of_decimal [of n]
  obtain c r where cr: "digits_of base_d n = c # r" using d(2) by (cases "digits_of base_d n") auto
  then have c: "isdigit (code c)" using d(1) by simp
  then have ns: "\<not> isspace (code c)" "c \<noteq> CHR ''+''" "c \<noteq> CHR ''-''" by (auto simp: isdigit_def isspace_def)
  have "atoi_digits (digits_of base_d n) 0 = Some (- int n)"
    using atoi_digits_spec [OF d(1), of 0] assms unfolding d(3) by (simp split: if_splits)
  then show ?thesis using ns assms unfolding cr
    by (auto simp: atoi_def isspace_def in_int_def)
qed

lemma parse_plain:
  "parse_conversion ''d'' args = Some (plain, ''d'', args)" "parse_conversion ''x'' args = Some (plain, ''x'', args)"
  by (simp_all add: parse_conversion_def parse_star_def parse_precision_def isdigit_def in_int_def plain_def)

lemma unat_abs_word: "unat (if sint v < 0 then - v else v) = nat \<bar>sint v\<bar>" for v :: u64
proof -
  have "(if sint v < 0 then - v else v) = word_of_int \<bar>sint v\<bar>" using abs_word [of v] by (auto simp: not_le split: if_splits)
  then show ?thesis by (simp only: unat_eq_nat_uint uint_abs_word)
qed

lemma sint_scast_32_64: "sint (scast (w :: u32) :: u64) = sint w"
  by (rule sint_up_scast) (simp add: is_up)

lemma printf_d: "vprintf_out ''%d'' [Int32 w] = Some ((if sint w < 0 then ''-'' else []) @ digits_of base_d (nat \<bar>sint w\<bar>))"
proof -
  have "convert (CHR ''d'') plain [Int32 w] = Some ((if sint w < 0 then ''-'' else []) @ digits_of base_d (nat \<bar>sint w\<bar>), [])"
    using unat_abs_word [of "scast w"]
    by (simp add: convert_def signed_arg_def plain_def [THEN arg_cong [where f = ctype]] sint_scast_32_64 format_plain base_d_def)
  then show ?thesis by (simp add: vprintf_out.simps parse_plain)
qed

section \<open>The field\<close>

lemma integer_buf_total:
  assumes "8 \<le> ib_base b"
  shows "\<exists>buf. integer_buf (unat (v :: u64)) b c = Some buf \<and> length buf \<le> 64"
proof -
  define g where "g = grouped b (GROUP \<in> cflags c) 0 (rdigits (ib_base b) (unat v))"
  have "length g \<le> 44"
    using grouped_length [of b "GROUP \<in> cflags c" 0 "rdigits (ib_base b) (unat v)"] rdigits_word_length [OF assms, of v] unfolding g_def by linarith
  define g1 where "g1 = g @ replicate (nat (min (if cprecision c < 0 then 1 else cprecision c) 63) - length g) (CHR ''0'')"
  define g2 where "g2 = (if POUND \<in> cflags c \<and> ib_base b = 8 \<and> (g1 = [] \<or> last g1 \<noteq> CHR ''0'') then g1 @ ''0'' else g1)"
  have "nat (min (if cprecision c < 0 then 1 else cprecision c) 63) \<le> 63" by simp
  then have "length g1 \<le> 63" using \<open>length g \<le> 44\<close> unfolding g1_def by simp
  then have "length g2 \<le> 64" by (simp add: g2_def)
  moreover have "digit_loop (unat v) b (GROUP \<in> cflags c) 0 [] = Some g" using assms by (simp add: digit_loop_eq g_def)
  then have "integer_buf (unat v) b c = Option.bind (kassert (length g2 \<le> 64)) (\<lambda>_. Some g2)"
    unfolding integer_buf_def Let_def g2_def g1_def by (simp only: Option.bind.simps)
  ultimately show ?thesis by simp
qed

section \<open>Properties\<close>

text \<open>
  C21: what \<open>printf ("%d")\<close> prints, \<open>atoi\<close> reads back: for every 32-bit integer, the smallest one
  included, whose absolute value is not an \<open>int\<close>.
\<close>

theorem printf_atoi_roundtrip: "Option.bind (vprintf_out ''%d'' [Int32 w]) atoi = Some (sint w)"
proof -
  have "- (2 ^ 31) \<le> sint w" "sint w < 2 ^ 31" using sint_greater_eq [of w] sint_less [of w] by simp_all
  then have "atoi ((if sint w < 0 then ''-'' else []) @ digits_of base_d (nat \<bar>sint w\<bar>)) = Some (sint w)"
    using atoi_decimal [of "nat \<bar>sint w\<bar>" "sint w < 0"] by (simp split: if_splits)
  then show ?thesis by (simp add: printf_d)
qed

text \<open>
  C34: \<open>format_integer\<close> is safe and fills the field.  For every value, every flag, width and precision,
  the digits, commas and zeros fit in its buffer of 64 characters, and the output is at least as wide
  as the field; without flags and precision it is the sign and the digits, padded on the left.
\<close>

theorem format_integer_fills_field:
  assumes "b \<in> {base_d, base_o, base_x, base_X}"
  shows "\<exists>out. format_integer v is_signed negative b c = Some out \<and> cwidth c \<le> int (length out)
    \<and> (cflags c = {} \<and> cprecision c = -1 \<longrightarrow>
         (let body = (if is_signed \<and> negative then ''-'' else []) @ digits_of b (unat v) in
          out = replicate (nat (cwidth c) - length body) (CHR '' '') @ body))"
proof -
  have b: "8 \<le> ib_base b" using assms by (auto simp: base_d_def base_o_def base_x_def base_X_def)
  obtain buf where buf: "integer_buf (unat v) b c = Some buf" using integer_buf_total [OF b] by blast
  define sign where "sign = (if is_signed then
         (if PLUS \<in> cflags c then (if negative then ''-'' else ''+'')
          else if SPACE \<in> cflags c then (if negative then ''-'' else '' '')
          else if negative then ''-'' else [])
       else [])"
  define x where "x = (if POUND \<in> cflags c \<and> v \<noteq> 0 then (case ib_x b of Some ch \<Rightarrow> [CHR ''0'', ch] | None \<Rightarrow> []) else [])"
  define pad where "pad = max 0 (cwidth c - int (length buf) - int (length x) - int (length sign))"
  have f: "format_integer v is_signed negative b c = Some ((if MINUS \<notin> cflags c \<and> ZERO \<notin> cflags c then output_dup (CHR '' '') pad else [])
       @ sign @ x @ (if ZERO \<in> cflags c then output_dup (CHR ''0'') pad else []) @ rev buf
       @ (if MINUS \<in> cflags c then output_dup (CHR '' '') pad else []))"
    unfolding format_integer_def Let_def buf sign_def [symmetric] x_def [symmetric] by (simp add: pad_def)
  have "cwidth c \<le> pad + int (length buf) + int (length x) + int (length sign)" "0 \<le> pad" by (simp_all add: pad_def)
  then have w: "cwidth c \<le> int (nat pad + length buf + length x + length sign)" by simp
  have "out = replicate (nat (cwidth c) - length body) (CHR '' '') @ body"
    if "cflags c = {}" "cprecision c = -1" "body = (if is_signed \<and> negative then ''-'' else []) @ digits_of b (unat v)"
      "format_integer v is_signed negative b c = Some out" for out body
  proof -
    have r: "rev buf = digits_of b (unat v)" using integer_buf_plain [OF b that(1,2), of v] buf by simp
    then have l: "length buf = length (digits_of b (unat v))" by (metis length_rev)
    have sx: "sign @ x @ rev buf = body" "int (length x) = 0" "length body = length sign + length buf"
      using that(1,3) r l by (simp_all add: sign_def x_def)
    have "nat pad = nat (cwidth c) - length body" unfolding pad_def sx(2,3) by (simp add: nat_diff_distrib' max_def) linarith
    then show ?thesis using that(1,4) sx(1) unfolding f by (simp add: output_dup_def)
  qed
  moreover have "cwidth c \<le> int (length ((if MINUS \<notin> cflags c \<and> ZERO \<notin> cflags c then output_dup (CHR '' '') pad else [])
       @ sign @ x @ (if ZERO \<in> cflags c then output_dup (CHR ''0'') pad else []) @ rev buf
       @ (if MINUS \<in> cflags c then output_dup (CHR '' '') pad else [])))"
    using w by (auto simp: output_dup_def)
  ultimately show ?thesis using f by (auto simp: Let_def)
qed

lemma fold_helper:
  "fold vsnprintf_helper out a = \<lparr>stored = stored a @ take (nat (max_length a - aux_length a)) out,
     aux_length = aux_length a + int (length out), max_length = max_length a\<rparr>"
proof (induction out arbitrary: a)
  case (Cons ch out)
  show ?case
  proof (cases "aux_length a < max_length a")
    case True
    then have "nat (max_length a - aux_length a) = Suc (nat (max_length a - (aux_length a + 1)))" by simp
    then show ?thesis using True Cons by (simp add: vsnprintf_helper_def Let_def)
  next
    case False
    then show ?thesis using Cons by (simp add: vsnprintf_helper_def Let_def)
  qed
qed simp

text \<open>
  C35: \<open>vsnprintf\<close> never writes more than \<open>buf_size\<close> characters, always ends the string, and returns
  the length the whole output would have had.
\<close>

theorem vsnprintf_truncates:
  assumes "vprintf_out format args = Some out" "0 < buf_size" "buf_size < 2 ^ 31"
  shows "vsnprintf buf_size format args = Some (take (unat buf_size - 1) out @ [CHR 0x00], int (length out))"
proof -
  have u: "unat buf_size < 2 ^ 31" "0 < unat buf_size" using assms(2,3) by (simp_all add: word_less_nat_alt)
  have "sint (buf_size - 1) = int (unat buf_size - 1)"
  proof -
    have "uint (buf_size - 1) = int (unat buf_size - 1)" using u unat_minus_one [of buf_size] by (metis uint_nat unat_0 less_numeral_extra(3))
    then have "sint (buf_size - 1) = signed_take_bit 31 (int (unat buf_size - 1))" by (simp add: sint_uint)
    moreover define n where "n = unat buf_size - 1"
    moreover have "n < 2147483648" using u by (simp add: n_def)
    then have "signed_take_bit 31 (int n) = int n" by (intro signed_take_bit_int_eq_self) simp_all
    ultimately show ?thesis by simp
  qed
  then show ?thesis using assms(1,2) by (simp add: vsnprintf_def fold_helper)
qed

theorem format_integer_fills_field_witness:
  "format_integer 42 True True base_d (plain\<lparr>cwidth := 6\<rparr>) = Some ''   -42''"
proof -
  have "digits_of base_d 42 = ''42''"
    by (simp add: digits_of_def base_d_def rdigits.simps [of 10 42] rdigits.simps [of 10 4])
  then show ?thesis using format_integer_fills_field [of base_d 42 True True "plain\<lparr>cwidth := 6\<rparr>"]
    by (simp add: plain_def replicate_app_Cons_same flip: replicate_Suc) (simp add: eval_nat_numeral)
qed

theorem vsnprintf_truncates_witness: "vsnprintf 4 ''hello'' [] = Some (''hel'' @ [CHR 0x00], 5)"
  using vsnprintf_truncates [of "''hello''" "[]" "''hello''" 4] by (simp add: vprintf_out.simps)

end
