(* ===== verification/Intq.thy ===== *)
theory Intq
  imports Prelude
begin

text \<open>
  Interrupt queues (\<open>devices/intq.c\<close>): the circular buffer between interrupt handlers and threads.
  Interrupts are off during every call.  One turn of the loop in \<open>intq_getc\<close> or \<open>intq_putc\<close> either
  returns, with the thread it unblocks, or puts the caller to sleep in \<open>wait\<close>, or in
  \<open>lock_acquire\<close> when another thread holds the lock.  A thread that was woken in \<open>wait\<close> releases the
  lock (\<open>intq_resume\<close>) and takes the next turn; a thread that was woken in \<open>lock_acquire\<close> goes on
  behind it (\<open>getc_acquire\<close>, \<open>putc_acquire\<close>): it tries again to take the lock and then enters \<open>wait\<close>
  without another look at the queue.  Of the lock only the holder is modelled here.
\<close>

section \<open>Queues\<close>

definition INTQ_BUFSIZE :: nat where "INTQ_BUFSIZE = 64"

record intq =
  q_lock :: ptr
  not_full :: ptr
  not_empty :: ptr
  q_buf :: "u8 list"
  q_head :: nat
  q_tail :: nat

datatype 'a turn = Return 'a ptr intq | Sleep intq | Contend

definition intq_init :: "u8 list \<Rightarrow> intq" where
  "intq_init junk = \<lparr>q_lock = NULL, not_full = NULL, not_empty = NULL, q_buf = junk, q_head = 0, q_tail = 0\<rparr>"

definition next_pos :: "nat \<Rightarrow> nat" where
  "next_pos pos = (pos + 1) mod INTQ_BUFSIZE"

definition intq_empty :: "intq \<Rightarrow> bool" where
  "intq_empty q \<longleftrightarrow> q_head q = q_tail q"

definition intq_full :: "intq \<Rightarrow> bool" where
  "intq_full q \<longleftrightarrow> next_pos (q_head q) = q_tail q"

definition wait_not_empty :: "bool \<Rightarrow> ptr \<Rightarrow> intq \<Rightarrow> intq option" where
  "wait_not_empty in_intr cur q = do { kassert (\<not> in_intr); kassert (intq_empty q); Some (q\<lparr>not_empty := cur\<rparr>) }"

definition wait_not_full :: "bool \<Rightarrow> ptr \<Rightarrow> intq \<Rightarrow> intq option" where
  "wait_not_full in_intr cur q = do { kassert (\<not> in_intr); kassert (intq_full q); Some (q\<lparr>not_full := cur\<rparr>) }"

definition signal_not_empty :: "intq \<Rightarrow> (ptr \<times> intq) option" where
  "signal_not_empty q = do { kassert (\<not> intq_empty q); Some (not_empty q, q\<lparr>not_empty := NULL\<rparr>) }"

definition signal_not_full :: "intq \<Rightarrow> (ptr \<times> intq) option" where
  "signal_not_full q = do { kassert (\<not> intq_full q); Some (not_full q, q\<lparr>not_full := NULL\<rparr>) }"

text \<open>
  From \<open>lock_acquire\<close> on: \<open>Contend\<close> when another thread holds the lock, else the lock is taken and \<open>wait\<close> entered.
\<close>

definition getc_acquire :: "bool \<Rightarrow> ptr \<Rightarrow> intq \<Rightarrow> u8 turn option" where
  "getc_acquire in_intr cur q =
     (if q_lock q \<noteq> NULL \<and> q_lock q \<noteq> cur then Some Contend
      else do { q \<leftarrow> wait_not_empty in_intr cur (q\<lparr>q_lock := cur\<rparr>); Some (Sleep q) })"

definition putc_acquire :: "bool \<Rightarrow> ptr \<Rightarrow> intq \<Rightarrow> unit turn option" where
  "putc_acquire in_intr cur q =
     (if q_lock q \<noteq> NULL \<and> q_lock q \<noteq> cur then Some Contend
      else do { q \<leftarrow> wait_not_full in_intr cur (q\<lparr>q_lock := cur\<rparr>); Some (Sleep q) })"

definition intq_getc :: "bool \<Rightarrow> ptr \<Rightarrow> intq \<Rightarrow> u8 turn option" where
  "intq_getc in_intr cur q =
     (if intq_empty q then do { kassert (\<not> in_intr); getc_acquire in_intr cur q }
      else do {
        kassert (q_tail q < length (q_buf q));
        let byte = q_buf q ! q_tail q;
        (w, q) \<leftarrow> signal_not_full (q\<lparr>q_tail := next_pos (q_tail q)\<rparr>);
        Some (Return byte w q) })"

definition intq_putc :: "bool \<Rightarrow> ptr \<Rightarrow> u8 \<Rightarrow> intq \<Rightarrow> unit turn option" where
  "intq_putc in_intr cur byte q =
     (if intq_full q then do { kassert (\<not> in_intr); putc_acquire in_intr cur q }
      else do {
        kassert (q_head q < length (q_buf q));
        (w, q) \<leftarrow> signal_not_empty (q\<lparr>q_buf := (q_buf q)[q_head q := byte], q_head := next_pos (q_head q)\<rparr>);
        Some (Return () w q) })"

text \<open>A thread that was put to sleep in \<open>wait\<close> and woken starts by releasing the lock.\<close>

definition intq_resume :: "intq \<Rightarrow> intq" where
  "intq_resume q = q\<lparr>q_lock := NULL\<rparr>"

section \<open>The queue as a sequence of bytes\<close>

definition queued_cnt :: "intq \<Rightarrow> nat" where
  "queued_cnt q = (q_head q + 64 - q_tail q) mod 64"

definition queued :: "intq \<Rightarrow> u8 list" where
  "queued q = map (\<lambda>k. q_buf q ! ((q_tail q + k) mod 64)) [0..<queued_cnt q]"

definition intq_inv :: "intq \<Rightarrow> bool" where
  "intq_inv q \<longleftrightarrow> length (q_buf q) = 64 \<and> q_head q < 64 \<and> q_tail q < 64
     \<and> (not_empty q \<noteq> NULL \<longrightarrow> intq_empty q \<and> q_lock q = not_empty q)
     \<and> (not_full q \<noteq> NULL \<longrightarrow> intq_full q \<and> q_lock q = not_full q)"

text \<open>The positions are below 64; all facts about them are decided by comparing.\<close>

lemma wrap_sub: "h < 64 \<Longrightarrow> t < 64 \<Longrightarrow> (h + 64 - t) mod 64 = (if t \<le> h then h - t else h + 64 - t)" for h t :: nat
  by (simp add: le_mod_geq)

lemma wrap_add: "a < 64 \<Longrightarrow> b < 64 \<Longrightarrow> (a + b) mod 64 = (if a + b < 64 then a + b else a + b - 64)" for a b :: nat
  by (simp add: le_mod_geq)

lemma next_pos_eq: "p < 64 \<Longrightarrow> next_pos p = (if p = 63 then 0 else p + 1)"
  by (auto simp: next_pos_def INTQ_BUFSIZE_def)

lemma queued_cnt_facts:
  assumes "q_head q < 64" "q_tail q < 64"
  shows "queued_cnt q < 64" "intq_empty q \<longleftrightarrow> queued_cnt q = 0" "intq_full q \<longleftrightarrow> queued_cnt q = 63"
    "\<not> intq_full q \<Longrightarrow> (next_pos (q_head q) + 64 - q_tail q) mod 64 = Suc (queued_cnt q)"
    "\<not> intq_empty q \<Longrightarrow> Suc ((q_head q + 64 - next_pos (q_tail q)) mod 64) = queued_cnt q"
    "next_pos (q_head q) < 64" "next_pos (q_tail q) < 64" "(q_tail q + queued_cnt q) mod 64 = q_head q"
proof -
  show n: "next_pos (q_head q) < 64" "next_pos (q_tail q) < 64" by (simp_all add: next_pos_def INTQ_BUFSIZE_def)
  show "queued_cnt q < 64" by (simp add: queued_cnt_def)
  show "intq_empty q \<longleftrightarrow> queued_cnt q = 0" "intq_full q \<longleftrightarrow> queued_cnt q = 63"
    using assms by (auto simp: intq_empty_def intq_full_def queued_cnt_def wrap_sub next_pos_eq)
  show "\<not> intq_full q \<Longrightarrow> (next_pos (q_head q) + 64 - q_tail q) mod 64 = Suc (queued_cnt q)"
    using assms n by (auto simp: intq_full_def queued_cnt_def wrap_sub next_pos_eq split: if_splits)
  show "\<not> intq_empty q \<Longrightarrow> Suc ((q_head q + 64 - next_pos (q_tail q)) mod 64) = queued_cnt q"
    using assms n by (auto simp: intq_empty_def queued_cnt_def wrap_sub next_pos_eq split: if_splits)
  show "(q_tail q + queued_cnt q) mod 64 = q_head q"
    using assms by (auto simp: queued_cnt_def wrap_sub wrap_add split: if_splits)
qed

lemma queued_putc:
  assumes "q_head q < 64" "q_tail q < 64" "length (q_buf q) = 64" "\<not> intq_full q"
    "r = q\<lparr>q_buf := (q_buf q)[q_head q := byte], q_head := next_pos (q_head q), not_empty := w\<rparr>"
  shows "queued r = queued q @ [byte]"
proof -
  note f = queued_cnt_facts [OF assms(1,2)]
  have c: "queued_cnt r = Suc (queued_cnt q)" using f(4) assms(4) by (simp add: queued_cnt_def assms(5))
  have "q_head q \<noteq> (q_tail q + k) mod 64" if "k < queued_cnt q" for k
  proof
    assume "q_head q = (q_tail q + k) mod 64"
    then have "(q_tail q + k) mod 64 = (q_tail q + queued_cnt q) mod 64" using f(8) by simp
    then show False using that f(1) assms(2) by (auto simp: wrap_add split: if_splits)
  qed
  then have "map (\<lambda>k. q_buf r ! ((q_tail q + k) mod 64)) [0..<queued_cnt q] = queued q"
    by (auto simp: queued_def assms(5))
  moreover have "q_buf r ! ((q_tail q + queued_cnt q) mod 64) = byte" using f(8) assms(1,3) by (simp add: assms(5))
  ultimately show ?thesis unfolding queued_def [of r] c by (simp add: assms(5))
qed

lemma queued_getc:
  assumes "q_head q < 64" "q_tail q < 64" "\<not> intq_empty q" "r = q\<lparr>q_tail := next_pos (q_tail q), not_full := w\<rparr>"
  shows "queued q = q_buf q ! q_tail q # queued r"
proof -
  note f = queued_cnt_facts [OF assms(1,2)]
  have c: "queued_cnt q = Suc (queued_cnt r)" using f(5) assms(3) by (simp add: queued_cnt_def assms(4))
  have "(next_pos (q_tail q) + k) mod 64 = (q_tail q + Suc k) mod 64" for k
    by (simp add: next_pos_def INTQ_BUFSIZE_def mod_add_left_eq)
  then have "map (\<lambda>k. q_buf q ! ((q_tail q + k) mod 64)) [Suc 0..<Suc (queued_cnt r)] = queued r"
    by (simp add: queued_def assms(4) map_Suc_upt [symmetric] comp_def del: upt_Suc)
  then show ?thesis unfolding queued_def [of q] c using assms(2) by (simp add: upt_conv_Cons del: upt_Suc)
qed

section \<open>The contract of a queue\<close>

text \<open>What the keyboard and serial drivers rely on.\<close>

locale byte_channel =
  fixes inv :: "'q \<Rightarrow> bool" and bytes :: "'q \<Rightarrow> 'b list" and cap :: nat
    and put :: "'b \<Rightarrow> 'q \<Rightarrow> 'q option" and get :: "'q \<Rightarrow> ('b \<times> 'q) option"
  assumes put_bytes: "inv q \<Longrightarrow> length (bytes q) < cap \<Longrightarrow> \<exists>q'. put b q = Some q' \<and> inv q' \<and> bytes q' = bytes q @ [b]"
    and get_bytes: "inv q \<Longrightarrow> bytes q \<noteq> [] \<Longrightarrow> \<exists>q'. get q = Some (hd (bytes q), q') \<and> inv q' \<and> bytes q' = tl (bytes q)"
begin

fun put_all :: "'b list \<Rightarrow> 'q \<Rightarrow> 'q option" where
  "put_all [] q = Some q"
| "put_all (b # bs) q = do { q \<leftarrow> put b q; put_all bs q }"

fun get_n :: "nat \<Rightarrow> 'q \<Rightarrow> ('b list \<times> 'q) option" where
  "get_n 0 q = Some ([], q)"
| "get_n (Suc n) q = do { (b, q) \<leftarrow> get q; (bs, q) \<leftarrow> get_n n q; Some (b # bs, q) }"

lemma put_all_bytes:
  "inv q \<Longrightarrow> length (bytes q) + length bs \<le> cap \<Longrightarrow> \<exists>q'. put_all bs q = Some q' \<and> inv q' \<and> bytes q' = bytes q @ bs"
proof (induction bs arbitrary: q)
  case (Cons b bs)
  from Cons.prems put_bytes [of q b] obtain q1 where "put b q = Some q1" "inv q1" "bytes q1 = bytes q @ [b]" by auto
  with Cons.IH [of q1] Cons.prems(2) show ?case by auto
qed auto

lemma get_n_bytes:
  "inv q \<Longrightarrow> n \<le> length (bytes q) \<Longrightarrow> \<exists>q'. get_n n q = Some (take n (bytes q), q') \<and> inv q' \<and> bytes q' = drop n (bytes q)"
proof (induction n arbitrary: q)
  case (Suc n)
  then have "bytes q \<noteq> []" by auto
  then obtain q1 where q1: "get q = Some (hd (bytes q), q1)" "inv q1" "bytes q1 = tl (bytes q)" using get_bytes [OF Suc.prems(1)] by auto
  then have "n \<le> length (bytes q1)" using Suc.prems(2) by simp
  then obtain q2 where "get_n n q1 = Some (take n (bytes q1), q2)" "inv q2" "bytes q2 = drop n (bytes q1)"
    using Suc.IH [OF q1(2)] by blast
  then show ?case using q1 \<open>bytes q \<noteq> []\<close> by (cases "bytes q") auto
qed auto

text \<open>What goes in comes out, in order.\<close>

lemma fifo:
  assumes "inv q" "bytes q = []" "length bs \<le> cap"
  shows "\<exists>q'. Option.bind (put_all bs q) (get_n (length bs)) = Some (bs, q') \<and> bytes q' = []"
proof -
  obtain q1 where q1: "put_all bs q = Some q1" "inv q1" "bytes q1 = bs" using put_all_bytes [of q bs] assms by auto
  then show ?thesis using get_n_bytes [of q1 "length bs"] by auto
qed

end

text \<open>A call from an interrupt handler, which never sleeps.\<close>

definition intr_putc :: "u8 \<Rightarrow> intq \<Rightarrow> intq option" where
  "intr_putc b q = do { t \<leftarrow> intq_putc True NULL b q; case t of Return _ _ q \<Rightarrow> Some q | _ \<Rightarrow> None }"

definition intr_getc :: "intq \<Rightarrow> (u8 \<times> intq) option" where
  "intr_getc q = do { t \<leftarrow> intq_getc True NULL q; case t of Return b _ q \<Rightarrow> Some (b, q) | _ \<Rightarrow> None }"

lemma length_queued: "length (queued q) = queued_cnt q"
  by (simp add: queued_def)

lemma intq_putc_spec:
  assumes "intq_inv q" "length (queued q) < 63"
  shows "\<exists>q'. intq_putc in_intr cur b q = Some (Return () (not_empty q) q') \<and> intq_inv q' \<and> queued q' = queued q @ [b]
    \<and> not_empty q' = NULL \<and> not_full q' = not_full q \<and> q_lock q' = q_lock q"
proof -
  have i: "q_head q < 64" "q_tail q < 64" "length (q_buf q) = 64" using assms(1) by (simp_all add: intq_inv_def)
  note f = queued_cnt_facts [OF i(1,2)]
  have nf: "\<not> intq_full q" using f(3) assms(2) by (simp add: length_queued)
  then have nw: "not_full q = NULL" using assms(1) by (auto simp: intq_inv_def)
  define r where "r = q\<lparr>q_buf := (q_buf q)[q_head q := b], q_head := next_pos (q_head q), not_empty := NULL\<rparr>"
  have qr: "queued r = queued q @ [b]" by (rule queued_putc [OF i nf r_def])
  have "queued_cnt r = Suc (queued_cnt q)" using arg_cong [OF qr, of length] by (simp add: length_queued)
  then have ne: "\<not> intq_empty r" using queued_cnt_facts(2) [of r] i f(6) by (simp add: r_def)
  then have "intq_putc in_intr cur b q = Some (Return () (not_empty q) r)"
    using nf i by (simp add: intq_putc_def signal_not_empty_def intq_empty_def r_def)
  moreover have "intq_inv r" using assms(1) i f(6) nw by (simp add: intq_inv_def r_def)
  ultimately show ?thesis using qr by (auto simp: r_def)
qed

lemma intq_getc_spec:
  assumes "intq_inv q" "queued q \<noteq> []"
  shows "\<exists>q'. intq_getc in_intr cur q = Some (Return (hd (queued q)) (not_full q) q') \<and> intq_inv q' \<and> queued q' = tl (queued q)
    \<and> not_full q' = NULL \<and> not_empty q' = not_empty q \<and> q_lock q' = q_lock q"
proof -
  have i: "q_head q < 64" "q_tail q < 64" "length (q_buf q) = 64" using assms(1) by (simp_all add: intq_inv_def)
  note f = queued_cnt_facts [OF i(1,2)]
  have ne: "\<not> intq_empty q" using f(2) assms(2) length_queued [of q] by auto
  then have nw: "not_empty q = NULL" using assms(1) by (auto simp: intq_inv_def)
  define r where "r = q\<lparr>q_tail := next_pos (q_tail q), not_full := NULL\<rparr>"
  have qr: "queued q = q_buf q ! q_tail q # queued r" by (rule queued_getc [OF i(1,2) ne r_def])
  have "queued_cnt q = Suc (queued_cnt r)" using arg_cong [OF qr, of length] by (simp add: length_queued)
  then have nf: "\<not> intq_full r" using queued_cnt_facts(3) [of r] i f(1,7) by (simp add: r_def)
  then have "intq_getc in_intr cur q = Some (Return (q_buf q ! q_tail q) (not_full q) r)"
    using ne i by (simp add: intq_getc_def signal_not_full_def intq_full_def r_def)
  moreover have "intq_inv r" using assms(1) i f(7) nw by (simp add: intq_inv_def r_def)
  ultimately show ?thesis using qr by (auto simp: r_def)
qed

interpretation iq: byte_channel intq_inv queued 63 intr_putc intr_getc
proof
  show "\<exists>q'. intr_putc b q = Some q' \<and> intq_inv q' \<and> queued q' = queued q @ [b]"
    if "intq_inv q" "length (queued q) < 63" for q b
    using intq_putc_spec [OF that, of True NULL b] by (auto simp: intr_putc_def)
  show "\<exists>q'. intr_getc q = Some (hd (queued q), q') \<and> intq_inv q' \<and> queued q' = tl (queued q)"
    if "intq_inv q" "queued q \<noteq> []" for q
    using intq_getc_spec [OF that, of True NULL] by (auto simp: intr_getc_def)
qed

section \<open>Properties\<close>

lemma intq_putc_turn:
  assumes "intq_inv q" "cur \<noteq> NULL"
  shows "case intq_putc in_intr cur b q of
      None \<Rightarrow> in_intr \<and> length (queued q) = 63
    | Some (Return _ w q') \<Rightarrow> queued q' = queued q @ [b] \<and> w = not_empty q \<and> not_empty q' = NULL \<and> intq_inv q'
    | Some (Sleep q') \<Rightarrow> \<not> in_intr \<and> length (queued q) = 63 \<and> queued q' = queued q \<and> not_full q' = cur \<and> intq_inv q'
    | Some Contend \<Rightarrow> \<not> in_intr \<and> length (queued q) = 63 \<and> 0 < q_lock q"
proof (cases "intq_full q")
  case True
  have "queued (q\<lparr>q_lock := c, not_full := d\<rparr>) = queued q" for c d by (simp add: queued_def queued_cnt_def)
  then show ?thesis using queued_cnt_facts(2,3) [of q] True assms
    by (cases in_intr; cases "q_lock q = NULL \<or> q_lock q = cur")
      (auto simp: intq_putc_def putc_acquire_def wait_not_full_def length_queued intq_inv_def intq_full_def intq_empty_def)
next
  case False
  then show ?thesis using intq_putc_spec [OF assms(1), of in_intr cur b] queued_cnt_facts(1,3) [of q] assms(1)
    by (auto simp: length_queued intq_inv_def)
qed

lemma intq_getc_turn:
  assumes "intq_inv q" "cur \<noteq> NULL"
  shows "case intq_getc in_intr cur q of
      None \<Rightarrow> in_intr \<and> queued q = []
    | Some (Return c w q') \<Rightarrow> queued q = c # queued q' \<and> w = not_full q \<and> not_full q' = NULL \<and> intq_inv q'
    | Some (Sleep q') \<Rightarrow> \<not> in_intr \<and> queued q = [] \<and> queued q' = queued q \<and> not_empty q' = cur \<and> intq_inv q'
    | Some Contend \<Rightarrow> \<not> in_intr \<and> queued q = [] \<and> 0 < q_lock q"
proof -
  have e: "queued q = [] \<longleftrightarrow> intq_empty q"
    using queued_cnt_facts(2) [of q] assms(1) length_queued [of q] by (auto simp: intq_inv_def)
  show ?thesis
  proof (cases "intq_empty q")
    case True
    have "queued (q\<lparr>q_lock := c, not_empty := d\<rparr>) = queued q" for c d by (simp add: queued_def queued_cnt_def)
    then show ?thesis using queued_cnt_facts(2,3) [of q] True assms e
      by (cases in_intr; cases "q_lock q = NULL \<or> q_lock q = cur")
        (auto simp: intq_getc_def getc_acquire_def wait_not_empty_def intq_inv_def intq_full_def intq_empty_def)
  next
    case False
    then show ?thesis using intq_getc_spec [OF assms(1), of in_intr cur] e by auto
  qed
qed

text \<open>
  C22: an interrupt queue is a bounded FIFO queue of 63 bytes.  A turn of \<open>intq_putc\<close> appends the byte
  unless the queue is full, and hands over the thread that waits for data; a turn of \<open>intq_getc\<close> takes
  the oldest byte unless the queue is empty, and hands over the thread that waits for space; a turn
  panics only in a call from an interrupt handler that would have to sleep, and a thread goes to sleep in
  \<open>wait\<close> only while its condition is false.  A thread that got the lock only after it had to wait for
  it enters \<open>wait\<close> without testing its condition again, and panics there exactly if the condition has
  become true in the meantime.  A thread that was woken leaves the queue as it is when it releases the lock.
\<close>

theorem intq_bounded_fifo:
  assumes "intq_inv q" "cur \<noteq> NULL"
  shows "(case intq_putc in_intr cur b q of
      None \<Rightarrow> in_intr \<and> length (queued q) = 63
    | Some (Return _ w q') \<Rightarrow> queued q' = queued q @ [b] \<and> w = not_empty q \<and> not_empty q' = NULL \<and> intq_inv q'
    | Some (Sleep q') \<Rightarrow> \<not> in_intr \<and> length (queued q) = 63 \<and> queued q' = queued q \<and> not_full q' = cur \<and> intq_inv q'
    | Some Contend \<Rightarrow> \<not> in_intr \<and> length (queued q) = 63 \<and> 0 < q_lock q)
   \<and> (case intq_getc in_intr cur q of
      None \<Rightarrow> in_intr \<and> queued q = []
    | Some (Return c w q') \<Rightarrow> queued q = c # queued q' \<and> w = not_full q \<and> not_full q' = NULL \<and> intq_inv q'
    | Some (Sleep q') \<Rightarrow> \<not> in_intr \<and> queued q = [] \<and> queued q' = queued q \<and> not_empty q' = cur \<and> intq_inv q'
    | Some Contend \<Rightarrow> \<not> in_intr \<and> queued q = [] \<and> 0 < q_lock q)
   \<and> (q_lock q = NULL \<longrightarrow>
        (putc_acquire False cur q = None \<longleftrightarrow> length (queued q) \<noteq> 63) \<and> (getc_acquire False cur q = None \<longleftrightarrow> queued q \<noteq> []))
   \<and> (not_empty q = NULL \<and> not_full q = NULL \<longrightarrow> intq_inv (intq_resume q) \<and> queued (intq_resume q) = queued q)"
proof -
  have i: "q_head q < 64" "q_tail q < 64" using assms(1) by (simp_all add: intq_inv_def)
  note f = queued_cnt_facts [OF i]
  have e: "queued q = [] \<longleftrightarrow> intq_empty q" using f(2) length_queued [of q] by auto
  have "(putc_acquire False cur q = None \<longleftrightarrow> length (queued q) \<noteq> 63) \<and> (getc_acquire False cur q = None \<longleftrightarrow> queued q \<noteq> [])" if "q_lock q = NULL"
    using that f(2,3) e by (auto simp: putc_acquire_def getc_acquire_def wait_not_full_def wait_not_empty_def kassert_def
      length_queued intq_full_def intq_empty_def)
  moreover have "intq_inv (intq_resume q) \<and> queued (intq_resume q) = queued q" if "not_empty q = NULL \<and> not_full q = NULL"
    using that assms(1) by (simp add: intq_inv_def intq_resume_def queued_def queued_cnt_def)
  ultimately show ?thesis using intq_putc_turn [OF assms] intq_getc_turn [OF assms] by blast
qed

theorem intq_bounded_fifo_witness:
  "\<exists>w q'. intq_putc False 1 65 (intq_init (replicate 64 0)) = Some (Return () w q') \<and> queued q' = [65] \<and> getc_acquire False 2 q' = None"
proof -
  let ?q = "intq_init (replicate 64 0)"
  have i: "intq_inv ?q" by (simp add: intq_inv_def intq_init_def)
  have q0: "queued ?q = []" by (simp add: queued_def queued_cnt_def intq_init_def)
  obtain w q' where p: "intq_putc False 1 65 ?q = Some (Return () w q')" "q_lock q' = NULL"
    using intq_putc_spec [OF i, of False 1 65] q0 by (auto simp: intq_init_def)
  have q': "queued q' = [65]" "intq_inv q'" using intq_bounded_fifo [OF i, of 1 False 65] p(1) q0 by auto
  then show ?thesis using intq_bounded_fifo [OF q'(2), of 2 False 0] p by auto
qed

end
