(* ===== verification/Krandom.thy ===== *)
theory Krandom
  imports Prelude "HOL-Library.Multiset"
begin

text \<open>
  The pseudo-random number generator (\<open>lib/random.c\<close>).  The static variables are a record; the array \<open>s\<close>
  is a list of 256 bytes, so an index that is a byte is always in range.
\<close>

record rng_state =
  rc4_s :: "u8 list"
  s_i :: u8
  s_j :: u8
  inited :: bool

definition swap_byte :: "nat \<Rightarrow> nat \<Rightarrow> u8 list \<Rightarrow> u8 list" where
  "swap_byte a b s = (let t = s ! a; s = s[a := s ! b] in s[b := t])"

definition seed_byte :: "u32 \<Rightarrow> nat \<Rightarrow> u8" where
  "seed_byte seed i = ucast (drop_bit (8 * (i mod 4)) seed)"

fun key_loop :: "u32 \<Rightarrow> nat list \<Rightarrow> u8 \<Rightarrow> u8 list \<Rightarrow> u8 list" where
  "key_loop seed [] j s = s"
| "key_loop seed (i # is) j s =
     (let j = j + (s ! i + seed_byte seed i) in key_loop seed is j (swap_byte i (unat j) s))"

definition random_init :: "u32 \<Rightarrow> rng_state \<Rightarrow> rng_state" where
  "random_init seed g =
     \<lparr>rc4_s = key_loop seed [0..<256] 0 (map word_of_nat [0..<256]), s_i = 0, s_j = 0, inited = True\<rparr>"

fun bytes_loop :: "nat \<Rightarrow> rng_state \<Rightarrow> u8 list \<times> rng_state" where
  "bytes_loop 0 g = ([], g)"
| "bytes_loop (Suc n) g =
     (let g = g\<lparr>s_i := s_i g + 1\<rparr>;
          g = g\<lparr>s_j := s_j g + rc4_s g ! unat (s_i g)\<rparr>;
          g = g\<lparr>rc4_s := swap_byte (unat (s_i g)) (unat (s_j g)) (rc4_s g)\<rparr>;
          s_k = rc4_s g ! unat (s_i g) + rc4_s g ! unat (s_j g);
          (rest, g') = bytes_loop n g
      in (rc4_s g ! unat s_k # rest, g'))"

definition random_bytes :: "nat \<Rightarrow> rng_state \<Rightarrow> u8 list \<times> rng_state" where
  "random_bytes cnt g = (let g = (if inited g then g else random_init 0 g) in bytes_loop cnt g)"

definition random_ulong :: "rng_state \<Rightarrow> u32 \<times> rng_state" where
  "random_ulong g = (let (bs, g) = random_bytes 4 g
     in (fold (\<lambda>b w. push_bit 8 w OR ucast b) (rev bs) 0, g))"

section \<open>The state stays a permutation of the bytes\<close>

definition rng_inv :: "rng_state \<Rightarrow> bool" where
  "rng_inv g \<longleftrightarrow> (inited g \<longrightarrow> mset (rc4_s g) = mset (map word_of_nat [0..<256]))"

lemma mset_swap_byte [simp]: "a < length s \<Longrightarrow> b < length s \<Longrightarrow> mset (swap_byte a b s) = mset s"
  by (simp add: swap_byte_def Let_def mset_swap)

lemma length_swap_byte [simp]: "length (swap_byte a b s) = length s"
  by (simp add: swap_byte_def Let_def)

lemma unat_byte: "unat (b :: u8) < 256"
  using unat_lt2p [of b] by simp

lemma mset_key_loop: "length s = 256 \<Longrightarrow> set is \<subseteq> {..<256} \<Longrightarrow> mset (key_loop seed is j s) = mset s"
  by (induction seed "is" j s rule: key_loop.induct) (simp_all add: Let_def unat_byte)

lemma rng_inv_init: "rng_inv (random_init seed g)" "inited (random_init seed g)"
  unfolding rng_inv_def random_init_def by (simp_all add: mset_key_loop atLeast0LessThan)

lemma rng_inv_length: "rng_inv g \<Longrightarrow> inited g \<Longrightarrow> length (rc4_s g) = 256"
  unfolding rng_inv_def using mset_eq_length by fastforce

lemma bytes_loop_inv:
  "rng_inv g \<Longrightarrow> inited g \<Longrightarrow> bytes_loop n g = (bs, g') \<Longrightarrow> rng_inv g' \<and> inited g' \<and> length bs = n"
proof (induction n arbitrary: g bs)
  case (Suc n)
  let ?i = "s_i g + 1" let ?j = "s_j g + rc4_s g ! unat ?i"
  let ?g = "g\<lparr>s_i := ?i, s_j := ?j, rc4_s := swap_byte (unat ?i) (unat ?j) (rc4_s g)\<rparr>"
  have l: "length (rc4_s g) = 256" by (rule rng_inv_length [OF Suc.prems(1,2)])
  have inv: "rng_inv ?g" "inited ?g" using Suc.prems(1,2) by (simp_all add: rng_inv_def l unat_byte)
  obtain rest where r: "bytes_loop n ?g = (rest, g')" "length bs = Suc (length rest)"
    using Suc.prems(3) by (auto simp: Let_def split: prod.splits)
  from Suc.IH [OF inv r(1)] r(2) show ?case by simp
qed auto

lemma bytes_loop_add:
  "bytes_loop (m + n) g = (let (a, g) = bytes_loop m g; (b, g) = bytes_loop n g in (a @ b, g))"
  by (induction m arbitrary: g) (simp_all add: Let_def split: prod.splits)

lemma random_state_facts:
  assumes "rng_inv g" "random_bytes m g = (bs, g1)" "random_bytes n g1 = (cs, g2)"
  shows "rng_inv g2" "distinct (rc4_s g2)" "set (rc4_s g2) = UNIV" "length bs = m"
    "random_bytes (m + n) g = (bs @ cs, g2)"
proof -
  let ?g = "if inited g then g else random_init 0 g"
  have g: "rng_inv ?g" "inited ?g" using assms(1) rng_inv_init by auto
  have 1: "bytes_loop m ?g = (bs, g1)" using assms(2) by (simp add: random_bytes_def Let_def)
  note i1 = bytes_loop_inv [OF g 1]
  have 2: "bytes_loop n g1 = (cs, g2)" using assms(3) i1 by (simp add: random_bytes_def Let_def)
  note i2 = bytes_loop_inv [OF conjunct1 [OF i1] conjunct1 [OF conjunct2 [OF i1]] 2]
  have inj: "inj_on (word_of_nat :: nat \<Rightarrow> u8) {..<256}"
    by (rule inj_on_inverseI [where g = unat]) (simp add: unat_of_nat)
  have d: "distinct (map (word_of_nat :: nat \<Rightarrow> u8) [0..<256])"
    using inj by (simp add: distinct_map atLeast0LessThan)
  show "rng_inv g2" "length bs = m" using i1 i2 by simp_all
  have m: "mset (rc4_s g2) = mset (map word_of_nat [0..<256])" using i2 by (simp add: rng_inv_def)
  show "distinct (rc4_s g2)" using mset_eq_imp_distinct_iff [OF m] d by simp
  have "(b :: u8) \<in> set (map word_of_nat [0..<256])" for b
    using unat_byte [of b] by (auto intro: image_eqI [where x = "unat b"])
  then show "set (rc4_s g2) = UNIV" using mset_eq_setD [OF m] by auto
  show "random_bytes (m + n) g = (bs @ cs, g2)"
    using bytes_loop_add [of m n ?g] 1 2 by (simp add: random_bytes_def Let_def)
qed

text \<open>
  C39: Whatever bytes are drawn after whatever seed, the state array of the generator stays a
  permutation of all 256 byte values, so every index the generator computes is in range; a request
  for \<open>m + n\<close> bytes gives the bytes of a request for \<open>m\<close> followed by one for \<open>n\<close>.
\<close>

theorem random_state_permutation:
  assumes "rng_inv g" "random_bytes m g = (bs, g1)" "random_bytes n g1 = (cs, g2)"
  shows "rng_inv g2 \<and> distinct (rc4_s g2) \<and> set (rc4_s g2) = UNIV \<and> length bs = m
    \<and> random_bytes (m + n) g = (bs @ cs, g2)"
  using random_state_facts [OF assms] by simp

definition unseeded :: rng_state where
  "unseeded = \<lparr>rc4_s = replicate 256 0, s_i = 0, s_j = 0, inited = False\<rparr>"

theorem random_state_permutation_witness:
  "rng_inv unseeded \<and> set (rc4_s (snd (random_bytes 2 (snd (random_bytes 3 unseeded))))) = UNIV"
proof -
  have i: "rng_inv unseeded" by (simp add: rng_inv_def unseeded_def)
  obtain bs g1 where 1: "random_bytes 3 unseeded = (bs, g1)" by (cases "random_bytes 3 unseeded")
  obtain cs g2 where 2: "random_bytes 2 g1 = (cs, g2)" by (cases "random_bytes 2 g1")
  show ?thesis using random_state_permutation [OF i 1 2] i 1 2 by simp
qed

end
