(* ===== verification/Rtc.thy ===== *)
theory Rtc
  imports Ctype
begin

text \<open>
  The real-time clock (\<open>devices/rtc.c\<close>).  The clock chip is the parameter \<open>cmos\<close>: \<open>cmos n i\<close> is the byte that
  the \<open>n\<close>-th read of the chip returns when register \<open>i\<close> is selected.
\<close>

definition RTC_REG_SEC :: u8 where "RTC_REG_SEC = 0"
definition RTC_REG_MIN :: u8 where "RTC_REG_MIN = 2"
definition RTC_REG_HOUR :: u8 where "RTC_REG_HOUR = 4"
definition RTC_REG_MDAY :: u8 where "RTC_REG_MDAY = 7"
definition RTC_REG_MON :: u8 where "RTC_REG_MON = 8"
definition RTC_REG_YEAR :: u8 where "RTC_REG_YEAR = 9"

definition bcd_to_bin :: "u8 \<Rightarrow> int" where
  "bcd_to_bin x = uint (x AND 0x0f) + uint (drop_bit 4 x) * 10"

record rtc_time =
  rtc_sec :: int
  rtc_min :: int
  rtc_hour :: int
  rtc_mday :: int
  rtc_mon :: int
  rtc_year :: int

text \<open>The loop that reads until the seconds are the same before and after, from the \<open>n\<close>-th read on.\<close>

partial_function (option) read_stable :: "(nat \<Rightarrow> u8 \<Rightarrow> u8) \<Rightarrow> nat \<Rightarrow> rtc_time option" where
  "read_stable cmos n = (
     let sec = bcd_to_bin (cmos n RTC_REG_SEC);
         min = bcd_to_bin (cmos (n + 1) RTC_REG_MIN);
         hour = bcd_to_bin (cmos (n + 2) RTC_REG_HOUR);
         mday = bcd_to_bin (cmos (n + 3) RTC_REG_MDAY);
         mon = bcd_to_bin (cmos (n + 4) RTC_REG_MON);
         year = bcd_to_bin (cmos (n + 5) RTC_REG_YEAR)
     in if sec \<noteq> bcd_to_bin (cmos (n + 6) RTC_REG_SEC) then read_stable cmos (n + 7)
        else Some \<lparr>rtc_sec = sec, rtc_min = min, rtc_hour = hour, rtc_mday = mday, rtc_mon = mon, rtc_year = year\<rparr>)"

definition days_per_month :: "int list" where
  "days_per_month = [31, 28, 31, 30, 31, 30, 31, 31, 30, 31, 30, 31]"

text \<open>The sum over \<open>i = 1, \<dots>, mon\<close>; a month beyond 12 reads past the array.\<close>

definition month_seconds :: "nat \<Rightarrow> u32 \<Rightarrow> u32 option" where
  "month_seconds mon time = do {
     kassert (mon \<le> 12);
     Some (fold (\<lambda>i time. time + word_of_int (days_per_month ! (i - 1) * 24 * 60 * 60)) [1..<mon + 1] time) }"

text \<open>C's division rounds towards zero, which matters for the year 1970; \<open>int\<close> arithmetic may not overflow.\<close>

definition to_seconds :: "rtc_time \<Rightarrow> u32 option" where
  "to_seconds t = do {
     let year = (if rtc_year t < 70 then rtc_year t + 100 else rtc_year t) - 70;
     let since = (year * 365 + (if year = 0 then 0 else (year - 1) div 4)) * 24 * 60 * 60;
     kassert (in_int since);
     time \<leftarrow> month_seconds (nat (rtc_mon t)) (word_of_int since);
     let time = (if rtc_mon t > 2 \<and> year mod 4 = 0 then time + 24 * 60 * 60 else time);
     let time = time + word_of_int ((rtc_mday t - 1) * 24 * 60 * 60);
     let time = time + word_of_int (rtc_hour t * 60 * 60);
     let time = time + word_of_int (rtc_min t * 60);
     Some (time + word_of_int (rtc_sec t)) }"

definition rtc_get_time :: "(nat \<Rightarrow> u8 \<Rightarrow> u8) \<Rightarrow> u32 option" where
  "rtc_get_time cmos = Option.bind (read_stable cmos 0) to_seconds"

section \<open>Reading\<close>

lemma bcd_to_bin_nonneg [simp]: "0 \<le> bcd_to_bin x"
  by (simp add: bcd_to_bin_def)

definition snapshot :: "(u8 \<Rightarrow> u8) \<Rightarrow> rtc_time" where
  "snapshot r = \<lparr>rtc_sec = bcd_to_bin (r RTC_REG_SEC), rtc_min = bcd_to_bin (r RTC_REG_MIN),
     rtc_hour = bcd_to_bin (r RTC_REG_HOUR), rtc_mday = bcd_to_bin (r RTC_REG_MDAY),
     rtc_mon = bcd_to_bin (r RTC_REG_MON), rtc_year = bcd_to_bin (r RTC_REG_YEAR)\<rparr>"

text \<open>A clock that ticks at most once during any two rounds of the loop is read within two rounds.\<close>

lemma read_stable_tick:
  assumes "\<And>i. i < 14 \<Longrightarrow> cmos (n + i) = (if i < k then old else new)"
  shows "read_stable cmos n = Some (snapshot old) \<or> read_stable cmos n = Some (snapshot new)
    \<or> bcd_to_bin (old RTC_REG_SEC) = bcd_to_bin (new RTC_REG_SEC)"
proof (cases "bcd_to_bin (old RTC_REG_SEC) = bcd_to_bin (new RTC_REG_SEC)")
  case ne: False
  have c: "cmos n = (if 0 < k then old else new)" using assms [of 0] by simp
  note cs = c assms [of 1] assms [of 2] assms [of 3] assms [of 4] assms [of 5] assms [of 6]
  show ?thesis
  proof (cases "0 < k \<and> k \<le> 6")
    case False
    then consider "k = 0" | "6 < k" by linarith
    then show ?thesis
      by cases (subst (1 2) read_stable.simps; use cs in \<open>simp add: Let_def snapshot_def\<close>)+
  next
    case True
    have 2: "read_stable cmos (n + 7) = Some (snapshot new)"
      using True assms [of 7] assms [of 8] assms [of 9] assms [of 10] assms [of 11] assms [of 12] assms [of 13]
      by (subst read_stable.simps) (simp add: Let_def snapshot_def ac_simps)
    show ?thesis using True ne cs 2 by (subst (1 2) read_stable.simps) (simp add: Let_def)
  qed
qed simp

lemma read_stable_const: "(\<And>i. cmos i = r) \<Longrightarrow> read_stable cmos n = Some (snapshot r)"
  by (subst read_stable.simps) (simp add: Let_def snapshot_def)

section \<open>The date\<close>

text \<open>Days from January 1, 1970 to a date of the Gregorian calendar, for years up to 2099; \<open>y\<close> counts from 1970.\<close>

definition leap :: "int \<Rightarrow> bool" where "leap y \<longleftrightarrow> (1970 + y) mod 4 = 0"

fun civil_days :: "int \<Rightarrow> nat \<Rightarrow> int \<Rightarrow> int" where
  "civil_days y m d = sum_list (map (\<lambda>i. if leap i then 366 else 365) [0..y - 1])
     + sum_list (take (m - 1) days_per_month) + (if m > 2 \<and> leap y then 1 else 0) + (d - 1)"

definition unix_time :: "int \<Rightarrow> nat \<Rightarrow> int \<Rightarrow> int \<Rightarrow> int \<Rightarrow> int \<Rightarrow> int" where
  "unix_time y m d hour mi sec = ((civil_days y m d * 24 + hour) * 60 + mi) * 60 + sec"

text \<open>What the code counts in days.\<close>

definition code_days :: "int \<Rightarrow> nat \<Rightarrow> int \<Rightarrow> int" where
  "code_days y m d = y * 365 + (if y = 0 then 0 else (y - 1) div 4)
     + sum_list (take m days_per_month) + (if m > 2 \<and> y mod 4 = 0 then 1 else 0) + (d - 1)"

lemma month_fold: "m \<le> 12 \<Longrightarrow>
  fold (\<lambda>i time. time + word_of_int (days_per_month ! (i - 1) * 24 * 60 * 60)) [1..<m + 1] time
    = (time + word_of_int (sum_list (take m days_per_month) * 86400) :: u32)"
proof (induction m)
  case (Suc m)
  have "m < length days_per_month" using Suc.prems by (simp add: days_per_month_def)
  then have "sum_list (take (Suc m) days_per_month) = sum_list (take m days_per_month) + days_per_month ! m"
    by (simp add: take_Suc_conv_app_nth)
  moreover have "[1..<Suc m + 1] = [1..<m + 1] @ [Suc m]" by simp
  ultimately show ?case using Suc by (simp add: algebra_simps del: upt_Suc)
qed simp

lemma month_seconds_ok: "m \<le> 12 \<Longrightarrow> month_seconds m time = Some (time + word_of_int (sum_list (take m days_per_month) * 86400))"
  unfolding month_seconds_def month_fold by simp

lemma to_seconds_code:
  assumes "rtc_year t = (70 + y) mod 100" "0 \<le> y" "y \<le> 68" "rtc_mon t = int m" "m \<le> 12"
  shows "to_seconds t = Some (word_of_int (((code_days y m (rtc_mday t) * 24 + rtc_hour t) * 60 + rtc_min t) * 60 + rtc_sec t))"
proof -
  have year: "(if rtc_year t < 70 then rtc_year t + 100 else rtc_year t) - 70 = y"
  proof (cases "y < 30")
    case True then show ?thesis using assms(1,2) by simp
  next
    case False
    then have "(70 + y) mod 100 = y - 30" using assms(3) mod_pos_pos_trivial [of "y - 30" 100] mod_add_self2 [of "y - 30" 100] by (simp add: algebra_simps)
    then show ?thesis using assms(1,3) False by simp
  qed
  have "in_int ((y * 365 + (if y = 0 then 0 else (y - 1) div 4)) * 24 * 60 * 60)"
    using assms(2,3) by (auto simp: in_int_def)
  then show ?thesis
    unfolding to_seconds_def Let_def year assms(4) code_days_def nat_int month_seconds_ok [OF assms(5)]
    by (simp add: algebra_simps)
qed

lemma quarter_cases:
  obtains q r where "y = 4 * q + r" "r = 0 \<or> r = 1 \<or> r = 2 \<or> r = (3 :: int)"
proof
  show "y = 4 * (y div 4) + y mod 4" by simp
  have "0 \<le> y mod 4" "y mod 4 < 4" by simp_all
  then show "y mod 4 = 0 \<or> y mod 4 = 1 \<or> y mod 4 = 2 \<or> y mod 4 = 3" by linarith
qed

lemma div_leap: "(y + 2) div 4 = (y + 1) div 4 + (if leap y then 1 else 0)"
proof -
  obtain q r where y: "y = 4 * q + r" and r: "r = 0 \<or> r = 1 \<or> r = 2 \<or> r = 3" by (rule quarter_cases)
  have "(1970 + y) mod 4 = (1970 + r) mod 4" using mod_mult_self2 [of "1970 + r" 4 q] by (simp add: y ac_simps)
  moreover have "(y + k) div 4 = q + (r + k) div 4" for k using div_mult_self2 [of 4 "r + k" q] by (simp add: y ac_simps)
  ultimately show ?thesis using r by (auto simp: leap_def)
qed

lemma civil_years: "0 \<le> y \<Longrightarrow> sum_list (map (\<lambda>i. if leap i then 366 else 365) [0..y - 1]) = y * 365 + (y + 1) div 4"
proof (induction y rule: int_ge_induct)
  case (step y)
  have "[0..y + 1 - 1] = [0..y - 1] @ [y]" using step.hyps upto_rec2 [of 0 y] by simp
  then show ?case using step div_leap [of y] by (simp add: add.commute [of 2])
qed simp

definition rtc_error :: "int \<Rightarrow> nat \<Rightarrow> int" where
  "rtc_error y m = days_per_month ! (m - 1) - ((y + 1) div 4 - (if y = 0 then 0 else (y - 1) div 4))
     + (if m > 2 \<and> y mod 4 = 0 then 1 else 0) - (if m > 2 \<and> leap y then 1 else 0)"

lemma code_civil: "0 \<le> y \<Longrightarrow> 1 \<le> m \<Longrightarrow> m \<le> 12 \<Longrightarrow> code_days y m d = civil_days y m d + rtc_error y m"
proof -
  assume *: "0 \<le> y" "1 \<le> m" "m \<le> 12"
  then obtain k where m: "m = Suc k" by (cases m) auto
  then have "k < length days_per_month" using * by (simp add: days_per_month_def)
  then have "sum_list (take m days_per_month) = sum_list (take (m - 1) days_per_month) + days_per_month ! (m - 1)"
    by (simp add: m take_Suc_conv_app_nth)
  then show ?thesis using * by (simp add: code_days_def rtc_error_def civil_years)
qed

lemma month_lengths:
  "\<forall>i \<in> set [0..<12]. 28 \<le> days_per_month ! i \<and> days_per_month ! i \<le> 31 \<and> (days_per_month ! i = 28 \<longrightarrow> i = 1)"
  by code_simp

lemma rtc_error_bounds: "0 \<le> y \<Longrightarrow> 1 \<le> m \<Longrightarrow> m \<le> 12 \<Longrightarrow> 27 \<le> rtc_error y m \<and> rtc_error y m \<le> 32"
proof -
  assume *: "0 \<le> y" "1 \<le> m" "m \<le> 12"
  then have d: "28 \<le> days_per_month ! (m - 1) \<and> days_per_month ! (m - 1) \<le> 31 \<and> (days_per_month ! (m - 1) = 28 \<longrightarrow> m = 2)"
    using month_lengths [rule_format, of "m - 1"] by (cases m) auto
  have "0 \<le> (y + 1) div 4 - (if y = 0 then 0 else (y - 1) div 4)"
    "(y + 1) div 4 - (if y = 0 then 0 else (y - 1) div 4) \<le> 1"
    using zdiv_mono1 [of "y - 1" "y + 1" 4] zdiv_mono1 [of "y + 1" "y - 1 + 4" 4] div_add_self2 [of 4 "y - 1"] by auto
  then show ?thesis using d by (auto simp: rtc_error_def)
qed

text \<open>
  C33: The clock is read once it is stable, and the time returned is then between 27 and 32 days ahead
  of the date the clock shows: the loop over the months includes the current one, and the leap years
  are those of a count that starts at a leap year, which 1970 is not.
\<close>

theorem rtc_runs_ahead:
  assumes "\<And>n. cmos n = r" "snapshot r = \<lparr>rtc_sec = sec, rtc_min = mi, rtc_hour = hour, rtc_mday = d,
      rtc_mon = int m, rtc_year = (70 + y) mod 100\<rparr>" "0 \<le> y" "y \<le> 68" "1 \<le> m" "m \<le> 12"
  shows "\<exists>e. 27 \<le> e \<and> e \<le> 32
    \<and> rtc_get_time cmos = Some (word_of_int (unix_time y m d hour mi sec + e * 86400))"
proof (intro exI conjI)
  show "27 \<le> rtc_error y m" "rtc_error y m \<le> 32" using rtc_error_bounds [OF assms(3,5,6)] by auto
  have "rtc_get_time cmos = to_seconds (snapshot r)" using assms(1) by (simp add: rtc_get_time_def read_stable_const)
  also have "\<dots> = Some (word_of_int (((code_days y m d * 24 + hour) * 60 + mi) * 60 + sec))"
    using to_seconds_code [of "snapshot r" y m] assms(2-6) by simp
  also have "((code_days y m d * 24 + hour) * 60 + mi) * 60 + sec = unix_time y m d hour mi sec + rtc_error y m * 86400"
    unfolding code_civil [OF assms(3,5,6)] unix_time_def by (simp add: algebra_simps del: civil_days.simps)
  finally show "rtc_get_time cmos = Some (word_of_int (unix_time y m d hour mi sec + rtc_error y m * 86400))" .
qed

definition epoch :: "u8 \<Rightarrow> u8" where
  "epoch i = (if i = RTC_REG_YEAR then 0x70 else if i = RTC_REG_MON \<or> i = RTC_REG_MDAY then 1 else 0)"

theorem rtc_runs_ahead_witness:
  "unix_time 0 1 1 0 0 0 = 0 \<and>
   (\<exists>e. 27 \<le> e \<and> e \<le> 32 \<and> rtc_get_time (\<lambda>_. epoch) = Some (word_of_int (unix_time 0 1 1 0 0 0 + e * 86400)))"
proof
  show "unix_time 0 1 1 0 0 0 = 0" by (simp add: unix_time_def)
  show "\<exists>e. 27 \<le> e \<and> e \<le> 32 \<and> rtc_get_time (\<lambda>_. epoch) = Some (word_of_int (unix_time 0 1 1 0 0 0 + e * 86400))"
    by (rule rtc_runs_ahead [where r = epoch])
      (simp_all add: snapshot_def epoch_def bcd_to_bin_def RTC_REG_SEC_def RTC_REG_MIN_def RTC_REG_HOUR_def
        RTC_REG_MDAY_def RTC_REG_MON_def RTC_REG_YEAR_def)
qed

end
