(* ===== verification/Descriptors.thy ===== *)
theory Descriptors
  imports Palloc
begin

text \<open>
  The descriptor tables of the processor: segments (\<open>userprog/gdt.c\<close>), the task state segment
  (\<open>userprog/tss.c\<close>), interrupt gates and the registration of handlers (\<open>threads/interrupt.c\<close>,
  \<open>exception_init\<close> of \<open>userprog/exception.c\<close>, the registration in \<open>syscall_init\<close> of
  \<open>userprog/syscall.c\<close>).  A function pointer is its
  address; the addresses of the assembly stubs are a parameter.
\<close>

section \<open>Segment descriptors\<close>

definition SEL_NULL :: nat where "SEL_NULL = 0x00"
definition SEL_KCSEG :: nat where "SEL_KCSEG = 0x08"
definition SEL_KDSEG :: nat where "SEL_KDSEG = 0x10"
definition SEL_UCSEG :: nat where "SEL_UCSEG = 0x1B"
definition SEL_UDSEG :: nat where "SEL_UDSEG = 0x23"
definition SEL_TSS :: nat where "SEL_TSS = 0x28"
definition SEL_CNT :: nat where "SEL_CNT = 6"

lemmas sel_defs = SEL_NULL_def SEL_KCSEG_def SEL_KDSEG_def SEL_UCSEG_def SEL_UDSEG_def SEL_TSS_def SEL_CNT_def

datatype seg_class = CLS_SYSTEM | CLS_CODE_DATA
datatype seg_granularity = GRAN_BYTE | GRAN_PAGE

definition class_bit :: "seg_class \<Rightarrow> u32" where "class_bit c = (case c of CLS_SYSTEM \<Rightarrow> 0 | CLS_CODE_DATA \<Rightarrow> 1)"
definition gran_bit :: "seg_granularity \<Rightarrow> u32" where "gran_bit g = (case g of GRAN_BYTE \<Rightarrow> 0 | GRAN_PAGE \<Rightarrow> 1)"

definition make_seg_desc :: "u32 \<Rightarrow> u32 \<Rightarrow> seg_class \<Rightarrow> int \<Rightarrow> int \<Rightarrow> seg_granularity \<Rightarrow> u64 option" where
  "make_seg_desc base limit cls type dpl granularity = do {
     kassert (limit \<le> 0xfffff);
     kassert (0 \<le> type \<and> type \<le> 15);
     kassert (0 \<le> dpl \<and> dpl \<le> 3);
     let e0 = (limit AND 0xffff) OR push_bit 16 base;
     let e1 = ((drop_bit 16 base) AND 0xff) OR push_bit 8 (word_of_int type) OR push_bit 12 (class_bit cls)
       OR push_bit 13 (word_of_int dpl) OR push_bit 15 1 OR (limit AND 0xf0000) OR push_bit 22 1
       OR push_bit 23 (gran_bit granularity) OR (base AND 0xff000000);
     Some (ucast (e0 :: u32) OR push_bit 32 (ucast (e1 :: u32))) }"

definition make_code_desc :: "int \<Rightarrow> u64 option" where
  "make_code_desc dpl = make_seg_desc 0 0xfffff CLS_CODE_DATA 10 dpl GRAN_PAGE"

definition make_data_desc :: "int \<Rightarrow> u64 option" where
  "make_data_desc dpl = make_seg_desc 0 0xfffff CLS_CODE_DATA 2 dpl GRAN_PAGE"

definition make_tss_desc :: "u32 \<Rightarrow> u64 option" where
  "make_tss_desc laddr = make_seg_desc laddr 0x67 CLS_SYSTEM 9 0 GRAN_BYTE"

definition make_gdtr_operand :: "u16 \<Rightarrow> u32 \<Rightarrow> u64" where
  "make_gdtr_operand limit base = ucast limit OR push_bit 16 (ucast base)"

section \<open>The task state segment\<close>

text \<open>
  The fields that the kernel sets are words of the page at \<open>tss\<close>: \<open>esp0\<close> at offset 4, \<open>ss0\<close> in the lower half
  of the word at 8 and \<open>bitmap\<close> in the upper half of the word at 100.
\<close>

definition tss_update_mem :: "u32 \<Rightarrow> u32 \<Rightarrow> memory \<Rightarrow> memory option" where
  "tss_update_mem tss cur s = do {
     kassert (tss \<noteq> 0);
     Some (s\<lparr>mem := (mem s)(tss + 4 := cur + PGSIZE)\<rparr>) }"

definition tss_init :: "u32 \<Rightarrow> memory \<Rightarrow> (u32 \<times> memory) option" where
  "tss_init cur s = do {
     (tss, s) \<leftarrow> palloc_get_page (PAL_ASSERT OR PAL_ZERO) s;
     let s = s\<lparr>mem := (mem s)(tss + 8 := (mem s (tss + 8) AND 0xffff0000) OR of_nat SEL_KDSEG)\<rparr>;
     let s = s\<lparr>mem := (mem s)(tss + 100 := (mem s (tss + 100) AND 0xffff) OR push_bit 16 0xdfff)\<rparr>;
     s \<leftarrow> tss_update_mem tss cur s;
     Some (tss, s) }"

definition tss_get :: "u32 \<Rightarrow> u32 option" where
  "tss_get tss = do { kassert (tss \<noteq> 0); Some tss }"

text \<open>The table that \<open>gdt_init\<close> builds over its previous contents, and the operand with which it is loaded.\<close>

definition gdt_init :: "u32 \<Rightarrow> u32 \<Rightarrow> u64 list \<Rightarrow> (u64 list \<times> u64) option" where
  "gdt_init addr tss gdt = do {
     let gdt = gdt[SEL_NULL div 8 := 0];
     d \<leftarrow> make_code_desc 0; let gdt = gdt[SEL_KCSEG div 8 := d];
     d \<leftarrow> make_data_desc 0; let gdt = gdt[SEL_KDSEG div 8 := d];
     d \<leftarrow> make_code_desc 3; let gdt = gdt[SEL_UCSEG div 8 := d];
     d \<leftarrow> make_data_desc 3; let gdt = gdt[SEL_UDSEG div 8 := d];
     tss \<leftarrow> tss_get tss;
     d \<leftarrow> make_tss_desc tss;
     let gdt = gdt[SEL_TSS div 8 := d];
     Some (gdt, make_gdtr_operand (of_nat (8 * SEL_CNT - 1)) addr) }"

section \<open>Interrupt gates\<close>

definition INTR_CNT :: nat where "INTR_CNT = 256"

record intr_tables =
  idt :: "u64 list"
  intr_handlers :: "u32 list"
  intr_names :: "string list"
  unexpected_cnt :: "u32 list"
  idtr :: u64
  pic_out :: "(u16 \<times> u8) list"

definition make_gate :: "u32 \<Rightarrow> int \<Rightarrow> int \<Rightarrow> u64 option" where
  "make_gate fn dpl type = do {
     kassert (fn \<noteq> 0);
     kassert (0 \<le> dpl \<and> dpl \<le> 3);
     kassert (0 \<le> type \<and> type \<le> 15);
     let e0 = (fn AND 0xffff) OR push_bit 16 (of_nat SEL_KCSEG);
     let e1 = (fn AND 0xffff0000) OR push_bit 15 1 OR push_bit 13 (word_of_int dpl) OR push_bit 12 0 OR push_bit 8 (word_of_int type);
     Some (ucast (e0 :: u32) OR push_bit 32 (ucast (e1 :: u32))) }"

definition make_intr_gate :: "u32 \<Rightarrow> int \<Rightarrow> u64 option" where "make_intr_gate fn dpl = make_gate fn dpl 14"
definition make_trap_gate :: "u32 \<Rightarrow> int \<Rightarrow> u64 option" where "make_trap_gate fn dpl = make_gate fn dpl 15"

definition make_idtr_operand :: "u16 \<Rightarrow> u32 \<Rightarrow> u64" where
  "make_idtr_operand limit base = ucast limit OR push_bit 16 (ucast base)"

text \<open>The bytes that the interrupt controllers receive, each with its port.\<close>

definition pic_init :: "(u16 \<times> u8) list" where
  "pic_init = [(0x21, 0xff), (0xa1, 0xff),
     (0x20, 0x11), (0x21, 0x20), (0x21, 0x04), (0x21, 0x01),
     (0xa0, 0x11), (0xa1, 0x28), (0xa1, 0x02), (0xa1, 0x01),
     (0x21, 0x00), (0xa1, 0x00)]"

definition pic_end_of_interrupt :: "nat \<Rightarrow> (u16 \<times> u8) list option" where
  "pic_end_of_interrupt irq = do {
     kassert (0x20 \<le> irq \<and> irq < 0x30);
     Some ((0x20, 0x20) # (if irq \<ge> 0x28 then [(0xa0, 0x20)] else [])) }"

fun init_gates :: "(nat \<Rightarrow> u32) \<Rightarrow> nat list \<Rightarrow> u64 list \<Rightarrow> u64 list option" where
  "init_gates stubs [] t = Some t"
| "init_gates stubs (i # is) t = do { g \<leftarrow> make_intr_gate (stubs i) 0; init_gates stubs is (t[i := g]) }"

definition exception_names :: "(nat \<times> string) list" where
  "exception_names = [(0, ''#DE Divide Error''), (1, ''#DB Debug Exception''), (2, ''NMI Interrupt''),
     (3, ''#BP Breakpoint Exception''), (4, ''#OF Overflow Exception''), (5, ''#BR BOUND Range Exceeded Exception''),
     (6, ''#UD Invalid Opcode Exception''), (7, ''#NM Device Not Available Exception''), (8, ''#DF Double Fault Exception''),
     (9, ''Coprocessor Segment Overrun''), (10, ''#TS Invalid TSS Exception''), (11, ''#NP Segment Not Present''),
     (12, ''#SS Stack Fault Exception''), (13, ''#GP General Protection Exception''), (14, ''#PF Page-Fault Exception''),
     (16, ''#MF x87 FPU Floating-Point Error''), (17, ''#AC Alignment Check Exception''), (18, ''#MC Machine-Check Exception''),
     (19, ''#XF SIMD Floating-Point Exception'')]"

definition intr_init :: "(nat \<Rightarrow> u32) \<Rightarrow> u32 \<Rightarrow> intr_tables \<Rightarrow> intr_tables option" where
  "intr_init stubs addr s = do {
     t \<leftarrow> init_gates stubs [0..<INTR_CNT] (idt s);
     Some (s\<lparr>pic_out := pic_out s @ pic_init, idt := t, idtr := make_idtr_operand (of_nat (8 * INTR_CNT - 1)) addr,
       intr_names := fold (\<lambda>(i, n) ns. ns[i := n]) exception_names (replicate INTR_CNT ''unknown'')\<rparr>) }"

definition register_handler :: "(nat \<Rightarrow> u32) \<Rightarrow> u8 \<Rightarrow> int \<Rightarrow> bool \<Rightarrow> u32 \<Rightarrow> string \<Rightarrow> intr_tables \<Rightarrow> intr_tables option" where
  "register_handler stubs vec_no dpl level handler name s = do {
     kassert (intr_handlers s ! unat vec_no = 0);
     g \<leftarrow> (if level then make_trap_gate (stubs (unat vec_no)) dpl else make_intr_gate (stubs (unat vec_no)) dpl);
     Some (s\<lparr>idt := (idt s)[unat vec_no := g], intr_handlers := (intr_handlers s)[unat vec_no := handler],
       intr_names := (intr_names s)[unat vec_no := name]\<rparr>) }"

definition intr_register_ext :: "(nat \<Rightarrow> u32) \<Rightarrow> u8 \<Rightarrow> u32 \<Rightarrow> string \<Rightarrow> intr_tables \<Rightarrow> intr_tables option" where
  "intr_register_ext stubs vec_no handler name s = do {
     kassert (0x20 \<le> vec_no \<and> vec_no \<le> 0x2f);
     register_handler stubs vec_no 0 False handler name s }"

definition intr_register_int :: "(nat \<Rightarrow> u32) \<Rightarrow> u8 \<Rightarrow> int \<Rightarrow> bool \<Rightarrow> u32 \<Rightarrow> string \<Rightarrow> intr_tables \<Rightarrow> intr_tables option" where
  "intr_register_int stubs vec_no dpl level handler name s = do {
     kassert (vec_no < 0x20 \<or> vec_no > 0x2f);
     register_handler stubs vec_no dpl level handler name s }"

definition intr_name :: "u8 \<Rightarrow> intr_tables \<Rightarrow> string" where
  "intr_name vec s = intr_names s ! unat vec"

text \<open>An interrupt without a handler: the new table and whether a message is printed.\<close>

definition unexpected_interrupt :: "u8 \<Rightarrow> intr_tables \<Rightarrow> bool \<times> intr_tables" where
  "unexpected_interrupt vec s = (let n = unexpected_cnt s ! unat vec + 1
     in (n AND (n - 1) = 0, s\<lparr>unexpected_cnt := (unexpected_cnt s)[unat vec := n]\<rparr>))"

text \<open>What \<open>intr_handler\<close> does for a vector: call its handler, ignore it, or count it.\<close>

datatype dispatch = Handle u32 | Spurious | Unexpected bool

definition intr_dispatch :: "u8 \<Rightarrow> intr_tables \<Rightarrow> dispatch \<times> intr_tables" where
  "intr_dispatch vec s = (
     let handler = intr_handlers s ! unat vec
     in if handler \<noteq> 0 then (Handle handler, s)
        else if vec = 0x27 \<or> vec = 0x2f then (Spurious, s)
        else let (printed, s) = unexpected_interrupt vec s in (Unexpected printed, s))"

text \<open>\<open>kill\<close> and \<open>page_fault\<close> are the addresses of the handlers.\<close>

definition exception_init :: "(nat \<Rightarrow> u32) \<Rightarrow> u32 \<Rightarrow> u32 \<Rightarrow> intr_tables \<Rightarrow> intr_tables option" where
  "exception_init stubs kill page_fault s = do {
     s \<leftarrow> intr_register_int stubs 3 3 True kill ''#BP Breakpoint Exception'' s;
     s \<leftarrow> intr_register_int stubs 4 3 True kill ''#OF Overflow Exception'' s;
     s \<leftarrow> intr_register_int stubs 5 3 True kill ''#BR BOUND Range Exceeded Exception'' s;
     s \<leftarrow> intr_register_int stubs 0 0 True kill ''#DE Divide Error'' s;
     s \<leftarrow> intr_register_int stubs 1 0 True kill ''#DB Debug Exception'' s;
     s \<leftarrow> intr_register_int stubs 6 0 True kill ''#UD Invalid Opcode Exception'' s;
     s \<leftarrow> intr_register_int stubs 7 0 True kill ''#NM Device Not Available Exception'' s;
     s \<leftarrow> intr_register_int stubs 11 0 True kill ''#NP Segment Not Present'' s;
     s \<leftarrow> intr_register_int stubs 12 0 True kill ''#SS Stack Fault Exception'' s;
     s \<leftarrow> intr_register_int stubs 13 0 True kill ''#GP General Protection Exception'' s;
     s \<leftarrow> intr_register_int stubs 16 0 True kill ''#MF x87 FPU Floating-Point Error'' s;
     s \<leftarrow> intr_register_int stubs 19 0 True kill ''#XF SIMD Floating-Point Exception'' s;
     intr_register_int stubs 14 0 False page_fault ''#PF Page-Fault Exception'' s }"

definition register_syscall :: "(nat \<Rightarrow> u32) \<Rightarrow> u32 \<Rightarrow> intr_tables \<Rightarrow> intr_tables option" where
  "register_syscall stubs syscall_handler s = intr_register_int stubs 0x30 3 True syscall_handler ''syscall'' s"

text \<open>The registrations of the devices.  \<open>ide_init\<close> makes one for each of its two channels.\<close>

definition register_timer :: "(nat \<Rightarrow> u32) \<Rightarrow> u32 \<Rightarrow> intr_tables \<Rightarrow> intr_tables option" where
  "register_timer stubs timer_interrupt s = intr_register_ext stubs 0x20 timer_interrupt ''8254 Timer'' s"

definition kbd_init :: "(nat \<Rightarrow> u32) \<Rightarrow> u32 \<Rightarrow> intr_tables \<Rightarrow> intr_tables option" where
  "kbd_init stubs keyboard_interrupt s = intr_register_ext stubs 0x21 keyboard_interrupt ''8042 Keyboard'' s"

definition register_serial :: "(nat \<Rightarrow> u32) \<Rightarrow> u32 \<Rightarrow> intr_tables \<Rightarrow> intr_tables option" where
  "register_serial stubs serial_interrupt s = intr_register_ext stubs (0x20 + 4) serial_interrupt ''serial'' s"

definition register_ide :: "(nat \<Rightarrow> u32) \<Rightarrow> u32 \<Rightarrow> intr_tables \<Rightarrow> intr_tables option" where
  "register_ide stubs interrupt_handler s = do {
     s \<leftarrow> intr_register_ext stubs (14 + 0x20) interrupt_handler ''ide0'' s;
     intr_register_ext stubs (15 + 0x20) interrupt_handler ''ide1'' s }"

text \<open>The handlers, and what \<open>main\<close> does to the tables, in its order.\<close>

record handlers =
  h_timer :: u32
  h_kbd :: u32
  h_kill :: u32
  h_page_fault :: u32
  h_syscall :: u32
  h_serial :: u32
  h_ide :: u32

definition main_interrupts :: "(nat \<Rightarrow> u32) \<Rightarrow> u32 \<Rightarrow> handlers \<Rightarrow> intr_tables \<Rightarrow> intr_tables option" where
  "main_interrupts stubs addr h s = do {
     s \<leftarrow> intr_init stubs addr s;
     s \<leftarrow> register_timer stubs (h_timer h) s;
     s \<leftarrow> kbd_init stubs (h_kbd h) s;
     s \<leftarrow> exception_init stubs (h_kill h) (h_page_fault h) s;
     s \<leftarrow> register_syscall stubs (h_syscall h) s;
     s \<leftarrow> register_serial stubs (h_serial h) s;
     register_ide stubs (h_ide h) s }"

section \<open>What the processor reads\<close>

text \<open>The fields of a descriptor, at the positions the processor's manual gives.\<close>

definition desc_base :: "u64 \<Rightarrow> u32" where
  "desc_base d = ucast (drop_bit 16 d AND 0xffffff) OR push_bit 24 (ucast (drop_bit 56 d))"
definition desc_limit :: "u64 \<Rightarrow> u32" where
  "desc_limit d = ucast (d AND 0xffff) OR (ucast (drop_bit 32 d) AND 0xf0000)"
definition desc_type :: "u64 \<Rightarrow> int" where "desc_type d = uint (drop_bit 40 d AND 15)"
definition desc_code_data :: "u64 \<Rightarrow> bool" where "desc_code_data d \<longleftrightarrow> bit d 44"
definition desc_dpl :: "u64 \<Rightarrow> int" where "desc_dpl d = uint (drop_bit 45 d AND 3)"
definition desc_present :: "u64 \<Rightarrow> bool" where "desc_present d \<longleftrightarrow> bit d 47"
definition desc_pages :: "u64 \<Rightarrow> bool" where "desc_pages d \<longleftrightarrow> bit d 55"
definition gate_offset :: "u64 \<Rightarrow> u32" where
  "gate_offset d = ucast (d AND 0xffff) OR push_bit 16 (ucast (drop_bit 48 d))"
definition gate_selector :: "u64 \<Rightarrow> u16" where "gate_selector d = ucast (drop_bit 16 d)"

lemmas desc_defs = desc_base_def desc_limit_def desc_type_def desc_code_data_def desc_dpl_def desc_present_def
  desc_pages_def gate_offset_def gate_selector_def

lemma field_masks:
  "(0xff :: u32) = mask 8" "(0xffff :: u32) = mask 16" "(0xf0000 :: u32) = push_bit 16 (mask 4)"
  "(0xff000000 :: u32) = push_bit 24 (mask 8)" "(0xffff0000 :: u32) = push_bit 16 (mask 16)"
  "(0xffffff :: u64) = mask 24" "(0xffff :: u64) = mask 16" "(15 :: u64) = mask 4" "(3 :: u64) = mask 2"
  by (simp_all add: mask_numeral)

lemma small_field:
  assumes "0 \<le> v" "v < 2 ^ n" "n \<le> 31"
  shows "bit (word_of_int v :: u32) i \<longleftrightarrow> i < n \<and> bit v i"
proof -
  have "v = take_bit n v" using assms by (simp add: take_bit_int_eq_self)
  then have "bit v i \<longleftrightarrow> i < n \<and> bit v i" by (metis bit_take_bit_iff)
  then show ?thesis using assms(3) by (auto simp: bit_simps)
qed

lemma uint_field:
  assumes "0 \<le> v" "v < 2 ^ n" "n \<le> 64" "\<And>i. bit (w :: u64) i \<longleftrightarrow> i < n \<and> bit v i"
  shows "uint w = v"
proof -
  have "v = take_bit n v" using assms by (simp add: take_bit_int_eq_self)
  then have *: "bit v i \<Longrightarrow> i < n" for i by (metis bit_take_bit_iff)
  have "bit v i \<Longrightarrow> i < 64" for i using * [of i] assms(3) by linarith
  then show ?thesis using assms(4) * by (intro bit_eqI) (auto simp: bit_uint_iff)
qed

lemma class_gran_bit: "bit (class_bit c) i \<longleftrightarrow> i = 0 \<and> c = CLS_CODE_DATA" "bit (gran_bit g) i \<longleftrightarrow> i = 0 \<and> g = GRAN_PAGE"
  by (cases c; auto simp: class_bit_def bit_simps) (cases g; auto simp: gran_bit_def bit_simps)

lemma bit_halves: "bit (ucast (e0 :: u32) OR push_bit 32 (ucast (e1 :: u32)) :: u64) i \<longleftrightarrow>
    (if i < 32 then bit e0 i else i < 64 \<and> bit e1 (i - 32))"
  using bit_imp_le_length [of e0 i] by (auto simp: bit_simps)

lemma bit_two_powers: "bit (32768 :: int) j \<longleftrightarrow> j = 15" "bit (4194304 :: int) j \<longleftrightarrow> j = 22"
  using bit_exp_iff [where 'a = int, of 15 j] bit_exp_iff [where 'a = int, of 22 j] by auto

lemma window: "a \<le> j \<and> j - a < n \<and> P \<longleftrightarrow> a \<le> j \<and> j < a + n \<and> P" "a \<le> j \<and> j - a = 0 \<and> P \<longleftrightarrow> j = a \<and> P" for a j n :: nat
  by auto

text \<open>The bits of the two halves of a segment descriptor.\<close>

lemma seg_desc_bits:
  assumes "make_seg_desc base limit cls type dpl g = Some d"
  shows "bit d i \<longleftrightarrow>
     (if i < 16 then bit limit i else if i < 40 then bit base (i - 16)
      else if i < 44 then bit type (i - 40) else if i < 45 then cls = CLS_CODE_DATA else if i < 47 then bit dpl (i - 45)
      else if i < 48 then True else if i < 52 then bit limit (i - 32) else if i < 54 then False else if i < 55 then True
      else if i < 56 then g = GRAN_PAGE else i < 64 \<and> bit base (i - 32))"
proof -
  have h: "0 \<le> type" "type \<le> 15" "0 \<le> dpl" "dpl \<le> 3"
    using assms by (auto simp: make_seg_desc_def Let_def ret_simps)
  have t: "bit (word_of_int type :: u32) j \<longleftrightarrow> j < 4 \<and> bit type j" for j using h by (intro small_field) auto
  have p: "bit (word_of_int dpl :: u32) j \<longleftrightarrow> j < 2 \<and> bit dpl j" for j using h by (intro small_field) auto
  define e0 :: u32 where "e0 = (limit AND mask 16) OR push_bit 16 base"
  define e1 :: u32 where "e1 = ((drop_bit 16 base) AND mask 8) OR push_bit 8 (word_of_int type) OR push_bit 12 (class_bit cls)
       OR push_bit 13 (word_of_int dpl) OR push_bit 15 1 OR (limit AND push_bit 16 (mask 4)) OR push_bit 22 1
       OR push_bit 23 (gran_bit g) OR (base AND push_bit 24 (mask 8))"
  have d: "d = ucast e0 OR push_bit 32 (ucast e1)"
    using assms by (auto simp: make_seg_desc_def Let_def ret_simps field_masks e0_def e1_def)
  have b0: "bit e0 j \<longleftrightarrow> (if j < 16 then bit limit j else bit base (j - 16))" if "j < 32" for j
    using that by (simp add: e0_def bit_simps)
  have b1: "bit e1 j \<longleftrightarrow> (j < 8 \<and> bit base (16 + j)) \<or> (8 \<le> j \<and> bit (word_of_int type :: u32) (j - 8))
       \<or> (12 \<le> j \<and> bit (class_bit cls) (j - 12)) \<or> (13 \<le> j \<and> bit (word_of_int dpl :: u32) (j - 13)) \<or> j = 15
       \<or> (16 \<le> j \<and> j < 20 \<and> bit limit j) \<or> j = 22 \<or> (23 \<le> j \<and> bit (gran_bit g) (j - 23)) \<or> (24 \<le> j \<and> bit base j)"
    if "j < 32" for j
    using that by (simp add: e1_def bit_simps bit_two_powers less_diff_conv2 conj_ac cong: conj_cong)
  have b1': "bit e1 j \<longleftrightarrow> (j < 8 \<and> bit base (16 + j)) \<or> (8 \<le> j \<and> j < 12 \<and> bit type (j - 8))
       \<or> (j = 12 \<and> cls = CLS_CODE_DATA) \<or> (13 \<le> j \<and> j < 15 \<and> bit dpl (j - 13)) \<or> j = 15
       \<or> (16 \<le> j \<and> j < 20 \<and> bit limit j) \<or> j = 22 \<or> (j = 23 \<and> g = GRAN_PAGE) \<or> (24 \<le> j \<and> bit base j)"
    if "j < 32" for j
    unfolding b1 [OF that] t p class_gran_bit window by simp
  show ?thesis
  proof (cases "i < 32")
    case True then show ?thesis by (simp add: d bit_halves b0)
  next
    case False
    then obtain k where i: "i = 32 + k" using le_Suc_ex not_less by blast
    consider "k < 8" | "8 \<le> k" "k < 12" | "k = 12" | "13 \<le> k" "k < 15" | "k = 15" | "16 \<le> k" "k < 20" | "20 \<le> k" "k < 24" | "24 \<le> k" "k < 32" | "32 \<le> k"
      by linarith
    then show ?thesis by cases (simp_all add: d i bit_halves b1')
  qed
qed

lemma seg_desc_limit:
  assumes "make_seg_desc base limit cls type dpl g = Some d"
  shows "bit limit i \<Longrightarrow> i < 20"
proof -
  assume b: "bit limit i"
  have "limit < 2 ^ 20" using assms by (auto simp: make_seg_desc_def ret_simps word_le_nat_alt word_less_nat_alt)
  then have "take_bit 20 limit = limit" by (simp add: less_mask_eq take_bit_eq_mask)
  with b show "i < 20" by (metis bit_take_bit_iff)
qed

lemma seg_desc_fields:
  assumes "make_seg_desc base limit cls type dpl g = Some d"
  shows "desc_base d = base" "desc_limit d = limit" "desc_type d = type" "desc_dpl d = dpl"
    "desc_code_data d \<longleftrightarrow> cls = CLS_CODE_DATA" "desc_pages d \<longleftrightarrow> g = GRAN_PAGE" "desc_present d"
proof -
  have h: "0 \<le> type" "type \<le> 15" "0 \<le> dpl" "dpl \<le> 3" using assms by (auto simp: make_seg_desc_def ret_simps)
  note b = seg_desc_bits [OF assms]
  show "desc_base d = base"
  proof (rule bit_word_eqI)
    fix n assume n: "n < LENGTH(32)"
    show "bit (desc_base d) n = bit base n" using n unfolding desc_base_def field_masks
      by (cases "n < 24") (auto simp: bit_simps b)
  qed
  show "desc_limit d = limit"
  proof (rule bit_word_eqI)
    fix n assume n: "n < LENGTH(32)"
    show "bit (desc_limit d) n = bit limit n" using n seg_desc_limit [OF assms, of n] unfolding desc_limit_def field_masks
      by (cases "n < 16"; cases "n < 20") (auto simp: bit_simps b)
  qed
  show "desc_type d = type" unfolding desc_type_def field_masks
    by (rule uint_field [where n = 4]) (use h in \<open>auto simp: bit_simps b\<close>)
  show "desc_dpl d = dpl" unfolding desc_dpl_def field_masks
    by (rule uint_field [where n = 2]) (use h in \<open>auto simp: bit_simps b\<close>)
qed (simp_all add: desc_code_data_def desc_pages_def desc_present_def seg_desc_bits [OF assms])

text \<open>
  C37: The processor, which reads base, limit, type, class, privilege level and granularity from their
  scattered positions in a descriptor, reads back exactly what \<open>make_seg_desc\<close> was given, and the
  segment is present.
\<close>

theorem seg_desc_decodes:
  assumes "make_seg_desc base limit cls type dpl g = Some d"
  shows "desc_base d = base \<and> desc_limit d = limit \<and> desc_type d = type \<and> desc_dpl d = dpl
    \<and> (desc_code_data d \<longleftrightarrow> cls = CLS_CODE_DATA) \<and> (desc_pages d \<longleftrightarrow> g = GRAN_PAGE) \<and> desc_present d"
  using seg_desc_fields [OF assms] by simp

theorem seg_desc_decodes_witness:
  "\<exists>d. make_tss_desc 0xc0101000 = Some d \<and> desc_base d = 0xc0101000 \<and> desc_limit d = 0x67 \<and> desc_type d = 9"
proof -
  obtain d where d: "make_seg_desc 0xc0101000 0x67 CLS_SYSTEM 9 0 GRAN_BYTE = Some d"
    by (simp add: make_seg_desc_def)
  show ?thesis using d seg_desc_decodes [OF d] by (auto simp: make_tss_desc_def)
qed

section \<open>Gates\<close>

lemma gate_bits:
  assumes "make_gate fn dpl type = Some d"
  shows "bit d i \<longleftrightarrow> (if i < 16 then bit fn i else if i < 40 then i = 19
      else if i < 44 then bit type (i - 40) else if i < 45 then False else if i < 47 then bit dpl (i - 45)
      else if i < 48 then True else i < 64 \<and> bit fn (i - 32))"
proof -
  have h: "0 \<le> type" "type \<le> 15" "0 \<le> dpl" "dpl \<le> 3" using assms by (auto simp: make_gate_def ret_simps)
  have t: "bit (word_of_int type :: u32) j \<longleftrightarrow> j < 4 \<and> bit type j" for j using h by (intro small_field) auto
  have p: "bit (word_of_int dpl :: u32) j \<longleftrightarrow> j < 2 \<and> bit dpl j" for j using h by (intro small_field) auto
  define e0 :: u32 where "e0 = (fn AND mask 16) OR push_bit 16 (push_bit 3 1)"
  define e1 :: u32 where "e1 = (fn AND push_bit 16 (mask 16)) OR push_bit 15 1 OR push_bit 13 (word_of_int dpl) OR push_bit 8 (word_of_int type)"
  have d: "d = ucast e0 OR push_bit 32 (ucast e1)"
    using assms by (auto simp: make_gate_def Let_def ret_simps field_masks e0_def e1_def SEL_KCSEG_def)
  have b0: "bit e0 j \<longleftrightarrow> (if j < 16 then bit fn j else j = 19)" if "j < 32" for j
    using that by (auto simp: e0_def bit_simps bit_two_powers simp del: push_bit_of_1)
  have b1: "bit e1 j \<longleftrightarrow> (16 \<le> j \<and> bit fn j) \<or> j = 15 \<or> (13 \<le> j \<and> bit (word_of_int dpl :: u32) (j - 13))
      \<or> (8 \<le> j \<and> bit (word_of_int type :: u32) (j - 8))" if "j < 32" for j
    using that by (simp add: e1_def bit_simps bit_two_powers less_diff_conv2 conj_ac cong: conj_cong)
  have b1': "bit e1 j \<longleftrightarrow> (16 \<le> j \<and> bit fn j) \<or> j = 15 \<or> (13 \<le> j \<and> j < 15 \<and> bit dpl (j - 13))
      \<or> (8 \<le> j \<and> j < 12 \<and> bit type (j - 8))" if "j < 32" for j
    unfolding b1 [OF that] t p window by simp
  show ?thesis
  proof (cases "i < 32")
    case True then show ?thesis by (simp add: d bit_halves b0)
  next
    case False
    then obtain k where i: "i = 32 + k" using le_Suc_ex not_less by blast
    consider "k < 8" | "8 \<le> k" "k < 12" | "k = 12" | "13 \<le> k" "k < 15" | "k = 15" | "16 \<le> k" "k < 32" | "32 \<le> k"
      by linarith
    then show ?thesis by cases (simp_all add: d i bit_halves b1')
  qed
qed

lemma gate_decodes:
  assumes "make_gate fn dpl type = Some d"
  shows "gate_offset d = fn" "gate_selector d = of_nat SEL_KCSEG" "desc_type d = type" "desc_dpl d = dpl"
    "\<not> desc_code_data d" "desc_present d"
proof -
  have h: "0 \<le> type" "type \<le> 15" "0 \<le> dpl" "dpl \<le> 3" using assms by (auto simp: make_gate_def ret_simps)
  note b = gate_bits [OF assms]
  show "gate_offset d = fn"
  proof (rule bit_word_eqI)
    fix n assume n: "n < LENGTH(32)"
    show "bit (gate_offset d) n = bit fn n" using n unfolding gate_offset_def field_masks
      by (cases "n < 16") (auto simp: bit_simps b)
  qed
  have "of_nat SEL_KCSEG = (push_bit 3 1 :: u16)" by (simp add: SEL_KCSEG_def)
  moreover have "gate_selector d = push_bit 3 1"
  proof (rule bit_word_eqI)
    fix n assume n: "n < LENGTH(16)"
    show "bit (gate_selector d) n = bit (push_bit 3 (1 :: u16)) n" using n unfolding gate_selector_def bit_push_bit_iff bit_1_iff
      by (auto simp: bit_simps b)
  qed
  ultimately show "gate_selector d = of_nat SEL_KCSEG" by simp
  show "desc_type d = type" unfolding desc_type_def field_masks
    by (rule uint_field [where n = 4]) (use h in \<open>auto simp: bit_simps b\<close>)
  show "desc_dpl d = dpl" unfolding desc_dpl_def field_masks
    by (rule uint_field [where n = 2]) (use h in \<open>auto simp: bit_simps b\<close>)
qed (simp_all add: desc_code_data_def desc_present_def gate_bits [OF assms])

section \<open>The interrupt descriptor table\<close>

text \<open>The table holds, for every vector \<open>v\<close>, a gate to its stub with the privilege level and type \<open>f v\<close>.\<close>

definition gates :: "(nat \<Rightarrow> u32) \<Rightarrow> (nat \<Rightarrow> int \<times> int) \<Rightarrow> intr_tables \<Rightarrow> bool" where
  "gates stubs f s \<longleftrightarrow> length (idt s) = INTR_CNT \<and> length (intr_handlers s) = INTR_CNT
     \<and> (\<forall>v < INTR_CNT. make_gate (stubs v) (fst (f v)) (snd (f v)) = Some (idt s ! v))"

lemma make_gate_Some: "fn \<noteq> 0 \<Longrightarrow> 0 \<le> dpl \<Longrightarrow> dpl \<le> 3 \<Longrightarrow> 0 \<le> type \<Longrightarrow> type \<le> 15 \<Longrightarrow> \<exists>d. make_gate fn dpl type = Some d"
  by (simp add: make_gate_def Let_def)

lemma init_gates_ok:
  assumes "\<And>v. stubs v \<noteq> 0" "distinct is" "set is \<subseteq> {..<length t}"
  shows "\<exists>t'. init_gates stubs is t = Some t' \<and> length t' = length t
    \<and> (\<forall>v < length t. if v \<in> set is then make_gate (stubs v) 0 14 = Some (t' ! v) else t' ! v = t ! v)"
  using assms(2,3)
proof (induction "is" arbitrary: t)
  case (Cons i "is")
  obtain g where g: "make_gate (stubs i) 0 14 = Some g" using make_gate_Some [OF assms(1)] by fastforce
  obtain t' where t': "init_gates stubs is (t[i := g]) = Some t'" "length t' = length t"
    "\<forall>v < length t. if v \<in> set is then make_gate (stubs v) 0 14 = Some (t' ! v) else t' ! v = t[i := g] ! v"
    using Cons.IH [of "t[i := g]"] Cons.prems by auto
  show ?case using t' g Cons.prems by (auto simp: make_intr_gate_def nth_list_update split: if_splits)
qed simp

lemma intr_init_gates:
  assumes "\<And>v. stubs v \<noteq> 0" "length (idt s) = INTR_CNT" "intr_handlers s = replicate INTR_CNT 0"
  shows "\<exists>s'. intr_init stubs addr s = Some s' \<and> gates stubs (\<lambda>_. (0, 14)) s' \<and> intr_handlers s' = replicate INTR_CNT 0"
proof -
  obtain t where t: "init_gates stubs [0..<INTR_CNT] (idt s) = Some t" "length t = INTR_CNT"
    "\<forall>v < INTR_CNT. make_gate (stubs v) 0 14 = Some (t ! v)"
    using init_gates_ok [of stubs "[0..<INTR_CNT]" "idt s"] assms(1,2) by (auto simp: atLeast0LessThan)
  then show ?thesis using assms(2,3) by (auto simp: intr_init_def gates_def)
qed

text \<open>Registering a handler changes one gate and fails exactly when the vector is taken or of the other kind.\<close>

lemma register_gates:
  assumes "gates stubs f s" "stubs (unat v) \<noteq> 0" "0 \<le> dpl" "dpl \<le> 3" "intr_handlers s ! unat v = 0"
  shows "\<exists>s'. register_handler stubs v dpl level h name s = Some s'
    \<and> gates stubs (f(unat v := (dpl, if level then 15 else 14))) s' \<and> intr_handlers s' = (intr_handlers s)[unat v := h]"
proof -
  have v: "unat v < INTR_CNT" using unat_lt2p [of v] by (simp add: INTR_CNT_def)
  obtain g where "make_gate (stubs (unat v)) dpl (if level then 15 else 14) = Some g"
    using make_gate_Some [OF assms(2-4), of 14] make_gate_Some [OF assms(2-4), of 15] by (cases level) auto
  then show ?thesis using assms(1,5) v
    by (auto simp: register_handler_def make_trap_gate_def make_intr_gate_def gates_def nth_list_update)
qed

text \<open>A sequence of registrations, and what it makes of the gates and of the handlers.\<close>

fun register_all :: "(nat \<Rightarrow> u32) \<Rightarrow> (u8 \<times> int \<times> bool \<times> u32 \<times> string) list \<Rightarrow> intr_tables \<Rightarrow> intr_tables option" where
  "register_all stubs [] s = Some s"
| "register_all stubs ((v, dpl, level, h, name) # rs) s = do {
     s \<leftarrow> register_handler stubs v dpl level h name s;
     register_all stubs rs s }"

fun update_all :: "(u8 \<times> int \<times> bool \<times> u32 \<times> string) list \<Rightarrow> (nat \<Rightarrow> int \<times> int) \<Rightarrow> nat \<Rightarrow> int \<times> int" where
  "update_all [] f = f"
| "update_all ((v, dpl, level, h, name) # rs) f = update_all rs (f(unat v := (dpl, if level then 15 else 14)))"

fun handlers_all :: "(u8 \<times> int \<times> bool \<times> u32 \<times> string) list \<Rightarrow> u32 list \<Rightarrow> u32 list" where
  "handlers_all [] hs = hs"
| "handlers_all ((v, dpl, level, h, name) # rs) hs = handlers_all rs (hs[unat v := h])"

lemma register_all_gates:
  assumes "\<And>i. stubs i \<noteq> 0" "distinct (map fst rs)" "gates stubs f s"
    "list_all (\<lambda>(v, dpl, _). 0 \<le> dpl \<and> dpl \<le> 3 \<and> intr_handlers s ! unat v = 0) rs"
  shows "\<exists>s'. register_all stubs rs s = Some s' \<and> gates stubs (update_all rs f) s'
    \<and> intr_handlers s' = handlers_all rs (intr_handlers s)"
  using assms(2-)
proof (induction rs arbitrary: f s)
  case (Cons r rs)
  obtain v dpl level h name where r: "r = (v, dpl, level, h, name)" by (cases r)
  obtain s1 where s1: "register_handler stubs v dpl level h name s = Some s1"
    "gates stubs (f(unat v := (dpl, if level then 15 else 14))) s1" "intr_handlers s1 = (intr_handlers s)[unat v := h]"
    using register_gates [OF Cons.prems(2) assms(1), where v = v and dpl = dpl and level = level and h = h and name = name] Cons.prems(3) r by auto
  have h: "w \<noteq> v \<Longrightarrow> intr_handlers s1 ! unat w = intr_handlers s ! unat w" for w
    unfolding s1(3) by (subst nth_list_update_neq) (auto simp: word_unat_eq_iff)
  have "list_all (\<lambda>(v, dpl, _). 0 \<le> dpl \<and> dpl \<le> 3 \<and> intr_handlers s1 ! unat v = 0) rs"
    using Cons.prems(1,3) r h by (fastforce simp: list_all_iff image_iff)
  moreover have "distinct (map fst rs)" using Cons.prems(1) by simp
  ultimately obtain s' where s': "register_all stubs rs s1 = Some s'" "gates stubs (update_all rs (f(unat v := (dpl, if level then 15 else 14)))) s'"
    "intr_handlers s' = handlers_all rs (intr_handlers s1)"
    using Cons.IH [OF _ s1(2)] by blast
  show ?case using s' s1(1,3) by (auto simp: r)
qed simp

definition boot_registrations :: "handlers \<Rightarrow> (u8 \<times> int \<times> bool \<times> u32 \<times> string) list" where
  "boot_registrations h =
     [(0x20, 0, False, h_timer h, ''8254 Timer''), (0x21, 0, False, h_kbd h, ''8042 Keyboard''),
      (3, 3, True, h_kill h, ''#BP Breakpoint Exception''), (4, 3, True, h_kill h, ''#OF Overflow Exception''),
      (5, 3, True, h_kill h, ''#BR BOUND Range Exceeded Exception''), (0, 0, True, h_kill h, ''#DE Divide Error''),
      (1, 0, True, h_kill h, ''#DB Debug Exception''), (6, 0, True, h_kill h, ''#UD Invalid Opcode Exception''),
      (7, 0, True, h_kill h, ''#NM Device Not Available Exception''), (11, 0, True, h_kill h, ''#NP Segment Not Present''),
      (12, 0, True, h_kill h, ''#SS Stack Fault Exception''), (13, 0, True, h_kill h, ''#GP General Protection Exception''),
      (16, 0, True, h_kill h, ''#MF x87 FPU Floating-Point Error''), (19, 0, True, h_kill h, ''#XF SIMD Floating-Point Exception''),
      (14, 0, False, h_page_fault h, ''#PF Page-Fault Exception''), (0x30, 3, True, h_syscall h, ''syscall''),
      (0x24, 0, False, h_serial h, ''serial''), (0x2e, 0, False, h_ide h, ''ide0''), (0x2f, 0, False, h_ide h, ''ide1'')]"

lemma register_all_fun:
  "register_all stubs [] = Some"
  "register_all stubs ((v, dpl, level, h, name) # rs) = (\<lambda>s. Option.bind (register_handler stubs v dpl level h name s) (register_all stubs rs))"
  by (simp_all add: fun_eq_iff)

lemma register_fun:
  "0x20 \<le> v \<Longrightarrow> v \<le> 0x2f \<Longrightarrow> intr_register_ext stubs v h name = register_handler stubs v 0 False h name"
  "v < 0x20 \<or> 0x2f < v \<Longrightarrow> intr_register_int stubs v dpl level h name = register_handler stubs v dpl level h name"
  by (simp_all add: fun_eq_iff intr_register_ext_def intr_register_int_def)

lemma main_registrations: "main_interrupts stubs addr h s = Option.bind (intr_init stubs addr s) (register_all stubs (boot_registrations h))"
  by (simp add: main_interrupts_def register_timer_def kbd_init_def exception_init_def register_syscall_def register_serial_def
    register_ide_def register_fun boot_registrations_def register_all_fun)

lemma boot_update:
  "update_all (boot_registrations h) (\<lambda>_. (0, 14)) v =
     (if v \<in> {3, 4, 5, 0x30} then (3, 15) else if v \<in> {0, 1, 6, 7, 11, 12, 13, 16, 19} then (0, 15) else (0, 14))"
  by (simp add: boot_registrations_def)

text \<open>The handler of every vector after booting.\<close>

definition handler_of :: "handlers \<Rightarrow> nat \<Rightarrow> u32" where
  "handler_of h v = (if v \<in> {0, 1, 3, 4, 5, 6, 7, 11, 12, 13, 16, 19} then h_kill h else if v = 14 then h_page_fault h
     else if v = 0x20 then h_timer h else if v = 0x21 then h_kbd h else if v = 0x24 then h_serial h
     else if v \<in> {0x2e, 0x2f} then h_ide h else if v = 0x30 then h_syscall h else 0)"

lemma boot_handlers: "v < INTR_CNT \<Longrightarrow> handlers_all (boot_registrations h) (replicate INTR_CNT 0) ! v = handler_of h v"
  by (simp add: boot_registrations_def INTR_CNT_def nth_list_update handler_of_def)

text \<open>
  C19: the initialisation of the interrupt system by \<open>main\<close> - the table, the timer, the keyboard, the
  exceptions, the system call, the serial line and the disks - runs without a failed assertion.  In the
  table it builds every vector leads to its stub through the kernel's code segment.  A user program can
  invoke exactly the vectors 3, 4, 5 and 0x30; no gate of an external interrupt (0x20 to 0x2f), and not the
  page fault's, leaves interrupts on; and every vector has the handler that was registered for it.
\<close>

theorem idt_privileges:
  assumes "\<And>v. stubs v \<noteq> 0" "length (idt s) = INTR_CNT" "intr_handlers s = replicate INTR_CNT 0"
  shows "\<exists>s'. main_interrupts stubs addr h s = Some s'
    \<and> (\<forall>v < INTR_CNT. let d = idt s' ! v in gate_offset d = stubs v \<and> gate_selector d = of_nat SEL_KCSEG \<and> desc_present d
        \<and> (desc_dpl d = 3 \<longleftrightarrow> v \<in> {3, 4, 5, 0x30}) \<and> (v \<in> {14} \<union> {0x20..0x2f} \<longrightarrow> desc_type d = 14)
        \<and> intr_handlers s' ! v = handler_of h v)"
proof -
  obtain s1 where s1: "intr_init stubs addr s = Some s1" "gates stubs (\<lambda>_. (0, 14)) s1" "intr_handlers s1 = replicate INTR_CNT 0"
    using intr_init_gates [of stubs s addr] assms by blast
  have free: "intr_handlers s1 ! unat v = 0" for v :: u8 using unat_lt2p [of v] by (simp add: s1(3) INTR_CNT_def)
  have d: "distinct (map fst (boot_registrations h))"
    "list_all (\<lambda>(v, dpl, _). 0 \<le> dpl \<and> dpl \<le> 3 \<and> intr_handlers s1 ! unat v = 0) (boot_registrations h)"
    using free by (simp_all add: boot_registrations_def)
  define f where "f = update_all (boot_registrations h) (\<lambda>_. (0, 14))"
  obtain s2 where s2: "register_all stubs (boot_registrations h) s1 = Some s2" "gates stubs f s2"
      "intr_handlers s2 = handlers_all (boot_registrations h) (replicate INTR_CNT 0)"
    using register_all_gates [OF assms(1) d(1) s1(2) d(2)] unfolding f_def s1(3) by blast
  have "let d = idt s2 ! v in gate_offset d = stubs v \<and> gate_selector d = of_nat SEL_KCSEG \<and> desc_present d
        \<and> (desc_dpl d = 3 \<longleftrightarrow> v \<in> {3, 4, 5, 0x30}) \<and> (v \<in> {14} \<union> {0x20..0x2f} \<longrightarrow> desc_type d = 14)
        \<and> intr_handlers s2 ! v = handler_of h v"
    if "v < INTR_CNT" for v
  proof -
    have "make_gate (stubs v) (fst (f v)) (snd (f v)) = Some (idt s2 ! v)" using s2(2) that by (simp add: gates_def)
    from gate_decodes [OF this] show ?thesis using boot_handlers [OF that, of h] by (auto simp: Let_def f_def boot_update s2(3))
  qed
  then show ?thesis using s1(1) s2(1) by (simp add: main_registrations)
qed

definition empty_tables :: intr_tables where
  "empty_tables = \<lparr>idt = replicate INTR_CNT 0, intr_handlers = replicate INTR_CNT 0, intr_names = replicate INTR_CNT [],
     unexpected_cnt = replicate INTR_CNT 0, idtr = 0, pic_out = []\<rparr>"

theorem idt_privileges_witness:
  "\<exists>s'. main_interrupts (\<lambda>_. 0xc0020000) 0xc0030000 \<lparr>h_timer = 1, h_kbd = 2, h_kill = 3, h_page_fault = 4, h_syscall = 5, h_serial = 6, h_ide = 7\<rparr>
      empty_tables = Some s'
    \<and> desc_dpl (idt s' ! 0x30) = 3 \<and> desc_dpl (idt s' ! 0x20) \<noteq> 3 \<and> desc_type (idt s' ! 0x20) = 14 \<and> intr_handlers s' ! 0x20 = 1"
proof -
  let ?h = "\<lparr>h_timer = 1, h_kbd = 2, h_kill = 3, h_page_fault = 4, h_syscall = 5, h_serial = 6, h_ide = 7\<rparr>"
  have e: "(0xc0020000 :: u32) \<noteq> 0" "length (idt empty_tables) = INTR_CNT" "intr_handlers empty_tables = replicate INTR_CNT 0"
    by (simp_all add: empty_tables_def)
  obtain s' where s': "main_interrupts (\<lambda>_. 0xc0020000) 0xc0030000 ?h empty_tables = Some s'"
    "\<forall>v < INTR_CNT. let d = idt s' ! v in gate_offset d = 0xc0020000 \<and> gate_selector d = of_nat SEL_KCSEG \<and> desc_present d
        \<and> (desc_dpl d = 3 \<longleftrightarrow> v \<in> {3, 4, 5, 0x30}) \<and> (v \<in> {14} \<union> {0x20..0x2f} \<longrightarrow> desc_type d = 14)
        \<and> intr_handlers s' ! v = handler_of ?h v"
    using idt_privileges [where stubs = "\<lambda>_. 0xc0020000" and s = empty_tables and addr = "0xc0030000" and h = ?h, OF e] by blast
  show ?thesis using s'(1) spec [OF s'(2), of "0x30"] spec [OF s'(2), of "0x20"] by (auto simp: INTR_CNT_def Let_def handler_of_def)
qed

end
