(* ===== verification/Spec2Isabelle.thy ===== *)
theory Spec2Isabelle
  imports Klist_Interface Bitmap_Alloc Khash_Properties Arith64 Stdlib_Heap Kstring_Correct Kthread_Properties Pagedir_Free Directory_Map Stdio_Correct Intq Krandom Rtc Descriptors
begin

text \<open>
  \<^bold>\<open>Verification of the Pintos kernel of this repository.\<close>

  The program is a small teaching kernel for a 32-bit x86 machine (\<open>src/src\<close>).  Its parts build on
  each other as follows.

  \<^item> The kernel library (\<open>lib/kernel\<close>, \<open>lib\<close>) provides linked lists, bitmaps, hash tables, sorting,
    strings and 64-bit arithmetic.
  \<^item> \<open>threads/\<close> holds the scheduler, the synchronization primitives and the page allocator.  They keep
    their queues in kernel lists and their free pages in bitmaps.
  \<^item> \<open>devices/\<close> holds the timer, which drives the scheduler, and the block device layer.
  \<^item> \<open>userprog/pagedir.c\<close> builds page tables out of pages of the page allocator.
  \<^item> \<open>filesys/\<close> stores inodes, files and the free map on a block device.

  \<^bold>\<open>Conventions.\<close>  A C function is a HOL function on an explicit state.  A failed \<open>ASSERT\<close>, a
  \<open>PANIC\<close>, the dereference of a null or dangling pointer, and a loop that does not end are the value
  \<open>None\<close> of an \<open>option\<close>; \<open>kassert\<close> of theory Prelude is the assertion.  Loops over pointer structures are
  \<open>partial_function (option)\<close>, so that a theorem that a call returns \<open>Some\<close> is a theorem that it
  ends; all other loops are structural or have a termination proof, and no fuel is used.
  Integers that may wrap are words of their width; \<open>off_t\<close> values are integers where the code keeps
  them in range.

  \<^bold>\<open>The theories.\<close>

  \<^item> \<open>Prelude\<close>: assertions, the collection \<open>ret_simps\<close> that inverts a call that returned, strict weak
    orders, words.
  \<^item> \<open>Klist\<close>, \<open>Klist_Repr\<close>, \<open>Klist_Order\<close>, \<open>Klist_Sort\<close>, \<open>Klist_Interface\<close> (\<open>lib/kernel/list.c\<close>): the operations
    on a heap of \<open>prev\<close> and \<open>next\<close> cells; the sequence a list represents; the effect of every operation
    on the sequence; the natural merge sort.  The locale \<open>kernel_list\<close> states the contract and is
    interpreted on the operations.
  \<^item> \<open>Bitmap\<close>, \<open>Bitmap_Alloc\<close> (\<open>lib/kernel/bitmap.c\<close>): bitmaps as sequences of bits, first fit, and the
    contract \<open>run_allocator\<close> of an allocator of runs, interpreted on \<open>bitmap_scan_and_flip\<close>.
  \<^item> \<open>Khash\<close>, \<open>Khash_Map\<close>, \<open>Khash_Properties\<close> (\<open>lib/kernel/hash.c\<close>): the hash table as a map
    (locale \<open>key_table\<close>), rehashing and iteration.
  \<^item> \<open>Arith64\<close> (\<open>lib/arithmetic.c\<close>), \<open>Stdlib_Sort\<close>, \<open>Stdlib_Heap\<close> (\<open>lib/stdlib.c\<close>), \<open>Kstring\<close>, \<open>Kstring_Correct\<close>
    (\<open>lib/string.c\<close>), \<open>Fixed_Point\<close> (\<open>threads/fixed-point.h\<close>), \<open>Ctype\<close> (\<open>lib/ctype.h\<close> and \<open>atoi\<close>),
    \<open>Stdio\<close>, \<open>Stdio_Correct\<close> (\<open>lib/stdio.c\<close>): every conversion of \<open>printf\<close>, its bounds, and that \<open>atoi\<close>
    reads back what \<open>%d\<close> writes.
  \<^item> \<open>Kthread\<close>, \<open>Ksynch\<close> (\<open>threads/thread.c\<close>, \<open>synch.c\<close>, \<open>interrupt.c\<close>, \<open>devices/timer.c\<close>): the kernel as a
    record; every call that may lose the processor is a stack of segments.  \<open>Ktick\<close>: one timer
    interrupt.  \<open>Ksched_Spec\<close>, \<open>Ksched_Inv\<close>, \<open>Ksched_Refine\<close>: an abstract scheduler, its invariant, and
    the simulation.  \<open>Kstep\<close>, \<open>Kstep_Inv\<close>, \<open>Kstep_Safe\<close>: the step relation over all interleavings of
    calls and timer interrupts, and which steps return and keep the invariant.  \<open>Klock\<close>: mutual
    exclusion.  \<open>Kboot\<close>: the boot sequence, and that it ends in a state that satisfies the invariant.
    \<open>Ktimer\<close>: order of service.  \<open>Kthread_Properties\<close>: the properties.

    \<open>timer_sleep\<close> has a race: it enters the thread in the list of sleepers before it disables
    interrupts.  A timer interrupt in between is a step like any other, unless it ends the time slice or
    finds the thread itself due (\<open>race\<close> of theory Kstep).  One of the properties says what
    happens then; the invariant, and the theorems that need it, are about runs without such an
    interrupt.  A timer interrupt during the insertion itself, which the code allows too, is not
    modelled: the insertion is one step.
  \<^item> \<open>Vaddr\<close> (\<open>threads/vaddr.h\<close>, \<open>pte.h\<close>), \<open>Palloc\<close> (\<open>threads/palloc.c\<close>, with the contract \<open>page_source\<close>),
    \<open>Pagedir\<close>, \<open>Pagedir_Free\<close> (\<open>userprog/pagedir.c\<close>): address arithmetic, the page allocator, and
    page tables in memory with a translation lookaside buffer.  The bitmaps of the page allocator, which
    the code keeps in the first pages of each pool, are components of the pools and not memory contents.
  \<^item> \<open>Bytes\<close>, \<open>Block\<close> (\<open>devices/block.c\<close>), \<open>Inode\<close> (\<open>filesys/inode.c\<close>, \<open>file.c\<close>, \<open>free-map.c\<close>), \<open>Inode_Data\<close>: a file as the
    sequence of its bytes.  \<open>Directory\<close>, \<open>Directory_Map\<close> (\<open>filesys/directory.c\<close>, \<open>filesys.c\<close>): a directory
    as a map as long as memory for the bounce buffers can be allocated, with the contract \<open>name_table\<close>,
    and what \<open>dir_add\<close> does to an entry in use when it cannot.
  \<^item> \<open>Intq\<close> (\<open>devices/intq.c\<close>): the queue between interrupt handlers and threads, with the contract
    \<open>byte_channel\<close>, and the assertion that fails when a thread that waited for the queue's lock finds
    its condition true.
  \<^item> \<open>Descriptors\<close> (\<open>userprog/gdt.c\<close>, \<open>tss.c\<close>, \<open>threads/interrupt.c\<close>): segment descriptors and interrupt gates as
    64-bit words, read back the way the processor reads them, and the privileges and handlers of the
    table that \<open>main\<close> builds, with the registrations of the device drivers.
  \<^item> \<open>Krandom\<close> (\<open>lib/random.c\<close>) and \<open>Rtc\<close> (\<open>devices/rtc.c\<close>): the random number generator, and the clock with
    the chip as a parameter.

  \<^bold>\<open>Not modelled.\<close>

  \<^item> Assembly (\<open>switch.S\<close>, \<open>start.S\<close>, \<open>intr-stubs.S\<close>, the loader): the thread switch is one step of the
    scheduler model, and the addresses of the interrupt stubs are a parameter.
  \<^item> Device registers and port input: \<open>ide.c\<close>, \<open>vga.c\<close>, \<open>serial.c\<close>, \<open>kbd.c\<close>, \<open>pit.c\<close>, \<open>speaker.c\<close>, \<open>shutdown.c\<close>, the
    busy waiting of \<open>timer.c\<close>, and the partition table reader on top of the disk driver.
  \<^item> Virtual memory (\<open>vm/\<close>), processes and the handlers of system calls and page faults
    (\<open>userprog/process.c\<close>, \<open>syscall.c\<close>, \<open>exception.c\<close>): they act on the tables of several running threads and on
    user memory at once, which needs the scheduler's step relation joined with the memory model.
    The page allocator, page directories, bitmaps and files they call are modelled; of \<open>process.c\<close>,
    \<open>process_activate\<close> and what \<open>process_exit\<close> does to the thread are part of theory Kthread.
  \<^item> \<open>malloc.c\<close>: clients take the address it returns, or its failure, as an argument.
  \<^item> Option parsing in \<open>init.c\<close>, \<open>ustar.c\<close>, \<open>fsutil.c\<close>, console output, backtraces, the user library, and
    test programs.
\<close>

end
